theory Spec2Isabelle
  imports Complex_Main "HOL-Library.Word"
begin

unbundle bit_operations_syntax

section \<open>Lazy vacuum (vacuumlazy.c): data model\<close>

text \<open>
  The development follows \<^verbatim>\<open>src/backend/commands/vacuumlazy.c\<close>.  C integers keep
  their width where the code's behaviour depends on it: \<^verbatim>\<open>BlockNumber\<close> is \<^verbatim>\<open>uint32\<close>,
  \<^verbatim>\<open>OffsetNumber\<close> is \<^verbatim>\<open>uint16\<close>, the worker state is a \<^verbatim>\<open>uint8\<close> bit mask and the round
  a \<^verbatim>\<open>uint32\<close>; \<^verbatim>\<open>int\<close> counters that never leave their range are HOL integers.
\<close>

type_synonym BlockNumber = "32 word"
type_synonym OffsetNumber = "16 word"
type_synonym TransactionId = "32 word"

record ItemPointerData =
  ip_blkid :: BlockNumber
  ip_posid :: OffsetNumber

definition ItemPointerGetBlockNumber :: "ItemPointerData \<Rightarrow> BlockNumber" where
  "ItemPointerGetBlockNumber p = ip_blkid p"

definition ItemPointerGetOffsetNumber :: "ItemPointerData \<Rightarrow> OffsetNumber" where
  "ItemPointerGetOffsetNumber p = ip_posid p"

text \<open>\<^verbatim>\<open>LVDeadTuple\<close>: the first \<^verbatim>\<open>n_dt\<close> slots of \<^verbatim>\<open>dt_array\<close> are the recorded TIDs; the
  array itself is the allocated storage, whose size never changes.\<close>

record LVDeadTuple =
  n_dt :: int
  dt_array :: "ItemPointerData list"

record VacWorker =
  state :: "8 word"
  round :: "32 word"

record LVParallelState =
  nworkers :: int
  vacworkers :: "VacWorker list"

text \<open>\<^verbatim>\<open>LVRelStats\<close>, with the fields the functions below read or write.  The tuple counts
  are C doubles that are only copied, never computed with, in the code modelled here.\<close>

record LVRelStats =
  nindexes :: int
  old_rel_pages :: BlockNumber
  rel_pages :: BlockNumber
  scanned_pages :: BlockNumber
  pinskipped_pages :: BlockNumber
  frozenskipped_pages :: BlockNumber
  old_rel_tuples :: real
  new_rel_tuples :: real
  pages_removed :: BlockNumber
  nonempty_pages :: BlockNumber
  dead_tuples :: "LVDeadTuple list"
  max_dead_tuples :: int
  num_index_scans :: int
  lock_waiter_detected :: bool
  pstate :: "LVParallelState option"

section \<open>The dead-tuple store\<close>

text \<open>\<^verbatim>\<open>MyDeadTuple\<close> points at one element of \<^verbatim>\<open>vacrelstats->dead_tuples\<close>: element 0 in a
  serial run, element \<^verbatim>\<open>ParallelWorkerNumber\<close> in a worker.  The model passes that index
  (\<open>my\<close>) explicitly.\<close>

definition lazy_record_dead_tuple ::
  "LVRelStats \<Rightarrow> nat \<Rightarrow> ItemPointerData \<Rightarrow> LVRelStats" where
  "lazy_record_dead_tuple vacrelstats my itemptr =
     (let MyDeadTuple = dead_tuples vacrelstats ! my in
      if n_dt MyDeadTuple < max_dead_tuples vacrelstats
      then vacrelstats\<lparr>dead_tuples := (dead_tuples vacrelstats)
             [my := MyDeadTuple\<lparr>dt_array := (dt_array MyDeadTuple)[nat (n_dt MyDeadTuple) := itemptr],
                               n_dt := n_dt MyDeadTuple + 1\<rparr>]\<rparr>
      else vacrelstats)"

text \<open>A sequence of \<^verbatim>\<open>lazy_record_dead_tuple\<close> calls by one worker.\<close>

fun record_all :: "LVRelStats \<Rightarrow> nat \<Rightarrow> ItemPointerData list \<Rightarrow> LVRelStats" where
  "record_all vacrelstats my [] = vacrelstats"
| "record_all vacrelstats my (t # ts) = record_all (lazy_record_dead_tuple vacrelstats my t) my ts"

text \<open>The TIDs a partition holds: the first \<^verbatim>\<open>n_dt\<close> slots of its array.\<close>

definition dt_entries :: "LVDeadTuple \<Rightarrow> ItemPointerData list" where
  "dt_entries d = take (nat (n_dt d)) (dt_array d)"

text \<open>A partition as \<^verbatim>\<open>lazy_space_alloc\<close> leaves it and the code keeps it: the count lies
  between 0 and the capacity, and the array has exactly \<^verbatim>\<open>max_dead_tuples\<close> slots.\<close>

definition dt_wf :: "int \<Rightarrow> LVDeadTuple \<Rightarrow> bool" where
  "dt_wf maxdt d \<longleftrightarrow> 0 \<le> n_dt d \<and> n_dt d \<le> maxdt \<and> length (dt_array d) = nat maxdt"

text \<open>A statistics block with every counter at zero, as \<^verbatim>\<open>palloc0\<close> returns it, given
  the capacity, the dead-tuple partitions and the parallel state.\<close>

definition zero_stats :: "int \<Rightarrow> LVDeadTuple list \<Rightarrow> LVParallelState option \<Rightarrow> LVRelStats" where
  "zero_stats maxdt dts ps =
     \<lparr>nindexes = 0, old_rel_pages = 0, rel_pages = 0, scanned_pages = 0,
      pinskipped_pages = 0, frozenskipped_pages = 0, old_rel_tuples = 0, new_rel_tuples = 0,
      pages_removed = 0, nonempty_pages = 0, dead_tuples = dts, max_dead_tuples = maxdt,
      num_index_scans = 0, lock_waiter_detected = False, pstate = ps\<rparr>"

definition tid :: "nat \<Rightarrow> nat \<Rightarrow> ItemPointerData" where
  "tid b off = \<lparr>ip_blkid = of_nat b, ip_posid = of_nat off\<rparr>"

subsection \<open>Lookup\<close>

definition vac_cmp_itemptr :: "ItemPointerData \<Rightarrow> ItemPointerData \<Rightarrow> int" where
  "vac_cmp_itemptr left right =
     (let lblk = ItemPointerGetBlockNumber left;
          rblk = ItemPointerGetBlockNumber right
      in if lblk < rblk then - 1
         else if lblk > rblk then 1
         else (let loff = ItemPointerGetOffsetNumber left;
                   roff = ItemPointerGetOffsetNumber right
               in if loff < roff then - 1
                  else if loff > roff then 1
                  else 0))"

text \<open>Modelled from the spec: \<^verbatim>\<open>bsearch\<close> is the C library's routine, not code under
  \<^verbatim>\<open>src/\<close>; the spec calls it a sorted search.  It is modelled by the usual halving loop
  over the slots \<open>l..<u\<close> of the array, and returns the index of the slot found where the
  C routine returns a pointer to it (\<open>None\<close> for \<^verbatim>\<open>NULL\<close>).\<close>

function bsearch_loop ::
  "('a \<Rightarrow> 'a \<Rightarrow> int) \<Rightarrow> 'a \<Rightarrow> 'a list \<Rightarrow> nat \<Rightarrow> nat \<Rightarrow> nat option" where
  "bsearch_loop compar key base l u =
     (if l < u
      then if compar key (base ! ((l + u) div 2)) < 0
           then bsearch_loop compar key base l ((l + u) div 2)
           else if compar key (base ! ((l + u) div 2)) > 0
           then bsearch_loop compar key base ((l + u) div 2 + 1) u
           else Some ((l + u) div 2)
      else None)"
  by pat_completeness auto
termination
  by (relation "measure (\<lambda>(compar, key, base, l, u). u - l)") auto

declare bsearch_loop.simps [simp del]

definition bsearch :: "'a \<Rightarrow> 'a list \<Rightarrow> nat \<Rightarrow> ('a \<Rightarrow> 'a \<Rightarrow> int) \<Rightarrow> nat option" where
  "bsearch key base nmemb compar = bsearch_loop compar key base 0 nmemb"

text \<open>The loop \<^verbatim>\<open>for (i = 0; i < num; i++)\<close> of \<^verbatim>\<open>lazy_tid_reaped\<close>, from index \<open>i\<close> on.\<close>

function tid_reaped_from :: "ItemPointerData \<Rightarrow> LVRelStats \<Rightarrow> int \<Rightarrow> int \<Rightarrow> bool" where
  "tid_reaped_from itemptr vacrelstats num i =
     (if i < num
      then (let dead_tuples' = dt_array (dead_tuples vacrelstats ! nat i);
                n_tuples = n_dt (dead_tuples vacrelstats ! nat i);
                res = bsearch itemptr dead_tuples' (nat n_tuples) vac_cmp_itemptr
            in if res \<noteq> None then True
               else tid_reaped_from itemptr vacrelstats num (i + 1))
      else False)"
  by pat_completeness auto
termination
  by (relation "measure (\<lambda>(itemptr, vacrelstats, num, i). nat (num - i))") auto

declare tid_reaped_from.simps [simp del]

definition lazy_tid_reaped :: "ItemPointerData \<Rightarrow> LVRelStats \<Rightarrow> bool" where
  "lazy_tid_reaped itemptr vacrelstats =
     (let num = (case pstate vacrelstats of None \<Rightarrow> 1 | Some p \<Rightarrow> nworkers p)
      in tid_reaped_from itemptr vacrelstats num 0)"

text \<open>The order of \<^verbatim>\<open>vac_cmp_itemptr\<close>: first by block number, then by offset.\<close>

definition tid_less :: "ItemPointerData \<Rightarrow> ItemPointerData \<Rightarrow> bool" where
  "tid_less a b \<longleftrightarrow> ip_blkid a < ip_blkid b \<or> (ip_blkid a = ip_blkid b \<and> ip_posid a < ip_posid b)"

text \<open>The number of partitions \<^verbatim>\<open>lazy_tid_reaped\<close> searches.\<close>

definition num_partitions :: "LVRelStats \<Rightarrow> int" where
  "num_partitions vacrelstats = (case pstate vacrelstats of None \<Rightarrow> 1 | Some p \<Rightarrow> nworkers p)"

section \<open>Visibility map and page flags\<close>

text \<open>Modelled from the spec: the flag bits of the visibility map are declared in
  \<^verbatim>\<open>access/visibilitymap.h\<close>, which is not under \<^verbatim>\<open>src/\<close>.  The spec names two per-page
  bits, all-visible and all-frozen; they are two distinct bits of the status byte, and
  \<^verbatim>\<open>VISIBILITYMAP_VALID_BITS\<close> is both of them.\<close>

definition VISIBILITYMAP_ALL_VISIBLE :: "8 word" where
  "VISIBILITYMAP_ALL_VISIBLE = 0x01"

definition VISIBILITYMAP_ALL_FROZEN :: "8 word" where
  "VISIBILITYMAP_ALL_FROZEN = 0x02"

definition VISIBILITYMAP_VALID_BITS :: "8 word" where
  "VISIBILITYMAP_VALID_BITS = 0x03"

definition InvalidTransactionId :: TransactionId where
  "InvalidTransactionId = 0"

definition InvalidMultiXactId :: "32 word" where
  "InvalidMultiXactId = 0"

text \<open>The state the reconciliation at the end of a page's processing reads and writes: the
  page-level \<^verbatim>\<open>PD_ALL_VISIBLE\<close> flag, the buffer's dirty mark, the page's status byte in
  the visibility map, the warnings logged, and the cutoff and flags of every
  \<^verbatim>\<open>visibilitymap_set\<close> call.\<close>

record page_vm =
  pd_all_visible :: bool
  buffer_dirty :: bool
  vm_status :: "8 word"
  warnings :: "string list"
  vm_set_calls :: "(TransactionId \<times> 8 word) list"

text \<open>Modelled from the spec: the page store and the visibility map are external
  interfaces (\<^verbatim>\<open>bufpage.h\<close>, \<^verbatim>\<open>visibilitymap.c\<close>, not under \<^verbatim>\<open>src/\<close>); the spec gives them
  as get/set of the page-level all-visible flag, mark dirty, and get/set/clear of the
  per-page map bits.\<close>

definition PageIsAllVisible :: "page_vm \<Rightarrow> bool" where
  "PageIsAllVisible s = pd_all_visible s"

definition PageSetAllVisible :: "page_vm \<Rightarrow> page_vm" where
  "PageSetAllVisible s = s\<lparr>pd_all_visible := True\<rparr>"

definition PageClearAllVisible :: "page_vm \<Rightarrow> page_vm" where
  "PageClearAllVisible s = s\<lparr>pd_all_visible := False\<rparr>"

definition MarkBufferDirty :: "page_vm \<Rightarrow> page_vm" where
  "MarkBufferDirty s = s\<lparr>buffer_dirty := True\<rparr>"

definition VM_ALL_VISIBLE :: "page_vm \<Rightarrow> bool" where
  "VM_ALL_VISIBLE s \<longleftrightarrow> vm_status s AND VISIBILITYMAP_ALL_VISIBLE \<noteq> 0"

definition VM_ALL_FROZEN :: "page_vm \<Rightarrow> bool" where
  "VM_ALL_FROZEN s \<longleftrightarrow> vm_status s AND VISIBILITYMAP_ALL_FROZEN \<noteq> 0"

definition visibilitymap_set :: "TransactionId \<Rightarrow> 8 word \<Rightarrow> page_vm \<Rightarrow> page_vm" where
  "visibilitymap_set cutoff_xid flags s =
     s\<lparr>vm_status := vm_status s OR flags, vm_set_calls := vm_set_calls s @ [(cutoff_xid, flags)]\<rparr>"

definition visibilitymap_clear :: "8 word \<Rightarrow> page_vm \<Rightarrow> page_vm" where
  "visibilitymap_clear flags s = s\<lparr>vm_status := vm_status s AND NOT flags\<rparr>"

definition elog_WARNING :: "string \<Rightarrow> page_vm \<Rightarrow> page_vm" where
  "elog_WARNING msg s = s\<lparr>warnings := warnings s @ [msg]\<rparr>"

text \<open>\<^verbatim>\<open>lazy_scan_heap\<close>, the chain ``mark page all-visible, if appropriate'' that ends the
  processing of a page, with the locals \<^verbatim>\<open>all_visible\<close>, \<^verbatim>\<open>all_frozen\<close>,
  \<^verbatim>\<open>all_visible_according_to_vm\<close>, \<^verbatim>\<open>has_dead_tuples\<close> and \<^verbatim>\<open>visibility_cutoff_xid\<close> as
  arguments.\<close>

definition lazy_scan_heap_vm_update ::
  "bool \<Rightarrow> bool \<Rightarrow> bool \<Rightarrow> bool \<Rightarrow> TransactionId \<Rightarrow> page_vm \<Rightarrow> page_vm" where
  "lazy_scan_heap_vm_update all_visible all_frozen all_visible_according_to_vm has_dead_tuples
       visibility_cutoff_xid s =
     (if all_visible \<and> \<not> all_visible_according_to_vm
      then (let flags = VISIBILITYMAP_ALL_VISIBLE;
                flags = (if all_frozen then flags OR VISIBILITYMAP_ALL_FROZEN else flags)
            in visibilitymap_set visibility_cutoff_xid flags
                 (MarkBufferDirty (PageSetAllVisible s)))
      else if all_visible_according_to_vm \<and> \<not> PageIsAllVisible s \<and> VM_ALL_VISIBLE s
      then visibilitymap_clear VISIBILITYMAP_VALID_BITS
             (elog_WARNING ''page is not marked all-visible but visibility map bit is set'' s)
      else if PageIsAllVisible s \<and> has_dead_tuples
      then visibilitymap_clear VISIBILITYMAP_VALID_BITS
             (MarkBufferDirty (PageClearAllVisible
                (elog_WARNING ''page containing dead tuples is marked as all-visible'' s)))
      else if all_visible_according_to_vm \<and> all_visible \<and> all_frozen \<and> \<not> VM_ALL_FROZEN s
      then visibilitymap_set InvalidTransactionId VISIBILITYMAP_ALL_FROZEN s
      else s)"

section \<open>Final statistics of \<^verbatim>\<open>lazy_vacuum_rel\<close>\<close>

text \<open>The arguments \<^verbatim>\<open>lazy_vacuum_rel\<close> passes to \<^verbatim>\<open>vac_update_relstats\<close>.\<close>

record relstats_args =
  num_pages :: BlockNumber
  num_tuples :: real
  num_all_visible_pages :: BlockNumber
  hasindex :: bool
  frozenxid :: TransactionId
  minmulti :: "32 word"

text \<open>\<^verbatim>\<open>lazy_vacuum_rel\<close> from ``Update statistics in pg_class'' to the call of
  \<^verbatim>\<open>vac_update_relstats\<close>.  \<open>vm_count\<close> is what \<^verbatim>\<open>visibilitymap_count\<close> returns.\<close>

definition lazy_vacuum_rel_update ::
  "LVRelStats \<Rightarrow> BlockNumber \<Rightarrow> bool \<Rightarrow> TransactionId \<Rightarrow> 32 word \<Rightarrow> relstats_args" where
  "lazy_vacuum_rel_update vacrelstats vm_count scanned_all_unfrozen FreezeLimit MultiXactCutoff =
     (let new_rel_pages = rel_pages vacrelstats;
          new_rel_tuples = new_rel_tuples vacrelstats;
          (new_rel_pages, new_rel_tuples) =
             (if scanned_pages vacrelstats = 0 \<and> new_rel_pages > 0
              then (old_rel_pages vacrelstats, old_rel_tuples vacrelstats)
              else (new_rel_pages, new_rel_tuples));
          new_rel_allvisible = vm_count;
          new_rel_allvisible =
             (if new_rel_allvisible > new_rel_pages then new_rel_pages else new_rel_allvisible);
          new_frozen_xid = (if scanned_all_unfrozen then FreezeLimit else InvalidTransactionId);
          new_min_multi = (if scanned_all_unfrozen then MultiXactCutoff else InvalidMultiXactId)
      in \<lparr>num_pages = new_rel_pages, num_tuples = new_rel_tuples,
          num_all_visible_pages = new_rel_allvisible,
          hasindex = (nindexes vacrelstats \<noteq> 0),
          frozenxid = new_frozen_xid, minmulti = new_min_multi\<rparr>)"

text \<open>The four reconciliation rules as the specification words them, each one applying
  only when no earlier one does.  In rule 2 the map claims all-visible both as the scanner
  read it (\<^verbatim>\<open>all_visible_according_to_vm\<close>) and as re-read under the content lock.\<close>

definition vm_rule1 :: "bool \<Rightarrow> bool \<Rightarrow> bool" where
  "vm_rule1 all_visible according_to_vm \<longleftrightarrow> all_visible \<and> \<not> according_to_vm"

definition vm_rule2 :: "bool \<Rightarrow> bool \<Rightarrow> page_vm \<Rightarrow> bool" where
  "vm_rule2 all_visible according_to_vm s \<longleftrightarrow>
     \<not> vm_rule1 all_visible according_to_vm \<and>
     according_to_vm \<and> VM_ALL_VISIBLE s \<and> \<not> PageIsAllVisible s"

definition vm_rule3 :: "bool \<Rightarrow> bool \<Rightarrow> bool \<Rightarrow> page_vm \<Rightarrow> bool" where
  "vm_rule3 all_visible according_to_vm has_dead s \<longleftrightarrow>
     \<not> vm_rule1 all_visible according_to_vm \<and> \<not> vm_rule2 all_visible according_to_vm s \<and>
     PageIsAllVisible s \<and> has_dead"

definition vm_rule4 :: "bool \<Rightarrow> bool \<Rightarrow> bool \<Rightarrow> bool \<Rightarrow> page_vm \<Rightarrow> bool" where
  "vm_rule4 all_visible all_frozen according_to_vm has_dead s \<longleftrightarrow>
     \<not> vm_rule1 all_visible according_to_vm \<and> \<not> vm_rule2 all_visible according_to_vm s \<and>
     \<not> vm_rule3 all_visible according_to_vm has_dead s \<and>
     according_to_vm \<and> all_visible \<and> all_frozen \<and> \<not> VM_ALL_FROZEN s"

section \<open>Parallel vacuum: worker states and barriers\<close>

definition VACSTATE_STARTUP :: "8 word" where "VACSTATE_STARTUP = 0x01"
definition VACSTATE_SCANNING :: "8 word" where "VACSTATE_SCANNING = 0x02"
definition VACSTATE_VACUUM_PREPARED :: "8 word" where "VACSTATE_VACUUM_PREPARED = 0x04"
definition VACSTATE_VACUUMING :: "8 word" where "VACSTATE_VACUUMING = 0x08"
definition VACSTATE_VACUUM_FINISHED :: "8 word" where "VACSTATE_VACUUM_FINISHED = 0x10"
definition VACSTATE_COMPLETE :: "8 word" where "VACSTATE_COMPLETE = 0x20"

text \<open>The values \<^verbatim>\<open>VacWorker.state\<close> ever holds: the six the code stores, and 0, the
  zero-filled slot of a worker that has not started yet.\<close>

definition valid_vacstate :: "8 word \<Rightarrow> bool" where
  "valid_vacstate st \<longleftrightarrow>
     st \<in> {0, VACSTATE_STARTUP, VACSTATE_SCANNING, VACSTATE_VACUUM_PREPARED, VACSTATE_VACUUMING,
           VACSTATE_VACUUM_FINISHED, VACSTATE_COMPLETE}"

text \<open>\<^verbatim>\<open>lazy_set_my_vacstate\<close>.  \<^verbatim>\<open>MyVacWorker\<close> is \<^verbatim>\<open>&pstate->vacworkers[ParallelWorkerNumber]\<close>,
  and \<open>my\<close> is that index.  The result is the new parallel state and the round returned;
  a serial run (\<^verbatim>\<open>pstate == NULL\<close>) returns 0 at once.  The broadcast wakes sleepers and
  changes no data.\<close>

definition lazy_set_my_vacstate ::
  "LVParallelState option \<Rightarrow> nat \<Rightarrow> 8 word \<Rightarrow> bool \<Rightarrow> bool \<Rightarrow> LVParallelState option \<times> 32 word" where
  "lazy_set_my_vacstate ps my st nextloop broadcast =
     (case ps of
        None \<Rightarrow> (None, 0)
      | Some p \<Rightarrow>
          (let MyVacWorker = (vacworkers p ! my)\<lparr>state := st\<rparr>;
               rnd = round MyVacWorker;
               MyVacWorker = (if nextloop then MyVacWorker\<lparr>round := round MyVacWorker + 1\<rparr>
                              else MyVacWorker)
           in (Some (p\<lparr>vacworkers := (vacworkers p)[my := MyVacWorker]\<rparr>), rnd)))"

text \<open>The counting loop of \<^verbatim>\<open>lazy_check_vacstate_prepared\<close>, from index \<open>i\<close> on.\<close>

function check_prepared_loop ::
  "LVParallelState \<Rightarrow> 32 word \<Rightarrow> int \<Rightarrow> int \<Rightarrow> int \<Rightarrow> int \<times> int" where
  "check_prepared_loop ps rnd i n_count n_comp =
     (if i < nworkers ps
      then (let vacworker = vacworkers ps ! nat i;
                w_round = round vacworker;
                countable_state = VACSTATE_VACUUM_PREPARED OR VACSTATE_VACUUMING OR
                                  VACSTATE_VACUUM_FINISHED
            in if state vacworker AND countable_state \<noteq> 0 \<and> w_round = rnd
               then check_prepared_loop ps rnd (i + 1) (n_count + 1) n_comp
               else if state vacworker = VACSTATE_COMPLETE
               then check_prepared_loop ps rnd (i + 1) n_count (n_comp + 1)
               else check_prepared_loop ps rnd (i + 1) n_count n_comp)
      else (n_count, n_comp))"
  by pat_completeness auto
termination
  by (relation "measure (\<lambda>(ps, rnd, i, n_count, n_comp). nat (nworkers ps - i))") auto

declare check_prepared_loop.simps [simp del]

definition lazy_check_vacstate_prepared :: "LVParallelState \<Rightarrow> 32 word \<Rightarrow> bool" where
  "lazy_check_vacstate_prepared ps rnd =
     (case check_prepared_loop ps rnd 0 0 0 of
        (n_count, n_comp) \<Rightarrow> n_count + n_comp = nworkers ps)"

text \<open>The loop of \<^verbatim>\<open>lazy_count_vacstate_finished\<close>, from index \<open>i\<close> on.\<close>

function count_finished_loop ::
  "LVParallelState \<Rightarrow> 32 word \<Rightarrow> int \<Rightarrow> int \<Rightarrow> int \<Rightarrow> int \<times> int" where
  "count_finished_loop ps rnd i n_count n_comp =
     (if i < nworkers ps
      then (let vacworker = vacworkers ps ! nat i;
                w_round = round vacworker;
                countable_cur_state = VACSTATE_VACUUM_FINISHED;
                countable_next_state = VACSTATE_SCANNING OR VACSTATE_VACUUM_PREPARED
            in if (state vacworker AND countable_cur_state \<noteq> 0 \<and> w_round = rnd) \<or>
                  (state vacworker AND countable_next_state \<noteq> 0 \<and> w_round = rnd + 1)
               then count_finished_loop ps rnd (i + 1) (n_count + 1) n_comp
               else if state vacworker = VACSTATE_COMPLETE
               then count_finished_loop ps rnd (i + 1) n_count (n_comp + 1)
               else count_finished_loop ps rnd (i + 1) n_count n_comp)
      else (n_count, n_comp))"
  by pat_completeness auto
termination
  by (relation "measure (\<lambda>(ps, rnd, i, n_count, n_comp). nat (nworkers ps - i))") auto

declare count_finished_loop.simps [simp del]

text \<open>\<^verbatim>\<open>lazy_count_vacstate_finished\<close> returns \<^verbatim>\<open>n_count\<close> and stores \<^verbatim>\<open>n_comp\<close> through
  \<^verbatim>\<open>n_complete\<close>; the model returns the pair.\<close>

definition lazy_count_vacstate_finished :: "LVParallelState \<Rightarrow> 32 word \<Rightarrow> int \<times> int" where
  "lazy_count_vacstate_finished ps rnd = count_finished_loop ps rnd 0 0 0"

definition lazy_check_vacstate_finished :: "LVParallelState \<Rightarrow> 32 word \<Rightarrow> bool" where
  "lazy_check_vacstate_finished ps rnd =
     (case lazy_count_vacstate_finished ps rnd of
        (n_count, n_comp) \<Rightarrow> n_count + n_comp = nworkers ps)"

text \<open>The loop of \<^verbatim>\<open>lazy_clear_dead_tuple\<close> over all partitions, from index \<open>i\<close> on.\<close>

function clear_all_from :: "LVDeadTuple list \<Rightarrow> int \<Rightarrow> int \<Rightarrow> LVDeadTuple list" where
  "clear_all_from dts num i =
     (if i < num
      then clear_all_from (dts[nat i := (dts ! nat i)\<lparr>n_dt := 0\<rparr>]) num (i + 1)
      else dts)"
  by pat_completeness auto
termination
  by (relation "measure (\<lambda>(dts, num, i). nat (num - i))") auto

declare clear_all_from.simps [simp del]

definition lazy_clear_dead_tuple :: "LVRelStats \<Rightarrow> nat \<Rightarrow> LVRelStats" where
  "lazy_clear_dead_tuple vacrelstats my =
     (if pstate vacrelstats \<noteq> None \<and> nindexes vacrelstats \<noteq> 0
      then vacrelstats\<lparr>dead_tuples :=
             clear_all_from (dead_tuples vacrelstats) (nworkers (the (pstate vacrelstats))) 0\<rparr>
      else vacrelstats\<lparr>dead_tuples :=
             (dead_tuples vacrelstats)[my := (dead_tuples vacrelstats ! my)\<lparr>n_dt := 0\<rparr>]\<rparr>)"

subsection \<open>The Prepared barrier\<close>

text \<open>The quorum of the Prepared barrier as the specification states it: every worker is
  in one of the phases ReclaimPrepared, Reclaiming, ReclaimFinished at the given round, or
  is Complete.\<close>

definition prepared_quorum :: "LVParallelState \<Rightarrow> 32 word \<Rightarrow> bool" where
  "prepared_quorum ps rnd \<longleftrightarrow>
     (\<forall>w \<in> set (vacworkers ps).
        (state w \<in> {VACSTATE_VACUUM_PREPARED, VACSTATE_VACUUMING, VACSTATE_VACUUM_FINISHED}
           \<and> round w = rnd)
        \<or> state w = VACSTATE_COMPLETE)"

text \<open>The sleep loop of \<^verbatim>\<open>lazy_set_vacstate_and_wait_prepared\<close>.  Between two evaluations
  of the loop condition the other workers change the shared state; \<open>env\<close> lists those
  changes, one per evaluation.  The result is the shared state in which the condition was
  found true, or \<open>None\<close> when the worker is still asleep after all of \<open>env\<close>.\<close>

fun wait_prepared_loop ::
  "(LVParallelState \<Rightarrow> LVParallelState) list \<Rightarrow> LVParallelState \<Rightarrow> 32 word \<Rightarrow> LVParallelState option" where
  "wait_prepared_loop [] ps rnd = None"
| "wait_prepared_loop (f # env) ps rnd =
     (if \<not> lazy_check_vacstate_prepared (f ps) rnd
      then wait_prepared_loop env (f ps) rnd
      else Some (f ps))"

datatype 'a barrier_result = Asleep | Returned 'a

definition lazy_set_vacstate_and_wait_prepared ::
  "LVParallelState option \<Rightarrow> nat \<Rightarrow> (LVParallelState \<Rightarrow> LVParallelState) list \<Rightarrow>
   LVParallelState option barrier_result" where
  "lazy_set_vacstate_and_wait_prepared ps my env =
     (case ps of
        None \<Rightarrow> Returned None
      | Some p \<Rightarrow>
          (case lazy_set_my_vacstate (Some p) my VACSTATE_VACUUM_PREPARED False True of
             (ps1, rnd) \<Rightarrow>
               (case wait_prepared_loop env (the ps1) rnd of
                  None \<Rightarrow> Asleep
                | Some q \<Rightarrow>
                    Returned (fst (lazy_set_my_vacstate (Some q) my VACSTATE_VACUUMING False False)))))"

text \<open>The shared state at the \<open>k\<close>-th evaluation of the loop condition (counting from 0).\<close>

definition seen_at :: "(LVParallelState \<Rightarrow> LVParallelState) list \<Rightarrow> LVParallelState \<Rightarrow> nat \<Rightarrow> LVParallelState" where
  "seen_at env ps k = fold (\<lambda>f s. f s) (take (Suc k) env) ps"

text \<open>The parallel state is well formed when \<^verbatim>\<open>vacworkers\<close> has \<^verbatim>\<open>nworkers\<close> elements.\<close>

definition pstate_wf :: "LVParallelState \<Rightarrow> bool" where
  "pstate_wf ps \<longleftrightarrow> 0 \<le> nworkers ps \<and> length (vacworkers ps) = nat (nworkers ps)"

definition pstate_ok :: "LVParallelState \<Rightarrow> bool" where
  "pstate_ok ps \<longleftrightarrow> pstate_wf ps \<and> (\<forall>w \<in> set (vacworkers ps). valid_vacstate (state w))"

text \<open>The shared state once worker \<open>my\<close> has stored the given state in its own slot.\<close>

definition with_my_state :: "LVParallelState \<Rightarrow> nat \<Rightarrow> 8 word \<Rightarrow> LVParallelState" where
  "with_my_state ps my st = ps\<lparr>vacworkers := (vacworkers ps)[my := (vacworkers ps ! my)\<lparr>state := st\<rparr>]\<rparr>"

section \<open>Heap pages\<close>

text \<open>Modelled from the spec: the page format (\<^verbatim>\<open>bufpage.h\<close>, \<^verbatim>\<open>itemid.h\<close>) and the
  visibility primitive \<^verbatim>\<open>HeapTupleSatisfiesVacuum\<close> are external to \<^verbatim>\<open>src/\<close>.  A page is
  either new (all zeroes) or initialised with line pointers at offsets 1 to
  \<^verbatim>\<open>PageGetMaxOffsetNumber\<close>; a line pointer is unused, a redirect, dead, or normal, and a
  normal one carries the verdict of the visibility oracle and whether the tuple is
  HOT-updated or heap-only.\<close>

datatype HTSV_Result = HEAPTUPLE_DEAD | HEAPTUPLE_LIVE | HEAPTUPLE_RECENTLY_DEAD
  | HEAPTUPLE_INSERT_IN_PROGRESS | HEAPTUPLE_DELETE_IN_PROGRESS

datatype ItemId = LP_UNUSED | LP_REDIRECT | LP_DEAD | LP_NORMAL HTSV_Result bool

datatype heap_page = NewPage | InitPage "ItemId list"

definition PageIsNew :: "heap_page \<Rightarrow> bool" where
  "PageIsNew page \<longleftrightarrow> page = NewPage"

definition PageIsEmpty :: "heap_page \<Rightarrow> bool" where
  "PageIsEmpty page \<longleftrightarrow> page = InitPage []"

definition page_items :: "heap_page \<Rightarrow> ItemId list" where
  "page_items page = (case page of NewPage \<Rightarrow> [] | InitPage items \<Rightarrow> items)"

definition ItemIdIsUsed :: "ItemId \<Rightarrow> bool" where
  "ItemIdIsUsed itemid \<longleftrightarrow> itemid \<noteq> LP_UNUSED"

section \<open>Truncation\<close>

definition REL_TRUNCATE_MINIMUM :: BlockNumber where "REL_TRUNCATE_MINIMUM = 1000"
definition REL_TRUNCATE_FRACTION :: BlockNumber where "REL_TRUNCATE_FRACTION = 16"
definition VACUUM_TRUNCATE_LOCK_WAIT_INTERVAL :: int where "VACUUM_TRUNCATE_LOCK_WAIT_INTERVAL = 50"
definition VACUUM_TRUNCATE_LOCK_TIMEOUT :: int where "VACUUM_TRUNCATE_LOCK_TIMEOUT = 5000"

text \<open>\<^verbatim>\<open>should_attempt_truncation\<close>; \<^verbatim>\<open>old_snapshot_threshold\<close> is a global setting, passed
  as an argument.  The subtraction is the unsigned one of \<^verbatim>\<open>BlockNumber\<close>.\<close>

definition should_attempt_truncation :: "int \<Rightarrow> LVRelStats \<Rightarrow> bool" where
  "should_attempt_truncation old_snapshot_threshold vacrelstats =
     (let possibly_freeable = rel_pages vacrelstats - nonempty_pages vacrelstats
      in if possibly_freeable > 0 \<and>
            (possibly_freeable \<ge> REL_TRUNCATE_MINIMUM \<or>
             possibly_freeable \<ge> rel_pages vacrelstats div REL_TRUNCATE_FRACTION) \<and>
            old_snapshot_threshold < 0
         then True else False)"

text \<open>The scan along a page of \<^verbatim>\<open>count_nondeletable_pages\<close>: is any line pointer used?\<close>

fun page_hastup :: "ItemId list \<Rightarrow> bool" where
  "page_hastup [] = False"
| "page_hastup (itemid # rest) = (if ItemIdIsUsed itemid then True else page_hastup rest)"

text \<open>The backward loop of \<^verbatim>\<open>count_nondeletable_pages\<close>.  \<open>heap\<close> is the relation as it is
  under the exclusive lock.  \<open>waiter blkno\<close> says whether, at the check made for \<open>blkno\<close>
  (a multiple of 32), the check interval had elapsed and
  \<^verbatim>\<open>LockHasWaitersRelation\<close> answered true.\<close>

function cnp_loop ::
  "(BlockNumber \<Rightarrow> bool) \<Rightarrow> heap_page list \<Rightarrow> LVRelStats \<Rightarrow> BlockNumber \<Rightarrow> BlockNumber \<times> LVRelStats" where
  "cnp_loop waiter heap vacrelstats blkno =
     (if blkno > nonempty_pages vacrelstats
      then if blkno mod 32 = 0 \<and> waiter blkno
           then (blkno, vacrelstats\<lparr>lock_waiter_detected := True\<rparr>)
           else if PageIsNew (heap ! unat (blkno - 1)) \<or> PageIsEmpty (heap ! unat (blkno - 1))
           then cnp_loop waiter heap vacrelstats (blkno - 1)
           else if page_hastup (page_items (heap ! unat (blkno - 1)))
           then ((blkno - 1) + 1, vacrelstats)
           else cnp_loop waiter heap vacrelstats (blkno - 1)
      else (nonempty_pages vacrelstats, vacrelstats))"
  by pat_completeness auto
termination
proof (relation "measure (\<lambda>(waiter, heap, vacrelstats, blkno). unat blkno)")
  show "wf (measure (\<lambda>(waiter, heap, vacrelstats, blkno). unat blkno))"
    by simp
next
  fix waiter :: "BlockNumber \<Rightarrow> bool" and heap :: "heap_page list"
    and vacrelstats :: LVRelStats and blkno :: BlockNumber
  assume "nonempty_pages vacrelstats < blkno"
  then have "blkno \<noteq> 0" by auto
  then have "unat (blkno - 1) < unat blkno"
    by (simp add: unat_minus_one unat_gt_0)
  then show "((waiter, heap, vacrelstats, blkno - 1), waiter, heap, vacrelstats, blkno)
        \<in> measure (\<lambda>(waiter, heap, vacrelstats, blkno). unat blkno)"
    by simp
  then show "((waiter, heap, vacrelstats, blkno - 1), waiter, heap, vacrelstats, blkno)
        \<in> measure (\<lambda>(waiter, heap, vacrelstats, blkno). unat blkno)"
    by simp
qed

declare cnp_loop.simps [simp del]

definition count_nondeletable_pages ::
  "(BlockNumber \<Rightarrow> bool) \<Rightarrow> heap_page list \<Rightarrow> LVRelStats \<Rightarrow> BlockNumber \<times> LVRelStats" where
  "count_nondeletable_pages waiter heap vacrelstats =
     cnp_loop waiter heap vacrelstats (rel_pages vacrelstats)"

text \<open>What \<^verbatim>\<open>lazy_truncate_heap\<close> meets outside itself, per iteration of its outer loop:
  the answers of \<^verbatim>\<open>ConditionalLockRelation\<close> by attempt, the size
  \<^verbatim>\<open>RelationGetNumberOfBlocks\<close> reports once the lock is held, the relation's pages under
  the lock, and the lock-waiter checks.\<close>

record truncate_env =
  lock_granted :: "nat \<Rightarrow> nat \<Rightarrow> bool"
  nblocks_now :: "nat \<Rightarrow> BlockNumber"
  heap_at :: "nat \<Rightarrow> heap_page list"
  waiter_at :: "nat \<Rightarrow> BlockNumber \<Rightarrow> bool"

text \<open>The inner \<^verbatim>\<open>while (true)\<close> of \<^verbatim>\<open>lazy_truncate_heap\<close>: true when the lock was
  obtained, false when the retries ran out.\<close>

function lock_loop :: "(nat \<Rightarrow> bool) \<Rightarrow> int \<Rightarrow> bool" where
  "lock_loop granted lock_retry =
     (if granted (nat lock_retry) then True
      else if lock_retry + 1 > VACUUM_TRUNCATE_LOCK_TIMEOUT div VACUUM_TRUNCATE_LOCK_WAIT_INTERVAL
      then False
      else lock_loop granted (lock_retry + 1))"
  by pat_completeness auto
termination
  by (relation "measure (\<lambda>(granted, lock_retry).
        nat (VACUUM_TRUNCATE_LOCK_TIMEOUT div VACUUM_TRUNCATE_LOCK_WAIT_INTERVAL - lock_retry))")
     auto

declare lock_loop.simps [simp del]

text \<open>One \<^verbatim>\<open>RelationTruncate\<close> call: the iteration, the size before and the size asked
  for.\<close>

type_synonym truncate_call = "nat \<times> BlockNumber \<times> BlockNumber"

text \<open>The \<^verbatim>\<open>do \<dots> while\<close> of \<^verbatim>\<open>lazy_truncate_heap\<close>, at iteration \<open>k\<close> with the local
  \<^verbatim>\<open>old_rel_pages\<close>; the result is the statistics and the \<^verbatim>\<open>RelationTruncate\<close> calls
  made.\<close>

function truncate_loop ::
  "truncate_env \<Rightarrow> nat \<Rightarrow> BlockNumber \<Rightarrow> LVRelStats \<Rightarrow> truncate_call list \<Rightarrow>
   LVRelStats \<times> truncate_call list" where
  "truncate_loop env k old_rel_pages' vacrelstats calls =
     (let vacrelstats = vacrelstats\<lparr>lock_waiter_detected := False\<rparr>
      in if \<not> lock_loop (lock_granted env k) 0
         then (vacrelstats\<lparr>lock_waiter_detected := True\<rparr>, calls)
         else if nblocks_now env k \<noteq> old_rel_pages'
         then (vacrelstats, calls)
         else (case count_nondeletable_pages (waiter_at env k) (heap_at env k) vacrelstats of
                 (new_rel_pages, vacrelstats) \<Rightarrow>
                   if new_rel_pages \<ge> old_rel_pages'
                   then (vacrelstats, calls)
                   else (let calls = calls @ [(k, old_rel_pages', new_rel_pages)];
                             vacrelstats = vacrelstats
                               \<lparr>pages_removed := pages_removed vacrelstats +
                                                  (old_rel_pages' - new_rel_pages),
                                rel_pages := new_rel_pages\<rparr>
                         in if new_rel_pages > nonempty_pages vacrelstats \<and>
                               lock_waiter_detected vacrelstats
                            then truncate_loop env (Suc k) new_rel_pages vacrelstats calls
                            else (vacrelstats, calls))))"
  by pat_completeness auto

termination
  by (relation "measure (\<lambda>(env, k, old_rel_pages', vacrelstats, calls). unat old_rel_pages')")
     (auto simp: word_less_nat_alt word_le_nat_alt)

declare truncate_loop.simps [simp del]

definition lazy_truncate_heap :: "truncate_env \<Rightarrow> LVRelStats \<Rightarrow> LVRelStats \<times> truncate_call list" where
  "lazy_truncate_heap env vacrelstats =
     (let old_rel_pages' = rel_pages vacrelstats
      in truncate_loop env 0 old_rel_pages' vacrelstats [])"

text \<open>A page on which the backward scan finds a tuple: initialised, not empty, with a
  used line pointer.\<close>

definition page_nonempty :: "heap_page \<Rightarrow> bool" where
  "page_nonempty page \<longleftrightarrow> (\<exists>itemid \<in> set (page_items page). ItemIdIsUsed itemid)"

text \<open>What the truncation-safety property asks of one \<^verbatim>\<open>RelationTruncate\<close> call, made at
  iteration \<open>k\<close> from \<open>old\<close> pages to \<open>new\<close> pages, in a run whose scan recorded
  \<open>nonempty\<close> as \<^verbatim>\<open>nonempty_pages\<close>: the relation had \<open>old\<close> pages under the lock, the new
  size is smaller and not below \<open>nonempty\<close>, it is what the backward verification scan
  returned, and no page from \<open>new\<close> up to \<open>old\<close> has a used line pointer.\<close>

definition truncate_call_ok :: "truncate_env \<Rightarrow> BlockNumber \<Rightarrow> truncate_call \<Rightarrow> bool" where
  "truncate_call_ok env nonempty call =
     (case call of (k, old, new) \<Rightarrow>
        nblocks_now env k = old \<and> new < old \<and> nonempty \<le> new \<and>
        (\<exists>vk. rel_pages vk = old \<and> nonempty_pages vk = nonempty \<and>
              new = fst (count_nondeletable_pages (waiter_at env k) (heap_at env k) vk)) \<and>
        (\<forall>c. new \<le> c \<and> c < old \<longrightarrow> \<not> page_nonempty (heap_at env k ! unat c)))"

section \<open>Choosing the next page: \<^verbatim>\<open>lazy_scan_heap_get_nextpage\<close>\<close>

definition SKIP_PAGES_THRESHOLD :: BlockNumber where
  "SKIP_PAGES_THRESHOLD = 32"

text \<open>Modelled from the spec: \<^verbatim>\<open>InvalidBlockNumber\<close> (\<^verbatim>\<open>storage/block.h\<close>) is the sentinel
  ``scan complete'', the largest \<^verbatim>\<open>BlockNumber\<close>; \<^verbatim>\<open>VACOPT_DISABLE_PAGE_SKIPPING\<close>
  (\<^verbatim>\<open>nodes/parsenodes.h\<close>) is the option bit ``disable page skipping''.  Neither header is
  under \<^verbatim>\<open>src/\<close>.\<close>

definition InvalidBlockNumber :: BlockNumber where
  "InvalidBlockNumber = 0xFFFFFFFF"

definition VACOPT_DISABLE_PAGE_SKIPPING :: "32 word" where
  "VACOPT_DISABLE_PAGE_SKIPPING = 0x80"

text \<open>The visibility map as the scanner reads it: the status byte of each block.\<close>

type_synonym vismap = "BlockNumber \<Rightarrow> 8 word"

definition visibilitymap_get_status :: "vismap \<Rightarrow> BlockNumber \<Rightarrow> 8 word" where
  "visibilitymap_get_status vm blkno = vm blkno"

definition VM_ALL_VISIBLE_blk :: "vismap \<Rightarrow> BlockNumber \<Rightarrow> bool" where
  "VM_ALL_VISIBLE_blk vm blkno \<longleftrightarrow>
     visibilitymap_get_status vm blkno AND VISIBILITYMAP_ALL_VISIBLE \<noteq> 0"

definition VM_ALL_FROZEN_blk :: "vismap \<Rightarrow> BlockNumber \<Rightarrow> bool" where
  "VM_ALL_FROZEN_blk vm blkno \<longleftrightarrow>
     visibilitymap_get_status vm blkno AND VISIBILITYMAP_ALL_FROZEN \<noteq> 0"

text \<open>Modelled from the spec: \<^verbatim>\<open>heap_parallelscan_nextpage\<close> (\<^verbatim>\<open>access/heapam.c\<close>) is not
  under \<^verbatim>\<open>src/\<close>.  In the spec each worker claims pages from a shared parallel cursor.
  Seen from one worker, the scan descriptor is the list of block numbers its successive
  calls will be handed; once the list is used up every call returns
  \<^verbatim>\<open>InvalidBlockNumber\<close>.\<close>

definition heap_parallelscan_nextpage :: "BlockNumber list \<Rightarrow> BlockNumber \<times> BlockNumber list" where
  "heap_parallelscan_nextpage hs =
     (case hs of [] \<Rightarrow> (InvalidBlockNumber, []) | b # rest \<Rightarrow> (b, rest))"

record LVScanDescData =
  lv_cblock :: BlockNumber
  lv_next_unskippable_block :: BlockNumber
  lv_nblocks :: BlockNumber
  heapscan :: "BlockNumber list option"

text \<open>The macro \<^verbatim>\<open>FORCE_CHECK_PAGE(blk)\<close> is
  \<^verbatim>\<open>(blkno == (blk - 1) && should_attempt_truncation(vacrelstats))\<close>: it reads the
  variable \<^verbatim>\<open>blkno\<close> of the function it is expanded in, and its argument \<^verbatim>\<open>blk\<close>.  The
  model takes both, the captured variable first.\<close>

definition FORCE_CHECK_PAGE :: "int \<Rightarrow> LVRelStats \<Rightarrow> BlockNumber \<Rightarrow> BlockNumber \<Rightarrow> bool" where
  "FORCE_CHECK_PAGE old_snapshot_threshold vacrelstats blkno blk \<longleftrightarrow>
     blkno = blk - 1 \<and> should_attempt_truncation old_snapshot_threshold vacrelstats"

text \<open>What one call leaves behind: the block number returned, the scan descriptor, the
  statistics, and \<^verbatim>\<open>*all_visible_according_to_vm\<close>.\<close>

type_synonym nextpage_result = "BlockNumber \<times> LVScanDescData \<times> LVRelStats \<times> bool"

text \<open>The parallel branch: the \<^verbatim>\<open>while\<close> loop over the pages claimed from the cursor.\<close>

function nextpage_parallel ::
  "int \<Rightarrow> vismap \<Rightarrow> 32 word \<Rightarrow> bool \<Rightarrow> BlockNumber list \<Rightarrow> LVRelStats \<Rightarrow> bool \<Rightarrow>
   BlockNumber \<times> BlockNumber list \<times> LVRelStats \<times> bool" where
  "nextpage_parallel ost vm options aggressive hs vacrelstats avm =
     (case heap_parallelscan_nextpage hs of
        (blkno, hs') \<Rightarrow>
          if blkno \<noteq> InvalidBlockNumber
          then (if options AND VACOPT_DISABLE_PAGE_SKIPPING = 0 \<and>
                   \<not> FORCE_CHECK_PAGE ost vacrelstats blkno blkno
                then (let vmstatus = visibilitymap_get_status vm blkno
                      in if aggressive
                         then (if vmstatus AND VISIBILITYMAP_ALL_FROZEN \<noteq> 0
                               then nextpage_parallel ost vm options aggressive hs'
                                      (vacrelstats\<lparr>frozenskipped_pages :=
                                                      frozenskipped_pages vacrelstats + 1\<rparr>) False
                               else if vmstatus AND VISIBILITYMAP_ALL_VISIBLE \<noteq> 0
                               then (blkno, hs', vacrelstats, True)
                               else (blkno, hs', vacrelstats, False))
                         else (if vmstatus AND VISIBILITYMAP_ALL_VISIBLE \<noteq> 0
                               then nextpage_parallel ost vm options aggressive hs'
                                      (if vmstatus AND VISIBILITYMAP_ALL_FROZEN = 0
                                       then vacrelstats\<lparr>frozenskipped_pages :=
                                                            frozenskipped_pages vacrelstats + 1\<rparr>
                                       else vacrelstats) False
                               else (blkno, hs', vacrelstats, False)))
                else (blkno, hs', vacrelstats, False))
          else (blkno, hs', vacrelstats, avm))"
  by pat_completeness auto
termination
  by (relation "measure (\<lambda>(ost, vm, options, aggressive, hs, vacrelstats, avm). length hs)")
     (auto simp: heap_parallelscan_nextpage_def split: list.splits)

declare nextpage_parallel.simps [simp del]

text \<open>The loop that advances \<^verbatim>\<open>lv_next_unskippable_block\<close> over skippable blocks; it occurs
  twice in the serial branch.\<close>

function advance_unskippable :: "vismap \<Rightarrow> bool \<Rightarrow> BlockNumber \<Rightarrow> BlockNumber \<Rightarrow> BlockNumber" where
  "advance_unskippable vm aggressive nblocks next_unskippable =
     (if next_unskippable < nblocks
      then (let vmstatus = visibilitymap_get_status vm next_unskippable
            in if (if aggressive then vmstatus AND VISIBILITYMAP_ALL_FROZEN = 0
                   else vmstatus AND VISIBILITYMAP_ALL_VISIBLE = 0)
               then next_unskippable
               else advance_unskippable vm aggressive nblocks (next_unskippable + 1))
      else next_unskippable)"
  by pat_completeness auto
termination
proof (relation "measure (\<lambda>(vm, aggressive, nblocks, next_unskippable).
                    unat nblocks - unat next_unskippable)")
  show "wf (measure (\<lambda>(vm, aggressive, nblocks, next_unskippable).
                    unat nblocks - unat next_unskippable))"
    by simp
next
  fix vm :: vismap and aggressive :: bool and nblocks next_unskippable :: BlockNumber
  assume lt: "next_unskippable < nblocks"
  then have "unat next_unskippable < unat nblocks"
    by (simp add: word_less_nat_alt)
  moreover have "unat nblocks < 2 ^ 32"
    using unsigned_less [of nblocks, where 'a = nat] by simp
  ultimately have "unat (next_unskippable + 1) = unat next_unskippable + 1"
    by (simp add: unat_word_ariths)
  with \<open>unat next_unskippable < unat nblocks\<close>
  show "((vm, aggressive, nblocks, next_unskippable + 1), vm, aggressive, nblocks, next_unskippable)
        \<in> measure (\<lambda>(vm, aggressive, nblocks, next_unskippable).
                    unat nblocks - unat next_unskippable)"
    by simp
qed

declare advance_unskippable.simps [simp del]

text \<open>The \<^verbatim>\<open>for\<close> loop of the serial branch, at \<open>blkno\<close>.  The local \<^verbatim>\<open>skipping_blocks\<close> is
  an argument; the value the first branch assigns to it is never read again, since that
  branch leaves the loop.\<close>

function nextpage_serial_for ::
  "int \<Rightarrow> vismap \<Rightarrow> 32 word \<Rightarrow> bool \<Rightarrow> bool \<Rightarrow> BlockNumber \<Rightarrow> LVScanDescData \<Rightarrow> LVRelStats \<Rightarrow> bool \<Rightarrow>
   nextpage_result" where
  "nextpage_serial_for ost vm options aggressive skipping_blocks blkno lvscan vacrelstats avm =
     (if blkno < lv_nblocks lvscan
      then (if blkno = lv_next_unskippable_block lvscan
            then (let next1 = lv_next_unskippable_block lvscan + 1;
                      next2 = (if options AND VACOPT_DISABLE_PAGE_SKIPPING = 0
                               then advance_unskippable vm aggressive (lv_nblocks lvscan) next1
                               else next1);
                      lvscan = lvscan\<lparr>lv_next_unskippable_block := next2\<rparr>;
                      avm = (if aggressive \<and> VM_ALL_VISIBLE_blk vm blkno then True else avm)
                  in (blkno, lvscan, vacrelstats, avm))
            else (if skipping_blocks \<and> \<not> FORCE_CHECK_PAGE ost vacrelstats blkno blkno
                  then nextpage_serial_for ost vm options aggressive skipping_blocks (blkno + 1)
                         lvscan
                         (if aggressive \<or> VM_ALL_FROZEN_blk vm blkno
                          then vacrelstats\<lparr>frozenskipped_pages :=
                                               frozenskipped_pages vacrelstats + 1\<rparr>
                          else vacrelstats)
                         avm
                  else (blkno, lvscan, vacrelstats, True)))
      else (blkno, lvscan, vacrelstats, avm))"
  by pat_completeness auto
termination
proof (relation "measure (\<lambda>(ost, vm, options, aggressive, skipping_blocks, blkno, lvscan,
                            vacrelstats, avm). unat (lv_nblocks lvscan) - unat blkno)")
  show "wf (measure (\<lambda>(ost, vm, options, aggressive, skipping_blocks, blkno, lvscan,
                            vacrelstats, avm). unat (lv_nblocks lvscan) - unat blkno))"
    by simp
next
  fix ost :: int and vm :: vismap and options :: "32 word" and aggressive skipping_blocks :: bool
    and blkno :: BlockNumber and lvscan :: LVScanDescData and vacrelstats :: LVRelStats
    and avm :: bool
  assume lt: "blkno < lv_nblocks lvscan"
  then have "unat blkno < unat (lv_nblocks lvscan)"
    by (simp add: word_less_nat_alt)
  moreover have "unat (lv_nblocks lvscan) < 2 ^ 32"
    using unsigned_less [of "lv_nblocks lvscan", where 'a = nat] by simp
  ultimately have "unat (blkno + 1) = unat blkno + 1"
    by (simp add: unat_word_ariths)
  with \<open>unat blkno < unat (lv_nblocks lvscan)\<close>
  show "((ost, vm, options, aggressive, skipping_blocks, blkno + 1, lvscan,
          if aggressive \<or> VM_ALL_FROZEN_blk vm blkno
          then vacrelstats\<lparr>frozenskipped_pages := frozenskipped_pages vacrelstats + 1\<rparr>
          else vacrelstats, avm),
         ost, vm, options, aggressive, skipping_blocks, blkno, lvscan, vacrelstats, avm)
        \<in> measure (\<lambda>(ost, vm, options, aggressive, skipping_blocks, blkno, lvscan,
                            vacrelstats, avm). unat (lv_nblocks lvscan) - unat blkno)"
    by simp
qed

declare nextpage_serial_for.simps [simp del]

definition lazy_scan_heap_get_nextpage ::
  "int \<Rightarrow> vismap \<Rightarrow> LVRelStats \<Rightarrow> LVScanDescData \<Rightarrow> bool \<Rightarrow> 32 word \<Rightarrow> bool \<Rightarrow> nextpage_result" where
  "lazy_scan_heap_get_nextpage ost vm vacrelstats lvscan avm options aggressive =
     (case (if pstate vacrelstats \<noteq> None
            then (case nextpage_parallel ost vm options aggressive (the (heapscan lvscan))
                         vacrelstats avm of
                    (blkno, hs', vacrelstats, avm) \<Rightarrow>
                      (blkno, lvscan\<lparr>heapscan := Some hs'\<rparr>, vacrelstats, avm))
            else (let skipping_blocks = False;
                      (lvscan, skipping_blocks) =
                        (if lv_cblock lvscan = 0 \<and> options AND VACOPT_DISABLE_PAGE_SKIPPING = 0
                         then (let next = advance_unskippable vm aggressive (lv_nblocks lvscan)
                                            (lv_next_unskippable_block lvscan)
                               in (lvscan\<lparr>lv_next_unskippable_block := next\<rparr>,
                                   if next \<ge> SKIP_PAGES_THRESHOLD then True else False))
                         else (lvscan, skipping_blocks))
                  in (case nextpage_serial_for ost vm options aggressive skipping_blocks
                             (lv_cblock lvscan) lvscan vacrelstats avm of
                        (blkno, lvscan, vacrelstats, avm) \<Rightarrow>
                          (blkno, lvscan\<lparr>lv_cblock := blkno + 1\<rparr>, vacrelstats, avm))))
      of (blkno, lvscan, vacrelstats, avm) \<Rightarrow>
           (if blkno = lv_nblocks lvscan then InvalidBlockNumber else blkno,
            lvscan, vacrelstats, avm))"

text \<open>\<^verbatim>\<open>lv_beginscan\<close>.\<close>

definition lv_beginscan :: "LVRelStats \<Rightarrow> BlockNumber list option \<Rightarrow> LVScanDescData" where
  "lv_beginscan vacrelstats pscan =
     \<lparr>lv_cblock = 0, lv_next_unskippable_block = 0, lv_nblocks = rel_pages vacrelstats,
      heapscan = pscan\<rparr>"

subsection \<open>The Finished barrier\<close>

text \<open>The quorum of the Finished barrier as the specification states it: every worker is
  ReclaimFinished at the given round, or Scanning or ReclaimPrepared at the next round, or
  Complete.\<close>

definition finished_quorum :: "LVParallelState \<Rightarrow> 32 word \<Rightarrow> bool" where
  "finished_quorum ps rnd \<longleftrightarrow>
     (\<forall>w \<in> set (vacworkers ps).
        (state w = VACSTATE_VACUUM_FINISHED \<and> round w = rnd)
        \<or> (state w \<in> {VACSTATE_SCANNING, VACSTATE_VACUUM_PREPARED} \<and> round w = rnd + 1)
        \<or> state w = VACSTATE_COMPLETE)"

text \<open>The critical section of \<^verbatim>\<open>lazy_set_vacstate_and_wait_finished\<close>, from
  \<^verbatim>\<open>SpinLockAcquire\<close> to \<^verbatim>\<open>SpinLockRelease\<close>: it stores \<^verbatim>\<open>VACSTATE_VACUUM_FINISHED\<close>,
  counts, and clears the dead tuples when the counts add up to \<^verbatim>\<open>nworkers\<close>.  The result is
  the statistics block (with the shared parallel state and partitions it points to) and
  the round read.\<close>

definition finished_arrive :: "LVRelStats \<Rightarrow> nat \<Rightarrow> LVRelStats \<times> 32 word" where
  "finished_arrive vacrelstats my =
     (let ps = the (pstate vacrelstats);
          rnd = round (vacworkers ps ! my);
          ps = with_my_state ps my VACSTATE_VACUUM_FINISHED;
          vacrelstats = vacrelstats\<lparr>pstate := Some ps\<rparr>
      in case lazy_count_vacstate_finished ps rnd of
           (n_count, n_comp) \<Rightarrow>
             (if n_count + n_comp = nworkers ps
              then lazy_clear_dead_tuple vacrelstats my
              else vacrelstats, rnd))"

section \<open>The parallel run as interleaved worker steps\<close>

text \<open>
  A parallel run is an interleaving of the workers' steps on the shared memory: the
  \<^verbatim>\<open>LVParallelState\<close> and the dead-tuple partitions.  One step is one access to shared
  memory as the code groups them: a spinlock critical section, or a single unlocked write
  (\<^verbatim>\<open>MyVacWorker->state = VACSTATE_STARTUP\<close>, \<^verbatim>\<open>(MyVacWorker->round)++\<close>,
  \<^verbatim>\<open>MyDeadTuple->n_dt = 0\<close>, one \<^verbatim>\<open>lazy_record_dead_tuple\<close>).  A worker's control point
  follows \<^verbatim>\<open>lazy_vacuum_worker\<close> and \<^verbatim>\<open>lazy_scan_heap\<close>; the flag carried through a reclaim
  cycle tells the cycle after the scan loop from one inside it.
\<close>

datatype wpc =
    NotStarted
  | Started
  | Alloc
  | Scan
  | HavePage
  | PrepWait bool
  | PassedPrep bool
  | Vacuum bool
  | FinWait bool
  | PassedFin bool
  | Incr bool
  | ToComplete
  | Complete

text \<open>What the rest of the system decides for a worker's step: whether
  \<^verbatim>\<open>lazy_scan_heap_get_nextpage\<close> returned a page, and which TIDs the page being processed
  offers to \<^verbatim>\<open>lazy_record_dead_tuple\<close>.\<close>

datatype choice = GotPage | ScanDone | Tuples "ItemPointerData list" | PageDone | NoChoice

text \<open>Modelled from the spec: \<^verbatim>\<open>MaxHeapTuplesPerPage\<close> (\<^verbatim>\<open>access/htup_details.h\<close>, not
  under \<^verbatim>\<open>src/\<close>), the most tuples a page can hold; 291 for the default 8192-byte block.\<close>

definition MaxHeapTuplesPerPage :: int where
  "MaxHeapTuplesPerPage = 291"

record pglobal =
  g_pstate :: LVParallelState
  g_dead :: "LVDeadTuple list"
  g_nindexes :: int
  g_max_dead_tuples :: int
  g_pc :: "nat \<Rightarrow> wpc"
  g_round :: "nat \<Rightarrow> 32 word"
  g_cycles :: "nat \<Rightarrow> nat"
  g_clears :: "(nat \<times> nat) list"

text \<open>\<open>g_round\<close> is each worker's local variable \<^verbatim>\<open>round\<close> of the two barrier functions.
  \<open>g_cycles\<close> and \<open>g_clears\<close> are history variables, read by no step: the number of
  \<^verbatim>\<open>round++\<close> a worker has executed, and the clearings of the partitions so far, each with
  the worker that did it and that worker's cycle number.\<close>

text \<open>A worker's \<^verbatim>\<open>vacrelstats\<close>: its own counters (not modelled, zero) with the pointers to
  the shared partitions and parallel state.\<close>

definition worker_stats :: "pglobal \<Rightarrow> LVRelStats" where
  "worker_stats s =
     (zero_stats (g_max_dead_tuples s) (g_dead s) (Some (g_pstate s)))\<lparr>nindexes := g_nindexes s\<rparr>"

definition set_pc :: "pglobal \<Rightarrow> nat \<Rightarrow> wpc \<Rightarrow> pglobal" where
  "set_pc s w pc = s\<lparr>g_pc := (g_pc s)(w := pc)\<rparr>"

text \<open>\<^verbatim>\<open>lazy_set_my_vacstate(pstate, state, false, _)\<close> by worker \<open>w\<close>.\<close>

definition set_vacstate :: "pglobal \<Rightarrow> nat \<Rightarrow> 8 word \<Rightarrow> pglobal" where
  "set_vacstate s w st =
     s\<lparr>g_pstate := the (fst (lazy_set_my_vacstate (Some (g_pstate s)) w st False False))\<rparr>"

text \<open>Entering the Prepared barrier: \<^verbatim>\<open>round = lazy_set_my_vacstate(pstate,
  VACSTATE_VACUUM_PREPARED, false, true)\<close>.\<close>

definition enter_prepared :: "pglobal \<Rightarrow> nat \<Rightarrow> bool \<Rightarrow> pglobal" where
  "enter_prepared s w final =
     (case lazy_set_my_vacstate (Some (g_pstate s)) w VACSTATE_VACUUM_PREPARED False True of
        (ps, rnd) \<Rightarrow>
          s\<lparr>g_pstate := the ps, g_round := (g_round s)(w := rnd),
            g_pc := (g_pc s)(w := PrepWait final)\<rparr>)"

text \<open>Arriving at the Finished barrier: the critical section, with the clearing logged.\<close>

definition enter_finished :: "pglobal \<Rightarrow> nat \<Rightarrow> bool \<Rightarrow> pglobal" where
  "enter_finished s w final =
     (case finished_arrive (worker_stats s) w of
        (vacrelstats, rnd) \<Rightarrow>
          s\<lparr>g_pstate := the (pstate vacrelstats), g_dead := dead_tuples vacrelstats,
            g_round := (g_round s)(w := rnd),
            g_pc := (g_pc s)(w := FinWait final),
            g_clears := (if lazy_check_vacstate_finished
                              (with_my_state (g_pstate s) w VACSTATE_VACUUM_FINISHED)
                              (round (vacworkers (g_pstate s) ! w))
                         then g_clears s @ [(w, g_cycles s w)] else g_clears s)\<rparr>)"

text \<open>\<^verbatim>\<open>(MyVacWorker->round)++\<close>, the unlocked second half of
  \<^verbatim>\<open>lazy_set_my_vacstate(pstate, VACSTATE_SCANNING, true, false)\<close>.\<close>

definition incr_round :: "pglobal \<Rightarrow> nat \<Rightarrow> pglobal" where
  "incr_round s w =
     s\<lparr>g_pstate := (g_pstate s)\<lparr>vacworkers := (vacworkers (g_pstate s))
           [w := (vacworkers (g_pstate s) ! w)\<lparr>round := round (vacworkers (g_pstate s) ! w) + 1\<rparr>]\<rparr>,
       g_cycles := (g_cycles s)(w := Suc (g_cycles s w))\<rparr>"

text \<open>The test of \<^verbatim>\<open>lazy_scan_heap\<close> before it tackles a page: is the worker's partition
  close to full?\<close>

definition nearly_full :: "pglobal \<Rightarrow> nat \<Rightarrow> bool" where
  "nearly_full s w \<longleftrightarrow>
     g_max_dead_tuples s - n_dt (g_dead s ! w) < MaxHeapTuplesPerPage \<and> n_dt (g_dead s ! w) > 0"

text \<open>One step of worker \<open>w\<close>; \<open>None\<close> when the worker cannot move (it sleeps at a barrier
  whose condition is false, it has finished, or the choice offered does not fit).\<close>

definition worker_step :: "pglobal \<Rightarrow> nat \<Rightarrow> choice \<Rightarrow> pglobal option" where
  "worker_step s w ch =
     (if \<not> int w < nworkers (g_pstate s) then None
      else case g_pc s w of
        NotStarted \<Rightarrow>
          Some (set_pc (s\<lparr>g_pstate := with_my_state (g_pstate s) w VACSTATE_STARTUP\<rparr>) w Started)
      | Started \<Rightarrow>
          Some (set_pc (s\<lparr>g_dead := (g_dead s)[w := (g_dead s ! w)\<lparr>n_dt := 0\<rparr>]\<rparr>) w Alloc)
      | Alloc \<Rightarrow> Some (set_pc (set_vacstate s w VACSTATE_SCANNING) w Scan)
      | Scan \<Rightarrow>
          (case ch of
             GotPage \<Rightarrow>
               if nearly_full s w then Some (enter_prepared s w False)
               else Some (set_pc s w HavePage)
           | ScanDone \<Rightarrow>
               if n_dt (g_dead s ! w) > 0 then Some (enter_prepared s w True)
               else Some (set_pc s w ToComplete)
           | _ \<Rightarrow> None)
      | HavePage \<Rightarrow>
          (case ch of
             Tuples ts \<Rightarrow> Some (s\<lparr>g_dead := dead_tuples (record_all (worker_stats s) w ts)\<rparr>)
           | PageDone \<Rightarrow>
               if g_nindexes s = 0 \<and> n_dt (g_dead s ! w) > 0
               then Some (set_pc (s\<lparr>g_dead := dead_tuples (lazy_clear_dead_tuple (worker_stats s) w)\<rparr>)
                            w Scan)
               else Some (set_pc s w Scan)
           | _ \<Rightarrow> None)
      | PrepWait final \<Rightarrow>
          if lazy_check_vacstate_prepared (g_pstate s) (g_round s w)
          then Some (set_pc s w (PassedPrep final)) else None
      | PassedPrep final \<Rightarrow> Some (set_pc (set_vacstate s w VACSTATE_VACUUMING) w (Vacuum final))
      | Vacuum final \<Rightarrow> Some (enter_finished s w final)
      | FinWait final \<Rightarrow>
          if lazy_check_vacstate_finished (g_pstate s) (g_round s w)
          then Some (set_pc s w (PassedFin final)) else None
      | PassedFin final \<Rightarrow> Some (set_pc (set_vacstate s w VACSTATE_SCANNING) w (Incr final))
      | Incr final \<Rightarrow> Some (set_pc (incr_round s w) w (if final then ToComplete else HavePage))
      | ToComplete \<Rightarrow> Some (set_pc (set_vacstate s w VACSTATE_COMPLETE) w Complete)
      | Complete \<Rightarrow> None)"

text \<open>The shared memory when the workers are launched: \<open>n\<close> slots, zero-filled, and every
  partition with \<open>maxdt\<close> slots and no entry.\<close>

definition initial_global :: "nat \<Rightarrow> int \<Rightarrow> int \<Rightarrow> pglobal" where
  "initial_global n nidx maxdt =
     \<lparr>g_pstate = \<lparr>nworkers = int n, vacworkers = replicate n \<lparr>state = 0, round = 0\<rparr>\<rparr>,
      g_dead = replicate n \<lparr>n_dt = 0, dt_array = replicate (nat maxdt) (tid 0 0)\<rparr>,
      g_nindexes = nidx, g_max_dead_tuples = maxdt,
      g_pc = (\<lambda>w. NotStarted), g_round = (\<lambda>w. 0), g_cycles = (\<lambda>w. 0), g_clears = []\<rparr>"

text \<open>A run: the steps of a schedule, in order.\<close>

fun run_schedule :: "pglobal \<Rightarrow> (nat \<times> choice) list \<Rightarrow> pglobal option" where
  "run_schedule s [] = Some s"
| "run_schedule s ((w, ch) # rest) =
     (case worker_step s w ch of None \<Rightarrow> None | Some s' \<Rightarrow> run_schedule s' rest)"

definition reachable :: "nat \<Rightarrow> int \<Rightarrow> int \<Rightarrow> pglobal \<Rightarrow> bool" where
  "reachable n nidx maxdt s \<longleftrightarrow> (\<exists>sched. run_schedule (initial_global n nidx maxdt) sched = Some s)"

text \<open>Some partition holds fewer entries after than before.\<close>

definition some_partition_shrinks :: "pglobal \<Rightarrow> pglobal \<Rightarrow> bool" where
  "some_partition_shrinks s s' \<longleftrightarrow>
     (\<exists>j < length (g_dead s). n_dt (g_dead s' ! j) < n_dt (g_dead s ! j))"

subsection \<open>What the shared memory holds at each control point\<close>

text \<open>The state a worker's slot holds at each of its control points.\<close>

fun st_of_pc :: "wpc \<Rightarrow> 8 word" where
  "st_of_pc NotStarted = 0"
| "st_of_pc Started = VACSTATE_STARTUP"
| "st_of_pc Alloc = VACSTATE_STARTUP"
| "st_of_pc Scan = VACSTATE_SCANNING"
| "st_of_pc HavePage = VACSTATE_SCANNING"
| "st_of_pc (PrepWait f) = VACSTATE_VACUUM_PREPARED"
| "st_of_pc (PassedPrep f) = VACSTATE_VACUUM_PREPARED"
| "st_of_pc (Vacuum f) = VACSTATE_VACUUMING"
| "st_of_pc (FinWait f) = VACSTATE_VACUUM_FINISHED"
| "st_of_pc (PassedFin f) = VACSTATE_VACUUM_FINISHED"
| "st_of_pc (Incr f) = VACSTATE_SCANNING"
| "st_of_pc ToComplete = VACSTATE_SCANNING"
| "st_of_pc Complete = VACSTATE_COMPLETE"

text \<open>How far a worker has come: four units per reclaim cycle, odd while it waits at a
  barrier (1 at the Prepared barrier, 3 at the Finished barrier), even once it is through.\<close>

fun prog :: "wpc \<Rightarrow> nat \<Rightarrow> nat" where
  "prog (PrepWait f) c = 4 * c + 1"
| "prog (PassedPrep f) c = 4 * c + 2"
| "prog (Vacuum f) c = 4 * c + 2"
| "prog (FinWait f) c = 4 * c + 3"
| "prog (PassedFin f) c = 4 * c + 4"
| "prog (Incr f) c = 4 * c + 4"
| "prog pc c = 4 * c"

definition progress :: "pglobal \<Rightarrow> nat \<Rightarrow> nat" where
  "progress s i = prog (g_pc s i) (g_cycles s i)"

text \<open>The control points at which the local \<^verbatim>\<open>round\<close> is read.\<close>

fun round_live :: "wpc \<Rightarrow> bool" where
  "round_live (PrepWait f) = True"
| "round_live (FinWait f) = True"
| "round_live pc = False"

definition inv_corr :: "pglobal \<Rightarrow> bool" where
  "inv_corr s \<longleftrightarrow>
     pstate_wf (g_pstate s) \<and> length (g_dead s) = length (vacworkers (g_pstate s)) \<and>
     (\<forall>i < length (vacworkers (g_pstate s)).
        state (vacworkers (g_pstate s) ! i) = st_of_pc (g_pc s i) \<and>
        round (vacworkers (g_pstate s) ! i) = of_nat (g_cycles s i) \<and>
        (round_live (g_pc s i) \<longrightarrow> g_round s i = of_nat (g_cycles s i)) \<and>
        (g_pc s i \<in> {NotStarted, Started} \<longrightarrow> n_dt (g_dead s ! i) = 0))"

text \<open>Lock step: a worker that is through a barrier finds every other worker, unless
  complete, at that barrier or beyond.\<close>

definition inv_lock :: "pglobal \<Rightarrow> bool" where
  "inv_lock s \<longleftrightarrow>
     (\<forall>i j. i < length (vacworkers (g_pstate s)) \<and> j < length (vacworkers (g_pstate s)) \<and>
            g_pc s i \<noteq> Complete \<and> g_pc s j \<noteq> Complete \<longrightarrow>
            2 * (progress s i div 2) \<le> progress s j + 1)"

text \<open>Every clearing logged happened at a cycle that all workers still running have since
  reached the Finished barrier of; no two clearings belong to the same cycle.\<close>

definition inv_clear :: "pglobal \<Rightarrow> bool" where
  "inv_clear s \<longleftrightarrow>
     distinct (map snd (g_clears s)) \<and>
     (\<forall>e \<in> set (g_clears s). \<forall>j < length (vacworkers (g_pstate s)).
        g_pc s j \<noteq> Complete \<longrightarrow> 4 * snd e + 3 \<le> progress s j)"

definition inv_all :: "pglobal \<Rightarrow> bool" where
  "inv_all s \<longleftrightarrow> inv_corr s \<and> inv_lock s \<and> inv_clear s"

section \<open>The heap scan: \<^verbatim>\<open>lazy_scan_heap\<close> and the dead-tuple store\<close>

text \<open>
  \<^verbatim>\<open>lazy_scan_heap\<close> as far as it touches the dead-tuple store: which pages it takes from
  \<^verbatim>\<open>lazy_scan_heap_get_nextpage\<close>, which TIDs it records on each, and where the reclaim
  cycles (index vacuuming, with its calls of \<^verbatim>\<open>lazy_tid_reaped\<close>) and the clearings fall.
  Freezing, the visibility-map update and the tuple counters are left out; the page
  counters that \<^verbatim>\<open>FORCE_CHECK_PAGE\<close> reads are kept.

  What the scan gets from outside is a record: the settings and the visibility map; the
  relation size; each page as the scan finds it once \<^verbatim>\<open>heap_page_prune\<close> has run; the
  answers of \<^verbatim>\<open>ConditionalLockBufferForCleanup\<close> and of \<^verbatim>\<open>lazy_check_needs_freeze\<close> (its
  result and its \<^verbatim>\<open>hastup\<close>); the initial content of the uninitialised local
  \<^verbatim>\<open>all_visible_according_to_vm\<close>; for a parallel worker, whether the partitions
  have been cleared when the worker leaves the Finished barrier of a cycle (by its own
  arrival or by another worker's); and the memory setting \<^verbatim>\<open>vac_work_mem\<close> (in kilobytes,
  \<^verbatim>\<open>autovacuum_work_mem\<close> or \<^verbatim>\<open>maintenance_work_mem\<close>).
\<close>

record scan_env =
  env_old_snapshot_threshold :: int
  env_vm :: vismap
  env_options :: "32 word"
  env_aggressive :: bool
  env_nblocks :: BlockNumber
  env_page :: "BlockNumber \<Rightarrow> heap_page"
  env_cleanup_lock :: "BlockNumber \<Rightarrow> bool"
  env_needs_freeze :: "BlockNumber \<Rightarrow> bool \<times> bool"
  env_avm0 :: bool
  env_cleared :: "int \<Rightarrow> bool"
  env_vac_work_mem :: int

definition FirstOffsetNumber :: OffsetNumber where
  "FirstOffsetNumber = 1"

definition ItemPointerSet :: "BlockNumber \<Rightarrow> OffsetNumber \<Rightarrow> ItemPointerData" where
  "ItemPointerSet blockNumber offNum = \<lparr>ip_blkid = blockNumber, ip_posid = offNum\<rparr>"

text \<open>The loop along a page, \<^verbatim>\<open>for (offnum = FirstOffsetNumber; offnum <= maxoff; ...)\<close>,
  from \<open>offnum\<close> on; the list holds the line pointers from that offset to \<^verbatim>\<open>maxoff\<close>.  It
  carries the statistics block and \<^verbatim>\<open>hastup\<close>.  A tuple is gone when the visibility oracle
  says \<^verbatim>\<open>HEAPTUPLE_DEAD\<close> and it is neither HOT-updated nor heap-only.\<close>

fun scan_items ::
  "nat \<Rightarrow> BlockNumber \<Rightarrow> OffsetNumber \<Rightarrow> ItemId list \<Rightarrow> LVRelStats \<Rightarrow> bool \<Rightarrow> LVRelStats \<times> bool" where
  "scan_items my blkno offnum [] vacrelstats hastup = (vacrelstats, hastup)"
| "scan_items my blkno offnum (itemid # rest) vacrelstats hastup =
     (if \<not> ItemIdIsUsed itemid
      then scan_items my blkno (offnum + 1) rest vacrelstats hastup
      else if itemid = LP_REDIRECT
      then scan_items my blkno (offnum + 1) rest vacrelstats True
      else if itemid = LP_DEAD
      then scan_items my blkno (offnum + 1) rest
             (lazy_record_dead_tuple vacrelstats my (ItemPointerSet blkno offnum)) hastup
      else (case itemid of
              LP_NORMAL htsv hot \<Rightarrow>
                if htsv = HEAPTUPLE_DEAD \<and> \<not> hot
                then scan_items my blkno (offnum + 1) rest
                       (lazy_record_dead_tuple vacrelstats my (ItemPointerSet blkno offnum)) hastup
                else scan_items my blkno (offnum + 1) rest vacrelstats True
            | _ \<Rightarrow> scan_items my blkno (offnum + 1) rest vacrelstats hastup))"

text \<open>The body of the scan loop after the reclaim-cycle test: one page.  \<^verbatim>\<open>Irel == NULL\<close>
  is \<^verbatim>\<open>nindexes == 0\<close>.\<close>

definition scan_page :: "scan_env \<Rightarrow> nat \<Rightarrow> BlockNumber \<Rightarrow> LVRelStats \<Rightarrow> LVRelStats" where
  "scan_page env my blkno vacrelstats =
     (if \<not> env_cleanup_lock env blkno \<and>
         (\<not> env_aggressive env \<and>
          \<not> FORCE_CHECK_PAGE (env_old_snapshot_threshold env) vacrelstats blkno blkno)
      then vacrelstats\<lparr>pinskipped_pages := pinskipped_pages vacrelstats + 1\<rparr>
      else if \<not> env_cleanup_lock env blkno \<and> \<not> fst (env_needs_freeze env blkno)
      then (let vacrelstats = vacrelstats\<lparr>scanned_pages := scanned_pages vacrelstats + 1,
                                            pinskipped_pages := pinskipped_pages vacrelstats + 1\<rparr>
            in if snd (env_needs_freeze env blkno)
               then vacrelstats\<lparr>nonempty_pages := blkno + 1\<rparr> else vacrelstats)
      else if \<not> env_cleanup_lock env blkno \<and> \<not> env_aggressive env
      then (let vacrelstats = vacrelstats\<lparr>pinskipped_pages := pinskipped_pages vacrelstats + 1\<rparr>
            in if snd (env_needs_freeze env blkno)
               then vacrelstats\<lparr>nonempty_pages := blkno + 1\<rparr> else vacrelstats)
      else (let vacrelstats = vacrelstats\<lparr>scanned_pages := scanned_pages vacrelstats + 1\<rparr>;
                page = env_page env blkno
            in if PageIsNew page then vacrelstats
               else if PageIsEmpty page then vacrelstats
               else (case scan_items my blkno FirstOffsetNumber (page_items page) vacrelstats False of
                       (vacrelstats, hastup) \<Rightarrow>
                         (let vacrelstats =
                                (if nindexes vacrelstats = 0 \<and> n_dt (dead_tuples vacrelstats ! my) > 0
                                 then lazy_clear_dead_tuple vacrelstats my else vacrelstats)
                          in if hastup then vacrelstats\<lparr>nonempty_pages := blkno + 1\<rparr>
                             else vacrelstats))))"

text \<open>A reclaim cycle.  Between the two barriers the worker vacuums its indexes, each
  through \<^verbatim>\<open>lazy_vacuum_index\<close> with \<^verbatim>\<open>lazy_tid_reaped\<close> as callback, and then the heap
  (\<^verbatim>\<open>lazy_vacuum_heap\<close> reads the store and leaves it as it is); the model logs the
  partitions as they are during the cycle.  Inside the scan loop a serial run then calls
  \<^verbatim>\<open>lazy_clear_dead_tuple\<close>; the cycle after the loop does not.  A parallel worker comes
  back from \<^verbatim>\<open>lazy_set_vacstate_and_wait_finished\<close> with the partitions cleared or not, as
  the environment says.\<close>

definition reclaim_cycle ::
  "scan_env \<Rightarrow> nat \<Rightarrow> bool \<Rightarrow> LVRelStats \<Rightarrow> LVDeadTuple list list \<Rightarrow> LVRelStats \<times> LVDeadTuple list list" where
  "reclaim_cycle env my in_loop vacrelstats lookups =
     (let lookups = lookups @ [dead_tuples vacrelstats];
          vacrelstats = (if in_loop \<and> pstate vacrelstats = None
                         then lazy_clear_dead_tuple vacrelstats my else vacrelstats);
          vacrelstats = (if pstate vacrelstats \<noteq> None \<and> env_cleared env (num_index_scans vacrelstats)
                         then lazy_clear_dead_tuple vacrelstats my else vacrelstats)
      in (vacrelstats\<lparr>num_index_scans := num_index_scans vacrelstats + 1\<rparr>, lookups))"

text \<open>One pass through the body of the \<^verbatim>\<open>while\<close> loop, for the page \<open>blkno\<close>.\<close>

definition scan_iteration ::
  "scan_env \<Rightarrow> nat \<Rightarrow> BlockNumber \<Rightarrow> LVRelStats \<Rightarrow> LVDeadTuple list list \<Rightarrow> LVRelStats \<times> LVDeadTuple list list" where
  "scan_iteration env my blkno vacrelstats lookups =
     (case (if max_dead_tuples vacrelstats - n_dt (dead_tuples vacrelstats ! my) < MaxHeapTuplesPerPage \<and>
               n_dt (dead_tuples vacrelstats ! my) > 0
            then reclaim_cycle env my True vacrelstats lookups
            else (vacrelstats, lookups))
      of (vacrelstats, lookups) \<Rightarrow> (scan_page env my blkno vacrelstats, lookups))"

text \<open>The scan loop ends: a page number returned by the serial branch is not below the
  cursor \<^verbatim>\<open>lv_cblock\<close>, which then moves past it, and the parallel branch uses up the pages
  handed to the worker.\<close>

lemma nextpage_serial_for_ge:
  "nextpage_serial_for ost vm options aggressive skipping_blocks blkno lvscan vacrelstats avm
     = (b, lvscan', vacrelstats', avm') \<Longrightarrow>
   blkno \<le> b \<and> lv_cblock lvscan' = lv_cblock lvscan \<and> heapscan lvscan' = heapscan lvscan \<and>
   lv_nblocks lvscan' = lv_nblocks lvscan"
proof (induction ost vm options aggressive skipping_blocks blkno lvscan vacrelstats avm
        rule: nextpage_serial_for.induct)
  case (1 ost vm options aggressive skipping_blocks blkno lvscan vacrelstats avm)
  note unf = nextpage_serial_for.simps
               [of ost vm options aggressive skipping_blocks blkno lvscan vacrelstats avm]
  show ?case
  proof (cases "blkno < lv_nblocks lvscan")
    case False
    then show ?thesis using unf "1.prems" by simp
  next
    case lt: True
    show ?thesis
    proof (cases "blkno = lv_next_unskippable_block lvscan")
      case True
      then show ?thesis using unf "1.prems" lt by (auto simp: Let_def)
    next
      case ne: False
      show ?thesis
      proof (cases "skipping_blocks \<and> \<not> FORCE_CHECK_PAGE ost vacrelstats blkno blkno")
        case False
        then show ?thesis using unf "1.prems" lt ne by auto
      next
        case True
        have rec: "nextpage_serial_for ost vm options aggressive skipping_blocks (blkno + 1) lvscan
                     (if aggressive \<or> VM_ALL_FROZEN_blk vm blkno
                      then vacrelstats\<lparr>frozenskipped_pages := frozenskipped_pages vacrelstats + 1\<rparr>
                      else vacrelstats) avm = (b, lvscan', vacrelstats', avm')"
          using unf "1.prems" lt ne True by simp
        have ih: "blkno + 1 \<le> b \<and> lv_cblock lvscan' = lv_cblock lvscan \<and>
              heapscan lvscan' = heapscan lvscan \<and> lv_nblocks lvscan' = lv_nblocks lvscan"
          using "1.IH" [OF lt ne True rec] .
        have le1: "blkno \<le> blkno + 1"
        proof -
          have "unat blkno < unat (lv_nblocks lvscan)" using lt by (simp add: word_less_nat_alt)
          moreover have "unat (lv_nblocks lvscan) < 2 ^ 32"
            using unsigned_less [of "lv_nblocks lvscan", where 'a = nat] by simp
          ultimately have "unat (blkno + 1) = unat blkno + 1" by (simp add: unat_word_ariths)
          then show ?thesis by (simp add: word_le_nat_alt)
        qed
        have "blkno \<le> b" using le1 ih by (rule order_trans [OF _ conjunct1])
        then show ?thesis using ih by simp
      qed
    qed
  qed
qed

lemma nextpage_parallel_uses:
  "nextpage_parallel ost vm options aggressive hs vacrelstats avm = (b, hs', vacrelstats', avm') \<Longrightarrow>
   b \<noteq> InvalidBlockNumber \<Longrightarrow> (\<exists>pre. hs = pre @ b # hs')"
proof (induction ost vm options aggressive hs vacrelstats avm rule: nextpage_parallel.induct)
  case (1 ost vm options aggressive hs vacrelstats avm)
  note unf = nextpage_parallel.simps [of ost vm options aggressive hs vacrelstats avm]
  show ?case
  proof (cases hs)
    case Nil
    then show ?thesis
      using unf "1.prems" by (simp add: heap_parallelscan_nextpage_def)
  next
    case (Cons blkno rest)
    then have nx: "heap_parallelscan_nextpage hs = (blkno, rest)"
      by (simp add: heap_parallelscan_nextpage_def)
    show ?thesis
    proof (cases "nextpage_parallel ost vm options aggressive hs vacrelstats avm
                  = (blkno, rest, vacrelstats, avm) \<or>
                  (\<exists>a. nextpage_parallel ost vm options aggressive hs vacrelstats avm
                  = (blkno, rest, vacrelstats, a))")
      case True
      then have "b = blkno \<and> hs' = rest" using "1.prems"(1) by auto
      then have "hs = [] @ b # hs'" using Cons by simp
      then show ?thesis by blast
    next
      case False
      then have ne: "blkno \<noteq> InvalidBlockNumber"
        using unf nx by auto
      have br: "options AND VACOPT_DISABLE_PAGE_SKIPPING = 0 \<and>
                 \<not> FORCE_CHECK_PAGE ost vacrelstats blkno blkno"
        using False unf nx ne by (auto split: if_splits)
      have "\<exists>pre. rest = pre @ b # hs'"
      proof (cases aggressive)
        case agg: True
        have fr: "visibilitymap_get_status vm blkno AND VISIBILITYMAP_ALL_FROZEN \<noteq> 0"
          using False unf nx ne br agg by (auto simp: Let_def split: if_splits)
        have rec: "nextpage_parallel ost vm options aggressive rest
                     (vacrelstats\<lparr>frozenskipped_pages := frozenskipped_pages vacrelstats + 1\<rparr>) False
                   = (b, hs', vacrelstats', avm')"
          using unf nx ne br agg fr "1.prems"(1) by (simp add: Let_def)
        show ?thesis
          using "1.IH"(1) [OF nx [symmetric] ne br refl agg fr rec "1.prems"(2)] .
      next
        case agg: False
        have vis: "visibilitymap_get_status vm blkno AND VISIBILITYMAP_ALL_VISIBLE \<noteq> 0"
          using False unf nx ne br agg by (auto simp: Let_def split: if_splits)
        have rec: "nextpage_parallel ost vm options aggressive rest
                     (if visibilitymap_get_status vm blkno AND VISIBILITYMAP_ALL_FROZEN = 0
                      then vacrelstats\<lparr>frozenskipped_pages := frozenskipped_pages vacrelstats + 1\<rparr>
                      else vacrelstats) False
                   = (b, hs', vacrelstats', avm')"
          using unf nx ne br agg vis "1.prems"(1) by (simp add: Let_def)
        show ?thesis
          using "1.IH"(2) [OF nx [symmetric] ne br refl agg vis rec "1.prems"(2)] .
      qed
      then obtain pre where "rest = pre @ b # hs'" by blast
      then have "hs = (blkno # pre) @ b # hs'" using Cons by simp
      then show ?thesis by blast
    qed
  qed
qed

text \<open>The serial branch of \<^verbatim>\<open>lazy_scan_heap_get_nextpage\<close> is one run of the \<^verbatim>\<open>for\<close>
  loop from \<^verbatim>\<open>lv_cblock\<close>, after which \<^verbatim>\<open>lv_cblock\<close> is set past the page found.\<close>

lemma get_nextpage_serial:
  assumes "pstate vacrelstats = None"
  obtains skipping_blocks lvscan1 where
    "lv_cblock lvscan1 = lv_cblock lvscan" "heapscan lvscan1 = heapscan lvscan"
    "lv_nblocks lvscan1 = lv_nblocks lvscan"
    "lazy_scan_heap_get_nextpage ost vm vacrelstats lvscan avm options aggressive =
       (case nextpage_serial_for ost vm options aggressive skipping_blocks
                     (lv_cblock lvscan1) lvscan1 vacrelstats avm of
          (blkno, lvscan, vacrelstats, avm) \<Rightarrow>
            (if blkno = lv_nblocks lvscan then InvalidBlockNumber else blkno,
             lvscan\<lparr>lv_cblock := blkno + 1\<rparr>, vacrelstats, avm))"
proof (cases "lv_cblock lvscan = 0 \<and> options AND VACOPT_DISABLE_PAGE_SKIPPING = 0")
  case True
  let ?next = "advance_unskippable vm aggressive (lv_nblocks lvscan) (lv_next_unskippable_block lvscan)"
  let ?lvscan1 = "lvscan\<lparr>lv_next_unskippable_block := ?next\<rparr>"
  have "lazy_scan_heap_get_nextpage ost vm vacrelstats lvscan avm options aggressive =
       (case nextpage_serial_for ost vm options aggressive (?next \<ge> SKIP_PAGES_THRESHOLD)
                     (lv_cblock ?lvscan1) ?lvscan1 vacrelstats avm of
          (blkno, lvscan, vacrelstats, avm) \<Rightarrow>
            (if blkno = lv_nblocks lvscan then InvalidBlockNumber else blkno,
             lvscan\<lparr>lv_cblock := blkno + 1\<rparr>, vacrelstats, avm))"
    using True assms
    by (simp add: lazy_scan_heap_get_nextpage_def Let_def split: prod.splits)
  then show thesis by (intro that [of ?lvscan1]) simp_all
next
  case False
  have "lazy_scan_heap_get_nextpage ost vm vacrelstats lvscan avm options aggressive =
       (case nextpage_serial_for ost vm options aggressive False
                     (lv_cblock lvscan) lvscan vacrelstats avm of
          (blkno, lvscan, vacrelstats, avm) \<Rightarrow>
            (if blkno = lv_nblocks lvscan then InvalidBlockNumber else blkno,
             lvscan\<lparr>lv_cblock := blkno + 1\<rparr>, vacrelstats, avm))"
    using False assms
    by (auto simp: lazy_scan_heap_get_nextpage_def Let_def split: prod.splits)
  then show thesis by (intro that [of lvscan]) simp_all
qed

text \<open>What one call of \<^verbatim>\<open>lazy_scan_heap_get_nextpage\<close> that returns a page does to the scan
  descriptor.\<close>

lemma get_nextpage_advances:
  assumes "lazy_scan_heap_get_nextpage ost vm vacrelstats lvscan avm options aggressive
             = (blkno, lvscan', vacrelstats', avm')"
    and "blkno \<noteq> InvalidBlockNumber"
  shows "if pstate vacrelstats \<noteq> None
         then lv_cblock lvscan' = lv_cblock lvscan \<and>
              (\<exists>pre hs'. the (heapscan lvscan) = pre @ blkno # hs' \<and> heapscan lvscan' = Some hs')
         else heapscan lvscan' = heapscan lvscan \<and> lv_cblock lvscan \<le> blkno \<and>
              lv_cblock lvscan' = blkno + 1"
proof (cases "pstate vacrelstats \<noteq> None")
  case True
  obtain b hs' v1 a1 where np: "nextpage_parallel ost vm options aggressive (the (heapscan lvscan))
                                  vacrelstats avm = (b, hs', v1, a1)"
    by (cases "nextpage_parallel ost vm options aggressive (the (heapscan lvscan)) vacrelstats avm")
  from assms(1) True np have res: "blkno = (if b = lv_nblocks lvscan then InvalidBlockNumber else b)"
    and sc: "lvscan' = lvscan\<lparr>heapscan := Some hs'\<rparr>"
    by (auto simp: lazy_scan_heap_get_nextpage_def)
  from res assms(2) have "b = blkno" by (auto split: if_splits)
  with nextpage_parallel_uses [OF np] assms(2)
  obtain pre where "the (heapscan lvscan) = pre @ blkno # hs'" by auto
  then show ?thesis using True sc by auto
next
  case False
  then have ser: "pstate vacrelstats = None" by simp
  from get_nextpage_serial [OF ser, of lvscan ost vm avm options aggressive]
  obtain skipping_blocks lvscan1 where
    l1: "lv_cblock lvscan1 = lv_cblock lvscan" "heapscan lvscan1 = heapscan lvscan"
    "lv_nblocks lvscan1 = lv_nblocks lvscan"
    and unf: "lazy_scan_heap_get_nextpage ost vm vacrelstats lvscan avm options aggressive =
       (case nextpage_serial_for ost vm options aggressive skipping_blocks
                     (lv_cblock lvscan1) lvscan1 vacrelstats avm of
          (blkno, lvscan, vacrelstats, avm) \<Rightarrow>
            (if blkno = lv_nblocks lvscan then InvalidBlockNumber else blkno,
             lvscan\<lparr>lv_cblock := blkno + 1\<rparr>, vacrelstats, avm))"
    by blast
  obtain b lvscan2 v1 a1 where sf: "nextpage_serial_for ost vm options aggressive skipping_blocks
                                      (lv_cblock lvscan1) lvscan1 vacrelstats avm = (b, lvscan2, v1, a1)"
    by (cases "nextpage_serial_for ost vm options aggressive skipping_blocks
                 (lv_cblock lvscan1) lvscan1 vacrelstats avm")
  from unf assms(1) sf have res: "blkno = (if b = lv_nblocks lvscan2 then InvalidBlockNumber else b)"
    and sc: "lvscan' = lvscan2\<lparr>lv_cblock := b + 1\<rparr>"
    by simp_all
  from res assms(2) have "b = blkno" by (auto split: if_splits)
  with nextpage_serial_for_ge [OF sf] l1 sc False show ?thesis by simp
qed

text \<open>The \<^verbatim>\<open>while\<close> loop of \<^verbatim>\<open>lazy_scan_heap\<close>.\<close>

function scan_loop ::
  "scan_env \<Rightarrow> nat \<Rightarrow> LVScanDescData \<Rightarrow> LVRelStats \<Rightarrow> bool \<Rightarrow> LVDeadTuple list list \<Rightarrow>
   LVScanDescData \<times> LVRelStats \<times> LVDeadTuple list list" where
  "scan_loop env my lvscan vacrelstats avm lookups =
     (case lazy_scan_heap_get_nextpage (env_old_snapshot_threshold env) (env_vm env) vacrelstats
             lvscan avm (env_options env) (env_aggressive env) of
        (blkno, lvscan', vacrelstats', avm') \<Rightarrow>
          if blkno \<noteq> InvalidBlockNumber
          then (case scan_iteration env my blkno vacrelstats' lookups of
                  (vacrelstats'', lookups') \<Rightarrow> scan_loop env my lvscan' vacrelstats'' avm' lookups')
          else (lvscan', vacrelstats', lookups))"
  by pat_completeness auto
termination
proof (relation "measure (\<lambda>(env, my, lvscan, vacrelstats, avm, lookups).
                    length (the (heapscan lvscan)) + (2 ^ 32 - unat (lv_cblock lvscan)))")
  show "wf (measure (\<lambda>(env, my, lvscan, vacrelstats, avm, lookups).
                    length (the (heapscan lvscan)) + (2 ^ 32 - unat (lv_cblock lvscan))))"
    by simp
next
  fix env :: scan_env and my :: nat and lvscan lvscan' :: LVScanDescData
    and vacrelstats vacrelstats' vacrelstats'' :: LVRelStats and avm avm' :: bool
    and lookups lookups' :: "LVDeadTuple list list" and blkno :: BlockNumber
    and x y z
  assume np: "(blkno, x) = lazy_scan_heap_get_nextpage (env_old_snapshot_threshold env) (env_vm env)
                  vacrelstats lvscan avm (env_options env) (env_aggressive env)"
    and x: "(lvscan', y) = x" and y: "(vacrelstats', avm') = y"
    and ne: "blkno \<noteq> InvalidBlockNumber"
  have call: "lazy_scan_heap_get_nextpage (env_old_snapshot_threshold env) (env_vm env)
                  vacrelstats lvscan avm (env_options env) (env_aggressive env)
              = (blkno, lvscan', vacrelstats', avm')"
    using np x y by simp
  note adv = get_nextpage_advances [OF call ne]
  have "length (the (heapscan lvscan')) + (2 ^ 32 - unat (lv_cblock lvscan'))
        < length (the (heapscan lvscan)) + (2 ^ 32 - unat (lv_cblock lvscan))"
  proof (cases "pstate vacrelstats \<noteq> None")
    case True
    with adv show ?thesis by auto
  next
    case False
    with adv have h: "heapscan lvscan' = heapscan lvscan" and le: "lv_cblock lvscan \<le> blkno"
      and c: "lv_cblock lvscan' = blkno + 1"
      by simp_all
    have "unat blkno < 2 ^ 32 - 1"
    proof -
      have "unat blkno < 2 ^ 32" using unsigned_less [of blkno, where 'a = nat] by simp
      moreover have "unat blkno \<noteq> 2 ^ 32 - 1"
      proof
        assume "unat blkno = 2 ^ 32 - 1"
        then have "unat blkno = unat InvalidBlockNumber" by (simp add: InvalidBlockNumber_def)
        then show False using ne by (simp only: word_unat_eq_iff [symmetric])
      qed
      ultimately show ?thesis by simp
    qed
    then have "unat (blkno + 1) = unat blkno + 1" by (simp add: unat_word_ariths)
    moreover have "unat (lv_cblock lvscan) \<le> unat blkno" using le by (simp add: word_le_nat_alt)
    ultimately show ?thesis using h c \<open>unat blkno < 2 ^ 32 - 1\<close> by simp
  qed
  then show "((env, my, lvscan', vacrelstats'', avm', lookups'), env, my, lvscan, vacrelstats, avm, lookups)
        \<in> measure (\<lambda>(env, my, lvscan, vacrelstats, avm, lookups).
                    length (the (heapscan lvscan)) + (2 ^ 32 - unat (lv_cblock lvscan)))"
    by simp
qed

declare scan_loop.simps [simp del]

text \<open>Modelled from the spec: \<^verbatim>\<open>MaxAllocSize\<close> (\<^verbatim>\<open>utils/memutils.h\<close>) and
  \<^verbatim>\<open>ItemPointerData\<close> (\<^verbatim>\<open>storage/itemptr.h\<close>: three \<^verbatim>\<open>uint16\<close>, six bytes) are not under
  \<^verbatim>\<open>src/\<close>; \<^verbatim>\<open>INT_MAX\<close> is the C limit of a 32-bit \<^verbatim>\<open>int\<close>.\<close>

definition INT_MAX :: int where
  "INT_MAX = 2147483647"

definition MaxAllocSize :: int where
  "MaxAllocSize = 0x3fffffff"

definition sizeof_ItemPointerData :: int where
  "sizeof_ItemPointerData = 6"

definition LAZY_ALLOC_TUPLES :: int where
  "LAZY_ALLOC_TUPLES = MaxHeapTuplesPerPage"

text \<open>\<^verbatim>\<open>lazy_get_max_dead_tuple\<close>, with \<^verbatim>\<open>vac_work_mem\<close> as an argument.  \<^verbatim>\<open>maxtuples\<close> is
  a C \<^verbatim>\<open>long\<close>; with \<^verbatim>\<open>vac_work_mem\<close> a non-negative \<^verbatim>\<open>int\<close> nothing overflows and the C
  division is the HOL one.  The product \<^verbatim>\<open>old_rel_pages * LAZY_ALLOC_TUPLES\<close> is an unsigned
  32-bit one.\<close>

definition lazy_get_max_dead_tuple :: "int \<Rightarrow> LVRelStats \<Rightarrow> int" where
  "lazy_get_max_dead_tuple vac_work_mem vacrelstats =
     (if nindexes vacrelstats \<noteq> 0
      then (let maxtuples = (vac_work_mem * 1024) div sizeof_ItemPointerData;
                maxtuples = min maxtuples INT_MAX;
                maxtuples = min maxtuples (MaxAllocSize div sizeof_ItemPointerData);
                maxtuples =
                  (if (word_of_int (maxtuples div LAZY_ALLOC_TUPLES) :: BlockNumber)
                        > old_rel_pages vacrelstats
                   then uint (old_rel_pages vacrelstats * word_of_int LAZY_ALLOC_TUPLES)
                   else maxtuples)
            in max maxtuples MaxHeapTuplesPerPage)
      else MaxHeapTuplesPerPage)"

text \<open>\<^verbatim>\<open>lazy_space_alloc\<close>.  A serial run allocates one \<^verbatim>\<open>LVDeadTuple\<close> with a zero-filled array
  of \<^verbatim>\<open>lazy_get_max_dead_tuple\<close> slots and stores that number in \<^verbatim>\<open>max_dead_tuples\<close>;
  \<^verbatim>\<open>MyDeadTuple\<close> is then element 0.  A parallel worker points \<^verbatim>\<open>MyDeadTuple\<close> at element
  \<^verbatim>\<open>ParallelWorkerNumber\<close>, whose array is the worker's region of the shared segment (the
  \<^verbatim>\<open>dt_array\<close> of that element in the model).  Either way the count is set to zero.  The
  result is the statistics block and the index of \<^verbatim>\<open>MyDeadTuple\<close>.\<close>

definition lazy_space_alloc :: "int \<Rightarrow> LVRelStats \<Rightarrow> nat \<Rightarrow> LVRelStats \<times> nat" where
  "lazy_space_alloc vac_work_mem vacrelstats ParallelWorkerNumber =
     (case (if pstate vacrelstats = None
            then (let maxtuples = lazy_get_max_dead_tuple vac_work_mem vacrelstats
                  in (vacrelstats\<lparr>dead_tuples :=
                                     [\<lparr>n_dt = 0,
                                       dt_array = replicate (nat maxtuples)
                                                    \<lparr>ip_blkid = 0, ip_posid = 0\<rparr>\<rparr>],
                                   max_dead_tuples := maxtuples\<rparr>, 0))
            else (vacrelstats, ParallelWorkerNumber))
      of (vacrelstats, my) \<Rightarrow>
           (vacrelstats\<lparr>dead_tuples :=
              (dead_tuples vacrelstats)[my := (dead_tuples vacrelstats ! my)\<lparr>n_dt := 0\<rparr>]\<rparr>, my))"

text \<open>\<^verbatim>\<open>lazy_scan_heap\<close>: the result is the statistics block and the partitions as they were
  during each reclaim cycle.\<close>

definition lazy_scan_heap ::
  "scan_env \<Rightarrow> nat \<Rightarrow> BlockNumber list option \<Rightarrow> LVRelStats \<Rightarrow> LVRelStats \<times> LVDeadTuple list list" where
  "lazy_scan_heap env ParallelWorkerNumber pscan vacrelstats =
     (let vacrelstats = vacrelstats\<lparr>rel_pages := env_nblocks env, scanned_pages := 0,
                                    nonempty_pages := 0\<rparr>
      in case lazy_space_alloc (env_vac_work_mem env) vacrelstats ParallelWorkerNumber of
           (vacrelstats, my) \<Rightarrow>
             (case scan_loop env my (lv_beginscan vacrelstats pscan) vacrelstats (env_avm0 env) [] of
                (lvscan, vacrelstats, lookups) \<Rightarrow>
                  if n_dt (dead_tuples vacrelstats ! my) > 0
                  then reclaim_cycle env my False vacrelstats lookups
                  else (vacrelstats, lookups)))"

text \<open>The index of \<^verbatim>\<open>MyDeadTuple\<close> in a run.\<close>

definition my_partition :: "LVRelStats \<Rightarrow> nat \<Rightarrow> nat" where
  "my_partition vacrelstats ParallelWorkerNumber =
     (if pstate vacrelstats = None then 0 else ParallelWorkerNumber)"

text \<open>A partition in strictly increasing TID order.\<close>

definition partition_sorted :: "LVDeadTuple \<Rightarrow> bool" where
  "partition_sorted d \<longleftrightarrow> sorted_wrt tid_less (dt_entries d)"

text \<open>Every page holds at most \<^verbatim>\<open>MaxHeapTuplesPerPage\<close> line pointers, so that the offsets
  of the loop along a page stay within \<^verbatim>\<open>OffsetNumber\<close>.\<close>

definition pages_fit :: "scan_env \<Rightarrow> bool" where
  "pages_fit env \<longleftrightarrow> (\<forall>b. int (length (page_items (env_page env b))) \<le> MaxHeapTuplesPerPage)"

text \<open>The state of a worker's partition during the scan: allocated, in strictly increasing
  TID order, and with every entry satisfying \<open>Q\<close>.\<close>

definition store_inv :: "nat \<Rightarrow> LVRelStats \<Rightarrow> (ItemPointerData \<Rightarrow> bool) \<Rightarrow> bool" where
  "store_inv my v Q \<longleftrightarrow>
     my < length (dead_tuples v) \<and> dt_wf (max_dead_tuples v) (dead_tuples v ! my) \<and>
     partition_sorted (dead_tuples v ! my) \<and> (\<forall>t \<in> set (dt_entries (dead_tuples v ! my)). Q t)"

text \<open>Two statistics blocks with the same parallel state, capacity, number of indexes
  and number of partitions.\<close>

definition same_setup :: "LVRelStats \<Rightarrow> LVRelStats \<Rightarrow> bool" where
  "same_setup v v' \<longleftrightarrow>
     pstate v' = pstate v \<and> max_dead_tuples v' = max_dead_tuples v \<and> nindexes v' = nindexes v \<and>
     length (dead_tuples v') = length (dead_tuples v)"

text \<open>At the head of the scan loop of a serial run every entry of the partition lies on
  a page before the cursor \<^verbatim>\<open>lv_cblock\<close>.  For a parallel worker the same can be said only
  of a run in which the pages still to be handed to the worker come in increasing order
  and all lie after the entries.\<close>

definition scan_inv :: "nat \<Rightarrow> LVScanDescData \<Rightarrow> LVRelStats \<Rightarrow> bool" where
  "scan_inv my lvscan v \<longleftrightarrow>
     (if pstate v \<noteq> None
      then sorted_wrt (<) (the (heapscan lvscan)) \<and>
           store_inv my v (\<lambda>t. \<forall>b \<in> set (the (heapscan lvscan)). ip_blkid t < b)
      else store_inv my v (\<lambda>t. ip_blkid t < lv_cblock lvscan))"

section \<open>Properties\<close>

subsection \<open>Bounded memory\<close>

lemma record_step_entries:
  assumes "my < length (dead_tuples v)" "dt_wf (max_dead_tuples v) (dead_tuples v ! my)"
  shows "dt_entries (dead_tuples (lazy_record_dead_tuple v my t) ! my) =
           (if n_dt (dead_tuples v ! my) < max_dead_tuples v
            then dt_entries (dead_tuples v ! my) @ [t]
            else dt_entries (dead_tuples v ! my))"
proof (cases "n_dt (dead_tuples v ! my) < max_dead_tuples v")
  case True
  let ?d = "dead_tuples v ! my"
  have len: "nat (n_dt ?d) < length (dt_array ?d)"
    using assms True by (simp add: dt_wf_def)
  have "take (nat (n_dt ?d + 1)) ((dt_array ?d)[nat (n_dt ?d) := t])
          = take (nat (n_dt ?d)) (dt_array ?d) @ [t]"
  proof -
    have "nat (n_dt ?d + 1) = Suc (nat (n_dt ?d))"
      using assms by (simp add: dt_wf_def nat_add_distrib)
    then show ?thesis
      using len by (simp add: take_Suc_conv_app_nth)
  qed
  then show ?thesis
    using True assms by (simp add: lazy_record_dead_tuple_def dt_entries_def Let_def)
next
  case False
  then show ?thesis by (simp add: lazy_record_dead_tuple_def Let_def)
qed

lemma record_step_wf:
  assumes "my < length (dead_tuples v)" "dt_wf (max_dead_tuples v) (dead_tuples v ! my)"
  shows "dt_wf (max_dead_tuples v) (dead_tuples (lazy_record_dead_tuple v my t) ! my)"
  using assms by (auto simp: lazy_record_dead_tuple_def Let_def dt_wf_def)

lemma record_step_frame:
  "max_dead_tuples (lazy_record_dead_tuple v my t) = max_dead_tuples v \<and>
   length (dead_tuples (lazy_record_dead_tuple v my t)) = length (dead_tuples v)"
  by (simp add: lazy_record_dead_tuple_def Let_def)

lemma record_all_frame:
  "max_dead_tuples (record_all v my ts) = max_dead_tuples v \<and>
   length (dead_tuples (record_all v my ts)) = length (dead_tuples v)"
  by (induction ts arbitrary: v) (simp_all add: record_step_frame)

lemma record_all_wf:
  assumes "my < length (dead_tuples v)" "dt_wf (max_dead_tuples v) (dead_tuples v ! my)"
  shows "dt_wf (max_dead_tuples v) (dead_tuples (record_all v my ts) ! my)"
  using assms
proof (induction ts arbitrary: v)
  case Nil
  then show ?case by simp
next
  case (Cons t ts)
  have "dt_wf (max_dead_tuples (lazy_record_dead_tuple v my t))
          (dead_tuples (lazy_record_dead_tuple v my t) ! my)"
    using record_step_wf [OF Cons.prems] by (simp add: record_step_frame)
  moreover have "my < length (dead_tuples (lazy_record_dead_tuple v my t))"
    using Cons.prems by (simp add: record_step_frame)
  ultimately show ?case
    using Cons.IH [of "lazy_record_dead_tuple v my t"] by (simp add: record_step_frame)
qed

lemma record_all_entries:
  assumes "my < length (dead_tuples v)" "dt_wf (max_dead_tuples v) (dead_tuples v ! my)"
  shows "dt_entries (dead_tuples (record_all v my ts) ! my) =
           take (nat (max_dead_tuples v)) (dt_entries (dead_tuples v ! my) @ ts)"
  using assms
proof (induction ts arbitrary: v)
  case Nil
  then show ?case by (simp add: dt_entries_def dt_wf_def min_def)
next
  case (Cons t ts)
  let ?v = "lazy_record_dead_tuple v my t"
  have wf: "dt_wf (max_dead_tuples ?v) (dead_tuples ?v ! my)"
    using record_step_wf [OF Cons.prems] by (simp add: record_step_frame)
  have lt: "my < length (dead_tuples ?v)"
    using Cons.prems by (simp add: record_step_frame)
  have IH: "dt_entries (dead_tuples (record_all ?v my ts) ! my) =
              take (nat (max_dead_tuples v)) (dt_entries (dead_tuples ?v ! my) @ ts)"
    using Cons.IH [OF lt wf] by (simp add: record_step_frame)
  show ?case
  proof (cases "n_dt (dead_tuples v ! my) < max_dead_tuples v")
    case True
    then show ?thesis
      using IH record_step_entries [OF Cons.prems, of t] by simp
  next
    case False
    have full: "length (dt_entries (dead_tuples v ! my)) = nat (max_dead_tuples v)"
      using False Cons.prems by (simp add: dt_entries_def dt_wf_def)
    show ?thesis
      using IH record_step_entries [OF Cons.prems, of t] False full by simp
  qed
qed

text \<open>
  Claim C3.  A call of \<^verbatim>\<open>lazy_record_dead_tuple\<close> appends the TID to the calling worker's
  array only when the count \<^verbatim>\<open>n_dt\<close> is strictly below \<^verbatim>\<open>max_dead_tuples\<close>, and otherwise
  returns the state unchanged; the capacity itself is never written.  Hence after any
  sequence of calls the partition holds the first TIDs offered, cut at the capacity, and
  its count never exceeds \<^verbatim>\<open>max_dead_tuples\<close>, however many TIDs the table supplies.
\<close>

theorem C3_dead_tuple_store_bounded:
  assumes "my < length (dead_tuples v)" "dt_wf (max_dead_tuples v) (dead_tuples v ! my)"
  shows "(n_dt (dead_tuples v ! my) < max_dead_tuples v \<longrightarrow>
            dt_entries (dead_tuples (lazy_record_dead_tuple v my t) ! my)
              = dt_entries (dead_tuples v ! my) @ [t] \<and>
            n_dt (dead_tuples (lazy_record_dead_tuple v my t) ! my) = n_dt (dead_tuples v ! my) + 1)
       \<and> (\<not> n_dt (dead_tuples v ! my) < max_dead_tuples v \<longrightarrow> lazy_record_dead_tuple v my t = v)
       \<and> max_dead_tuples (record_all v my ts) = max_dead_tuples v
       \<and> dt_entries (dead_tuples (record_all v my ts) ! my)
           = take (nat (max_dead_tuples v)) (dt_entries (dead_tuples v ! my) @ ts)
       \<and> 0 \<le> n_dt (dead_tuples (record_all v my ts) ! my)
       \<and> n_dt (dead_tuples (record_all v my ts) ! my) \<le> max_dead_tuples v
       \<and> length (dt_entries (dead_tuples (record_all v my ts) ! my)) \<le> nat (max_dead_tuples v)"
proof -
  have a: "n_dt (dead_tuples v ! my) < max_dead_tuples v \<longrightarrow>
            dt_entries (dead_tuples (lazy_record_dead_tuple v my t) ! my)
              = dt_entries (dead_tuples v ! my) @ [t]"
    using record_step_entries [OF assms, of t] by simp
  have b: "n_dt (dead_tuples v ! my) < max_dead_tuples v \<longrightarrow>
            n_dt (dead_tuples (lazy_record_dead_tuple v my t) ! my) = n_dt (dead_tuples v ! my) + 1"
    using assms by (simp add: lazy_record_dead_tuple_def Let_def)
  have c: "\<not> n_dt (dead_tuples v ! my) < max_dead_tuples v \<longrightarrow> lazy_record_dead_tuple v my t = v"
    by (simp add: lazy_record_dead_tuple_def Let_def)
  have wf: "dt_wf (max_dead_tuples v) (dead_tuples (record_all v my ts) ! my)"
    by (rule record_all_wf [OF assms])
  have e: "dt_entries (dead_tuples (record_all v my ts) ! my)
           = take (nat (max_dead_tuples v)) (dt_entries (dead_tuples v ! my) @ ts)"
    by (rule record_all_entries [OF assms])
  show ?thesis
    using a b c wf e by (simp add: record_all_frame dt_wf_def)
qed


theorem C3_dead_tuple_store_bounded_witness:
  "0 < length (dead_tuples (zero_stats 2 [\<lparr>n_dt = 1, dt_array = [tid 0 1, tid 0 0]\<rparr>] None))
   \<and> dt_wf 2 \<lparr>n_dt = 1, dt_array = [tid 0 1, tid 0 0]\<rparr>
   \<and> dt_entries (dead_tuples (record_all
        (zero_stats 2 [\<lparr>n_dt = 1, dt_array = [tid 0 1, tid 0 0]\<rparr>] None) 0
        [tid 0 2, tid 0 3, tid 1 1]) ! 0) = [tid 0 1, tid 0 2]"
proof -
  let ?v = "zero_stats 2 [\<lparr>n_dt = 1, dt_array = [tid 0 1, tid 0 0]\<rparr>] None"
  have h1: "0 < length (dead_tuples ?v)"
    by (simp add: zero_stats_def)
  have h2: "dt_wf (max_dead_tuples ?v) (dead_tuples ?v ! 0)"
    by (simp add: zero_stats_def dt_wf_def)
  show ?thesis
    using C3_dead_tuple_store_bounded [OF h1 h2, of "tid 0 2" "[tid 0 2, tid 0 3, tid 1 1]"] h1 h2
    by (simp add: zero_stats_def dt_entries_def)
qed

subsection \<open>Lookup in the dead-tuple store\<close>

lemma vac_cmp_lt: "vac_cmp_itemptr a b < 0 \<longleftrightarrow> tid_less a b"
  by (auto simp: vac_cmp_itemptr_def tid_less_def Let_def
        ItemPointerGetBlockNumber_def ItemPointerGetOffsetNumber_def)

lemma vac_cmp_gt: "vac_cmp_itemptr a b > 0 \<longleftrightarrow> tid_less b a"
  by (auto simp: vac_cmp_itemptr_def tid_less_def Let_def
        ItemPointerGetBlockNumber_def ItemPointerGetOffsetNumber_def)

lemma vac_cmp_eq: "vac_cmp_itemptr a b = 0 \<longleftrightarrow> a = (b :: ItemPointerData)"
  by (auto simp: vac_cmp_itemptr_def Let_def
        ItemPointerGetBlockNumber_def ItemPointerGetOffsetNumber_def)

lemma vac_cmp_le: "vac_cmp_itemptr a b \<le> 0 \<longleftrightarrow> tid_less a b \<or> a = b"
  using vac_cmp_lt [of a b] vac_cmp_eq [of a b] by linarith

lemma tid_less_irrefl: "\<not> tid_less a a"
  by (simp add: tid_less_def)

lemma tid_less_trans: "tid_less a b \<Longrightarrow> tid_less b c \<Longrightarrow> tid_less a c"
  by (auto simp: tid_less_def)

lemma tid_less_asym: "tid_less a b \<Longrightarrow> \<not> tid_less b a"
  by (auto simp: tid_less_def)

lemma bsearch_loop_sound:
  "c = vac_cmp_itemptr \<Longrightarrow> bsearch_loop c key base l u = Some i \<Longrightarrow>
     l \<le> i \<and> i < u \<and> base ! i = key"
proof (induction c key base l u rule: bsearch_loop.induct)
  case (1 c key base l u)
  let ?m = "(l + u) div 2"
  note unf = bsearch_loop.simps [of c key base l u]
  show ?case
  proof (cases "l < u")
    case False
    with "1.prems" unf show ?thesis by simp
  next
    case lu: True
    consider (lt) "c key (base ! ?m) < 0"
      | (gt) "\<not> c key (base ! ?m) < 0" "c key (base ! ?m) > 0"
      | (eq) "\<not> c key (base ! ?m) < 0" "\<not> c key (base ! ?m) > 0"
      by blast
    then show ?thesis
    proof cases
      case lt
      then have "bsearch_loop c key base l ?m = Some i"
        using "1.prems" lu unf by simp
      from "1.IH"(1) [OF lu lt "1.prems"(1) this] lu show ?thesis by auto
    next
      case gt
      then have "bsearch_loop c key base (?m + 1) u = Some i"
        using "1.prems" lu unf by simp
      from "1.IH"(2) [OF lu gt(1) gt(2) "1.prems"(1) this] show ?thesis by auto
    next
      case eq
      then have i: "i = ?m"
        using "1.prems" lu unf by simp
      have "vac_cmp_itemptr key (base ! ?m) = 0"
        using eq "1.prems"(1) by simp
      then have "base ! ?m = key"
        by (simp add: vac_cmp_eq)
      with i lu show ?thesis by auto
    qed
  qed
qed

lemma bsearch_loop_complete:
  "c = vac_cmp_itemptr \<Longrightarrow> sorted_wrt (\<lambda>a b. vac_cmp_itemptr a b \<le> 0) (take n base) \<Longrightarrow>
   n \<le> length base \<Longrightarrow> u \<le> n \<Longrightarrow> l \<le> j \<Longrightarrow> j < u \<Longrightarrow> base ! j = key \<Longrightarrow>
   bsearch_loop c key base l u \<noteq> None"
proof (induction c key base l u rule: bsearch_loop.induct)
  case (1 c key base l u)
  let ?m = "(l + u) div 2"
  note unf = bsearch_loop.simps [of c key base l u]
  note c = \<open>c = vac_cmp_itemptr\<close>
  have lu: "l < u" using "1.prems" by simp
  have mono: "vac_cmp_itemptr (base ! a) (base ! b) \<le> 0" if "a < b" "b < n" for a b
  proof -
    have "vac_cmp_itemptr (take n base ! a) (take n base ! b) \<le> 0"
      using \<open>sorted_wrt (\<lambda>a b. vac_cmp_itemptr a b \<le> 0) (take n base)\<close> \<open>n \<le> length base\<close> that
      by (simp add: sorted_wrt_iff_nth_less)
    then show ?thesis using that by simp
  qed
  have mn: "?m < n" using "1.prems" by simp
  have jn: "j < n" using "1.prems" by simp
  have bj: "base ! j = key" using "1.prems" by simp
  consider (lt) "c key (base ! ?m) < 0"
    | (gt) "\<not> c key (base ! ?m) < 0" "c key (base ! ?m) > 0"
    | (eq) "\<not> c key (base ! ?m) < 0" "\<not> c key (base ! ?m) > 0"
    by blast
  then show ?case
  proof cases
    case lt
    have "j < ?m"
    proof (rule ccontr)
      assume "\<not> j < ?m"
      then have "j = ?m \<or> ?m < j" by auto
      then show False
      proof
        assume "j = ?m"
        with lt bj c show False by (simp add: vac_cmp_lt tid_less_irrefl)
      next
        assume "?m < j"
        from mono [OF this jn] bj have "tid_less (base ! ?m) key \<or> base ! ?m = key"
          by (simp add: vac_cmp_le)
        with lt c show False
          by (auto simp: vac_cmp_lt tid_less_irrefl dest: tid_less_asym)
      qed
    qed
    moreover have "?m \<le> n" using mn by simp
    ultimately have "bsearch_loop c key base l ?m \<noteq> None"
      using "1.IH"(1) [OF lu lt] "1.prems" by simp
    then show ?thesis using lu lt unf by simp
  next
    case gt
    have "?m < j"
    proof (rule ccontr)
      assume "\<not> ?m < j"
      then have "j = ?m \<or> j < ?m" by auto
      then show False
      proof
        assume "j = ?m"
        with gt bj c show False by (simp add: vac_cmp_gt tid_less_irrefl)
      next
        assume "j < ?m"
        from mono [OF this mn] bj have "tid_less key (base ! ?m) \<or> key = base ! ?m"
          by (simp add: vac_cmp_le)
        with gt c show False
          by (auto simp: vac_cmp_gt tid_less_irrefl dest: tid_less_asym)
      qed
    qed
    then have "bsearch_loop c key base (?m + 1) u \<noteq> None"
      using "1.IH"(2) [OF lu gt(1) gt(2)] "1.prems" by simp
    then show ?thesis using lu gt unf by simp
  next
    case eq
    then show ?thesis using lu unf by simp
  qed
qed

lemma bsearch_iff:
  assumes "sorted_wrt (\<lambda>a b. vac_cmp_itemptr a b \<le> 0) (take n base)" "n \<le> length base"
  shows "bsearch key base n vac_cmp_itemptr \<noteq> None \<longleftrightarrow> key \<in> set (take n base)"
proof
  assume "bsearch key base n vac_cmp_itemptr \<noteq> None"
  then obtain i where "bsearch_loop vac_cmp_itemptr key base 0 n = Some i"
    by (auto simp: bsearch_def)
  from bsearch_loop_sound [OF refl this] have "i < n" "base ! i = key" by auto
  then show "key \<in> set (take n base)"
    using assms(2) by (auto simp: in_set_conv_nth intro!: exI [of _ i])
next
  assume "key \<in> set (take n base)"
  then obtain j where "j < n" "base ! j = key"
    using assms(2) by (auto simp: in_set_conv_nth)
  with bsearch_loop_complete [OF refl assms, of n 0 j key] show "bsearch key base n vac_cmp_itemptr \<noteq> None"
    by (simp add: bsearch_def)
qed

lemma tid_reaped_from_iff:
  "(\<forall>k. 0 \<le> k \<and> k < num \<longrightarrow>
       nat (n_dt (dead_tuples v ! nat k)) \<le> length (dt_array (dead_tuples v ! nat k)) \<and>
       sorted_wrt (\<lambda>a b. vac_cmp_itemptr a b \<le> 0) (dt_entries (dead_tuples v ! nat k))) \<Longrightarrow>
   0 \<le> i \<Longrightarrow>
   tid_reaped_from itemptr v num i \<longleftrightarrow>
     (\<exists>k. i \<le> k \<and> k < num \<and> itemptr \<in> set (dt_entries (dead_tuples v ! nat k)))"
proof (induction itemptr v num i rule: tid_reaped_from.induct)
  case (1 itemptr v num i)
  note unf = tid_reaped_from.simps [of itemptr v num i]
  show ?case
  proof (cases "i < num")
    case False
    then show ?thesis using unf by auto
  next
    case True
    let ?d = "dead_tuples v ! nat i"
    have ik: "0 \<le> i \<and> i < num"
      using True "1.prems" by simp
    have hyp: "nat (n_dt ?d) \<le> length (dt_array ?d) \<and>
               sorted_wrt (\<lambda>a b. vac_cmp_itemptr a b \<le> 0) (dt_entries ?d)"
      using ik "1.prems"(1) [THEN spec, of i] by simp
    have here: "bsearch itemptr (dt_array ?d) (nat (n_dt ?d)) vac_cmp_itemptr \<noteq> None
                  \<longleftrightarrow> itemptr \<in> set (dt_entries ?d)"
      using hyp bsearch_iff [of "nat (n_dt ?d)" "dt_array ?d" itemptr]
      by (simp add: dt_entries_def)
    show ?thesis
    proof (cases "itemptr \<in> set (dt_entries ?d)")
      case found: True
      then have "tid_reaped_from itemptr v num i"
        using True here unf by (simp add: Let_def)
      moreover have "\<exists>k. i \<le> k \<and> k < num \<and> itemptr \<in> set (dt_entries (dead_tuples v ! nat k))"
        using True found by (intro exI [of _ i]) simp
      ultimately show ?thesis by simp
    next
      case nf: False
      then have none: "bsearch itemptr (dt_array ?d) (nat (n_dt ?d)) vac_cmp_itemptr = None"
        using here by simp
      have step: "tid_reaped_from itemptr v num i = tid_reaped_from itemptr v num (i + 1)"
        using True none unf by (simp add: Let_def)
      have IH: "tid_reaped_from itemptr v num (i + 1) \<longleftrightarrow>
                  (\<exists>k. i + 1 \<le> k \<and> k < num \<and> itemptr \<in> set (dt_entries (dead_tuples v ! nat k)))"
        using "1.IH" [OF True refl refl refl _ "1.prems"(1)] none "1.prems"(2) by simp
      have "(\<exists>k. i + 1 \<le> k \<and> k < num \<and> itemptr \<in> set (dt_entries (dead_tuples v ! nat k)))
            \<longleftrightarrow> (\<exists>k. i \<le> k \<and> k < num \<and> itemptr \<in> set (dt_entries (dead_tuples v ! nat k)))"
      proof
        assume "\<exists>k. i + 1 \<le> k \<and> k < num \<and> itemptr \<in> set (dt_entries (dead_tuples v ! nat k))"
        then obtain k where "i + 1 \<le> k" "k < num" "itemptr \<in> set (dt_entries (dead_tuples v ! nat k))"
          by blast
        then have "i \<le> k \<and> k < num \<and> itemptr \<in> set (dt_entries (dead_tuples v ! nat k))"
          by simp
        then show "\<exists>k. i \<le> k \<and> k < num \<and> itemptr \<in> set (dt_entries (dead_tuples v ! nat k))"
          by (rule exI)
      next
        assume "\<exists>k. i \<le> k \<and> k < num \<and> itemptr \<in> set (dt_entries (dead_tuples v ! nat k))"
        then obtain k where k: "i \<le> k" "k < num" "itemptr \<in> set (dt_entries (dead_tuples v ! nat k))"
          by blast
        with nf have "k \<noteq> i" by auto
        with k have "i + 1 \<le> k" by simp
        with k show "\<exists>k. i + 1 \<le> k \<and> k < num \<and> itemptr \<in> set (dt_entries (dead_tuples v ! nat k))"
          by blast
      qed
      with step IH show ?thesis by simp
    qed
  qed
qed

text \<open>
  Claim C5.  Provided every partition searched is in range, has its count within its array
  and is sorted by \<^verbatim>\<open>vac_cmp_itemptr\<close>, \<^verbatim>\<open>lazy_tid_reaped\<close> returns true exactly when the TID
  occurs among the recorded entries of one of the partitions it searches: all
  \<^verbatim>\<open>nworkers\<close> partitions in a parallel run, the single partition in a serial run.  The
  comparator is the order by block number first and offset second.
\<close>

theorem C5_lazy_tid_reaped_iff_member:
  assumes "num_partitions v \<le> int (length (dead_tuples v))"
    and "\<forall>k. 0 \<le> k \<and> k < num_partitions v \<longrightarrow>
           0 \<le> n_dt (dead_tuples v ! nat k) \<and>
           nat (n_dt (dead_tuples v ! nat k)) \<le> length (dt_array (dead_tuples v ! nat k)) \<and>
           sorted_wrt (\<lambda>a b. vac_cmp_itemptr a b \<le> 0) (dt_entries (dead_tuples v ! nat k))"
  shows "(lazy_tid_reaped itemptr v \<longleftrightarrow>
            (\<exists>k. 0 \<le> k \<and> k < num_partitions v \<and> itemptr \<in> set (dt_entries (dead_tuples v ! nat k))))
       \<and> (pstate v = None \<longrightarrow> num_partitions v = 1)
       \<and> (\<forall>p. pstate v = Some p \<longrightarrow> num_partitions v = nworkers p)
       \<and> (\<forall>a b. (vac_cmp_itemptr a b < 0 \<longleftrightarrow> tid_less a b)
              \<and> (vac_cmp_itemptr a b = 0 \<longleftrightarrow> a = b)
              \<and> (vac_cmp_itemptr a b > 0 \<longleftrightarrow> tid_less b a))"
proof -
  have "tid_reaped_from itemptr v (num_partitions v) 0 \<longleftrightarrow>
          (\<exists>k. 0 \<le> k \<and> k < num_partitions v \<and> itemptr \<in> set (dt_entries (dead_tuples v ! nat k)))"
    using tid_reaped_from_iff [of "num_partitions v" v 0 itemptr] assms(2) by simp
  moreover have "lazy_tid_reaped itemptr v = tid_reaped_from itemptr v (num_partitions v) 0"
    by (simp add: lazy_tid_reaped_def num_partitions_def)
  ultimately show ?thesis
    by (simp add: num_partitions_def vac_cmp_lt vac_cmp_eq vac_cmp_gt)
qed

theorem C5_lazy_tid_reaped_iff_member_witness:
  "lazy_tid_reaped (tid 3 1)
     (zero_stats 2 [\<lparr>n_dt = 2, dt_array = [tid 1 1, tid 1 2]\<rparr>, \<lparr>n_dt = 1, dt_array = [tid 3 1, tid 0 0]\<rparr>]
        (Some \<lparr>nworkers = 2, vacworkers = []\<rparr>))
   \<and> \<not> lazy_tid_reaped (tid 0 0)
     (zero_stats 2 [\<lparr>n_dt = 2, dt_array = [tid 1 1, tid 1 2]\<rparr>, \<lparr>n_dt = 1, dt_array = [tid 3 1, tid 0 0]\<rparr>]
        (Some \<lparr>nworkers = 2, vacworkers = []\<rparr>))"
proof -
  let ?V = "zero_stats 2 [\<lparr>n_dt = 2, dt_array = [tid 1 1, tid 1 2]\<rparr>, \<lparr>n_dt = 1, dt_array = [tid 3 1, tid 0 0]\<rparr>]
              (Some \<lparr>nworkers = 2, vacworkers = []\<rparr>)"
  have np: "num_partitions ?V = 2"
    by (simp add: zero_stats_def num_partitions_def)
  have d0: "dt_entries (dead_tuples ?V ! nat 0) = [tid 1 1, tid 1 2]"
    by (simp add: zero_stats_def dt_entries_def)
  have d1: "dt_entries (dead_tuples ?V ! nat 1) = [tid 3 1]"
    by (simp add: zero_stats_def dt_entries_def)
  have h1: "num_partitions ?V \<le> int (length (dead_tuples ?V))"
    by (simp add: zero_stats_def num_partitions_def)
  have h2: "\<forall>k. 0 \<le> k \<and> k < num_partitions ?V \<longrightarrow>
           0 \<le> n_dt (dead_tuples ?V ! nat k) \<and>
           nat (n_dt (dead_tuples ?V ! nat k)) \<le> length (dt_array (dead_tuples ?V ! nat k)) \<and>
           sorted_wrt (\<lambda>a b. vac_cmp_itemptr a b \<le> 0) (dt_entries (dead_tuples ?V ! nat k))"
  proof (intro allI impI)
    fix k :: int
    assume "0 \<le> k \<and> k < num_partitions ?V"
    then have "k = 0 \<or> k = 1"
      using np by auto
    then show "0 \<le> n_dt (dead_tuples ?V ! nat k) \<and>
           nat (n_dt (dead_tuples ?V ! nat k)) \<le> length (dt_array (dead_tuples ?V ! nat k)) \<and>
           sorted_wrt (\<lambda>a b. vac_cmp_itemptr a b \<le> 0) (dt_entries (dead_tuples ?V ! nat k))"
    proof
      assume "k = 0"
      then show ?thesis
        using d0 by (simp add: zero_stats_def vac_cmp_le tid_less_def tid_def)
    next
      assume "k = 1"
      then show ?thesis
        using d1 by (simp add: zero_stats_def)
    qed
  qed
  have yes: "\<exists>k. 0 \<le> k \<and> k < num_partitions ?V \<and> tid 3 1 \<in> set (dt_entries (dead_tuples ?V ! nat k))"
    using np d1 by (intro exI [of _ 1]) simp
  have no: "\<not> (\<exists>k. 0 \<le> k \<and> k < num_partitions ?V \<and> tid 0 0 \<in> set (dt_entries (dead_tuples ?V ! nat k)))"
  proof
    assume "\<exists>k. 0 \<le> k \<and> k < num_partitions ?V \<and> tid 0 0 \<in> set (dt_entries (dead_tuples ?V ! nat k))"
    then obtain k where k: "0 \<le> k" "k < num_partitions ?V"
      "tid 0 0 \<in> set (dt_entries (dead_tuples ?V ! nat k))" by blast
    then have "k = 0 \<or> k = 1" using np by auto
    then show False
      using k(3) d0 d1 by (auto simp: tid_def)
  qed
  show ?thesis
    using C5_lazy_tid_reaped_iff_member [OF h1 h2, of "tid 3 1"]
          C5_lazy_tid_reaped_iff_member [OF h1 h2, of "tid 0 0"] yes no
    by blast
qed

subsection \<open>Page and visibility-map reconciliation\<close>

lemma vm_or_visible: "(x OR VISIBILITYMAP_ALL_VISIBLE) AND VISIBILITYMAP_ALL_VISIBLE \<noteq> 0"
  by (simp add: VISIBILITYMAP_ALL_VISIBLE_def word_ao_absorbs)

lemma vm_or_frozen: "(x OR VISIBILITYMAP_ALL_FROZEN) AND VISIBILITYMAP_ALL_FROZEN \<noteq> 0"
  by (simp add: VISIBILITYMAP_ALL_FROZEN_def word_ao_absorbs)

lemma word8_or_and_left: "(x OR (y OR z)) AND y = (y :: 8 word)"
  by (simp add: bit_eq_iff bit_and_iff bit_or_iff) blast

lemma word8_or_and_right: "(x OR (y OR z)) AND z = (z :: 8 word)"
  by (simp add: bit_eq_iff bit_and_iff bit_or_iff) blast

lemma vm_clear_visible: "(x AND NOT VISIBILITYMAP_VALID_BITS) AND VISIBILITYMAP_ALL_VISIBLE = 0"
  by (simp add: VISIBILITYMAP_VALID_BITS_def VISIBILITYMAP_ALL_VISIBLE_def and.assoc)

lemma vm_clear_frozen: "(x AND NOT VISIBILITYMAP_VALID_BITS) AND VISIBILITYMAP_ALL_FROZEN = 0"
  by (simp add: VISIBILITYMAP_VALID_BITS_def VISIBILITYMAP_ALL_FROZEN_def and.assoc)

lemma vm_flag_nonzero: "VISIBILITYMAP_ALL_VISIBLE \<noteq> 0" "VISIBILITYMAP_ALL_FROZEN \<noteq> 0"
  by (simp_all add: VISIBILITYMAP_ALL_VISIBLE_def VISIBILITYMAP_ALL_FROZEN_def)

lemma vm_update_rule1:
  assumes "vm_rule1 av avm"
  shows "lazy_scan_heap_vm_update av af avm dead cutoff s =
           s\<lparr>pd_all_visible := True, buffer_dirty := True,
             vm_status := vm_status s OR
                (if af then VISIBILITYMAP_ALL_VISIBLE OR VISIBILITYMAP_ALL_FROZEN
                 else VISIBILITYMAP_ALL_VISIBLE),
             vm_set_calls := vm_set_calls s @
                [(cutoff, if af then VISIBILITYMAP_ALL_VISIBLE OR VISIBILITYMAP_ALL_FROZEN
                          else VISIBILITYMAP_ALL_VISIBLE)]\<rparr>"
  using assms
  by (simp add: lazy_scan_heap_vm_update_def vm_rule1_def Let_def visibilitymap_set_def
        MarkBufferDirty_def PageSetAllVisible_def)

lemma vm_update_rule2:
  assumes "vm_rule2 av avm s"
  shows "lazy_scan_heap_vm_update av af avm dead cutoff s =
           s\<lparr>warnings := warnings s @ [''page is not marked all-visible but visibility map bit is set''],
             vm_status := vm_status s AND NOT VISIBILITYMAP_VALID_BITS\<rparr>"
  using assms
  by (auto simp: lazy_scan_heap_vm_update_def vm_rule2_def vm_rule1_def visibilitymap_clear_def
        elog_WARNING_def)

lemma vm_update_rule3:
  assumes "vm_rule3 av avm dead s"
  shows "lazy_scan_heap_vm_update av af avm dead cutoff s =
           s\<lparr>warnings := warnings s @ [''page containing dead tuples is marked as all-visible''],
             pd_all_visible := False, buffer_dirty := True,
             vm_status := vm_status s AND NOT VISIBILITYMAP_VALID_BITS\<rparr>"
  using assms
  by (auto simp: lazy_scan_heap_vm_update_def vm_rule3_def vm_rule2_def vm_rule1_def
        visibilitymap_clear_def elog_WARNING_def MarkBufferDirty_def PageClearAllVisible_def
        PageIsAllVisible_def)

lemma vm_update_rule4:
  assumes "vm_rule4 av af avm dead s"
  shows "lazy_scan_heap_vm_update av af avm dead cutoff s =
           s\<lparr>vm_status := vm_status s OR VISIBILITYMAP_ALL_FROZEN,
             vm_set_calls := vm_set_calls s @ [(InvalidTransactionId, VISIBILITYMAP_ALL_FROZEN)]\<rparr>"
  using assms
  by (auto simp: lazy_scan_heap_vm_update_def vm_rule4_def vm_rule3_def vm_rule2_def vm_rule1_def
        visibilitymap_set_def PageIsAllVisible_def)

lemma vm_update_none:
  assumes "\<not> vm_rule1 av avm" "\<not> vm_rule2 av avm s" "\<not> vm_rule3 av avm dead s"
    "\<not> vm_rule4 av af avm dead s"
  shows "lazy_scan_heap_vm_update av af avm dead cutoff s = s"
  using assms
  by (auto simp: lazy_scan_heap_vm_update_def vm_rule4_def vm_rule3_def vm_rule2_def vm_rule1_def)

text \<open>
  The reconciliation chain in terms of the local \<^verbatim>\<open>all_visible_according_to_vm\<close> on which
  the code decides.  At most one of four rules applies, tried in order.  (1) The page was
  computed all-visible and the local is false: the page flag is set, the buffer dirtied,
  and the map's all-visible bit set, together with its all-frozen bit when the page is
  all-frozen, under the page's cutoff xid.  (2) Otherwise, the local is true, the map
  claims all-visible and the page flag is clear: a warning is logged and both map bits are
  cleared.  (3) Otherwise, the page flag is set and dead tuples were found: a warning is
  logged, the page flag is cleared and both map bits are cleared.  (4) Otherwise, the page
  is all-visible and all-frozen and the map lacks the frozen bit: the frozen bit is set
  with \<^verbatim>\<open>InvalidTransactionId\<close> as the cutoff, and nothing else changes.  When no rule
  applies nothing changes.
\<close>

lemma vm_update_chain:
  "(vm_rule1 av avm \<longrightarrow>
      PageIsAllVisible (lazy_scan_heap_vm_update av af avm dead cutoff s) \<and>
      VM_ALL_VISIBLE (lazy_scan_heap_vm_update av af avm dead cutoff s) \<and>
      (af \<longrightarrow> VM_ALL_FROZEN (lazy_scan_heap_vm_update av af avm dead cutoff s)) \<and>
      vm_set_calls (lazy_scan_heap_vm_update av af avm dead cutoff s) = vm_set_calls s @
        [(cutoff, if af then VISIBILITYMAP_ALL_VISIBLE OR VISIBILITYMAP_ALL_FROZEN
                  else VISIBILITYMAP_ALL_VISIBLE)] \<and>
      warnings (lazy_scan_heap_vm_update av af avm dead cutoff s) = warnings s)
   \<and> (vm_rule2 av avm s \<longrightarrow>
      warnings (lazy_scan_heap_vm_update av af avm dead cutoff s) =
        warnings s @ [''page is not marked all-visible but visibility map bit is set''] \<and>
      \<not> VM_ALL_VISIBLE (lazy_scan_heap_vm_update av af avm dead cutoff s) \<and>
      \<not> VM_ALL_FROZEN (lazy_scan_heap_vm_update av af avm dead cutoff s) \<and>
      \<not> PageIsAllVisible (lazy_scan_heap_vm_update av af avm dead cutoff s) \<and>
      vm_set_calls (lazy_scan_heap_vm_update av af avm dead cutoff s) = vm_set_calls s)
   \<and> (vm_rule3 av avm dead s \<longrightarrow>
      warnings (lazy_scan_heap_vm_update av af avm dead cutoff s) =
        warnings s @ [''page containing dead tuples is marked as all-visible''] \<and>
      \<not> PageIsAllVisible (lazy_scan_heap_vm_update av af avm dead cutoff s) \<and>
      \<not> VM_ALL_VISIBLE (lazy_scan_heap_vm_update av af avm dead cutoff s) \<and>
      \<not> VM_ALL_FROZEN (lazy_scan_heap_vm_update av af avm dead cutoff s) \<and>
      vm_set_calls (lazy_scan_heap_vm_update av af avm dead cutoff s) = vm_set_calls s)
   \<and> (vm_rule4 av af avm dead s \<longrightarrow>
      VM_ALL_FROZEN (lazy_scan_heap_vm_update av af avm dead cutoff s) \<and>
      vm_set_calls (lazy_scan_heap_vm_update av af avm dead cutoff s) =
        vm_set_calls s @ [(InvalidTransactionId, VISIBILITYMAP_ALL_FROZEN)] \<and>
      lazy_scan_heap_vm_update av af avm dead cutoff s =
        s\<lparr>vm_status := vm_status s OR VISIBILITYMAP_ALL_FROZEN,
          vm_set_calls := vm_set_calls s @ [(InvalidTransactionId, VISIBILITYMAP_ALL_FROZEN)]\<rparr>)
   \<and> (\<not> vm_rule1 av avm \<and> \<not> vm_rule2 av avm s \<and> \<not> vm_rule3 av avm dead s \<and>
        \<not> vm_rule4 av af avm dead s \<longrightarrow>
      lazy_scan_heap_vm_update av af avm dead cutoff s = s)
   \<and> \<not> (vm_rule1 av avm \<and> vm_rule2 av avm s) \<and> \<not> (vm_rule1 av avm \<and> vm_rule3 av avm dead s)
   \<and> \<not> (vm_rule1 av avm \<and> vm_rule4 av af avm dead s)
   \<and> \<not> (vm_rule2 av avm s \<and> vm_rule3 av avm dead s)
   \<and> \<not> (vm_rule2 av avm s \<and> vm_rule4 av af avm dead s)
   \<and> \<not> (vm_rule3 av avm dead s \<and> vm_rule4 av af avm dead s)"
proof -
  have r1: "vm_rule1 av avm \<longrightarrow>
      PageIsAllVisible (lazy_scan_heap_vm_update av af avm dead cutoff s) \<and>
      VM_ALL_VISIBLE (lazy_scan_heap_vm_update av af avm dead cutoff s) \<and>
      (af \<longrightarrow> VM_ALL_FROZEN (lazy_scan_heap_vm_update av af avm dead cutoff s)) \<and>
      vm_set_calls (lazy_scan_heap_vm_update av af avm dead cutoff s) = vm_set_calls s @
        [(cutoff, if af then VISIBILITYMAP_ALL_VISIBLE OR VISIBILITYMAP_ALL_FROZEN
                  else VISIBILITYMAP_ALL_VISIBLE)] \<and>
      warnings (lazy_scan_heap_vm_update av af avm dead cutoff s) = warnings s"
    by (simp add: vm_update_rule1 PageIsAllVisible_def VM_ALL_VISIBLE_def VM_ALL_FROZEN_def
          vm_or_visible word8_or_and_left word8_or_and_right vm_flag_nonzero)
  have r2: "vm_rule2 av avm s \<longrightarrow>
      warnings (lazy_scan_heap_vm_update av af avm dead cutoff s) =
        warnings s @ [''page is not marked all-visible but visibility map bit is set''] \<and>
      \<not> VM_ALL_VISIBLE (lazy_scan_heap_vm_update av af avm dead cutoff s) \<and>
      \<not> VM_ALL_FROZEN (lazy_scan_heap_vm_update av af avm dead cutoff s) \<and>
      \<not> PageIsAllVisible (lazy_scan_heap_vm_update av af avm dead cutoff s) \<and>
      vm_set_calls (lazy_scan_heap_vm_update av af avm dead cutoff s) = vm_set_calls s"
  proof
    assume a: "vm_rule2 av avm s"
    then have "\<not> pd_all_visible s"
      by (simp add: vm_rule2_def PageIsAllVisible_def)
    then show "warnings (lazy_scan_heap_vm_update av af avm dead cutoff s) =
        warnings s @ [''page is not marked all-visible but visibility map bit is set''] \<and>
      \<not> VM_ALL_VISIBLE (lazy_scan_heap_vm_update av af avm dead cutoff s) \<and>
      \<not> VM_ALL_FROZEN (lazy_scan_heap_vm_update av af avm dead cutoff s) \<and>
      \<not> PageIsAllVisible (lazy_scan_heap_vm_update av af avm dead cutoff s) \<and>
      vm_set_calls (lazy_scan_heap_vm_update av af avm dead cutoff s) = vm_set_calls s"
      by (simp add: vm_update_rule2 [OF a] PageIsAllVisible_def VM_ALL_VISIBLE_def
            VM_ALL_FROZEN_def vm_clear_visible vm_clear_frozen)
  qed
  have r3: "vm_rule3 av avm dead s \<longrightarrow>
      warnings (lazy_scan_heap_vm_update av af avm dead cutoff s) =
        warnings s @ [''page containing dead tuples is marked as all-visible''] \<and>
      \<not> PageIsAllVisible (lazy_scan_heap_vm_update av af avm dead cutoff s) \<and>
      \<not> VM_ALL_VISIBLE (lazy_scan_heap_vm_update av af avm dead cutoff s) \<and>
      \<not> VM_ALL_FROZEN (lazy_scan_heap_vm_update av af avm dead cutoff s) \<and>
      vm_set_calls (lazy_scan_heap_vm_update av af avm dead cutoff s) = vm_set_calls s"
    by (simp add: vm_update_rule3 PageIsAllVisible_def VM_ALL_VISIBLE_def
          VM_ALL_FROZEN_def vm_clear_visible vm_clear_frozen)
  have r4: "vm_rule4 av af avm dead s \<longrightarrow>
      VM_ALL_FROZEN (lazy_scan_heap_vm_update av af avm dead cutoff s) \<and>
      vm_set_calls (lazy_scan_heap_vm_update av af avm dead cutoff s) =
        vm_set_calls s @ [(InvalidTransactionId, VISIBILITYMAP_ALL_FROZEN)] \<and>
      lazy_scan_heap_vm_update av af avm dead cutoff s =
        s\<lparr>vm_status := vm_status s OR VISIBILITYMAP_ALL_FROZEN,
          vm_set_calls := vm_set_calls s @ [(InvalidTransactionId, VISIBILITYMAP_ALL_FROZEN)]\<rparr>"
    by (simp add: vm_update_rule4 VM_ALL_FROZEN_def vm_or_frozen vm_flag_nonzero)
  have r5: "\<not> vm_rule1 av avm \<and> \<not> vm_rule2 av avm s \<and> \<not> vm_rule3 av avm dead s \<and>
        \<not> vm_rule4 av af avm dead s \<longrightarrow>
      lazy_scan_heap_vm_update av af avm dead cutoff s = s"
    by (simp add: vm_update_none)
  have ex: "\<not> (vm_rule1 av avm \<and> vm_rule2 av avm s) \<and> \<not> (vm_rule1 av avm \<and> vm_rule3 av avm dead s)
   \<and> \<not> (vm_rule1 av avm \<and> vm_rule4 av af avm dead s)
   \<and> \<not> (vm_rule2 av avm s \<and> vm_rule3 av avm dead s)
   \<and> \<not> (vm_rule2 av avm s \<and> vm_rule4 av af avm dead s)
   \<and> \<not> (vm_rule3 av avm dead s \<and> vm_rule4 av af avm dead s)"
    by (auto simp: vm_rule4_def vm_rule3_def vm_rule2_def)
  from r1 r2 r3 r4 r5 ex show ?thesis by blast
qed

text \<open>
  Claim C6, at a failing input.  A serial, non-aggressive run over a relation of two pages;
  the map has page 0 all-visible and all-frozen and page 1 clear.  The local
  \<^verbatim>\<open>all_visible_according_to_vm\<close> of \<^verbatim>\<open>lazy_scan_heap\<close> is declared without a value (\<open>avm0\<close>),
  and the serial branch of \<^verbatim>\<open>lazy_scan_heap_get_nextpage\<close> only ever stores true into it.
  The first call returns page 0 and stores true; the second call returns page 1 and
  leaves the local as it is, although the map does not claim page 1.  Page 1, whose page
  flag is clear, is then computed all-visible and all-frozen: rule (1) does not fire, the
  page flag and the map's all-visible bit stay clear, and rule (4) sets the frozen bit
  alone.
\<close>

theorem C6_serial_stale_map_claim:
  "(let vm = (\<lambda>b. if b = 0 then VISIBILITYMAP_ALL_VISIBLE OR VISIBILITYMAP_ALL_FROZEN else 0);
        V = (zero_stats 0 [] None)\<lparr>rel_pages := 2\<rparr>
    in case lazy_scan_heap_get_nextpage (- 1) vm V (lv_beginscan V None) avm0 0 False of
         (blk1, scan1, V1, avm1) \<Rightarrow>
           (case lazy_scan_heap_get_nextpage (- 1) vm
                   (V1\<lparr>scanned_pages := scanned_pages V1 + 1\<rparr>) scan1 avm1 0 False of
              (blk2, scan2, V2, avm2) \<Rightarrow>
                (let s = \<lparr>pd_all_visible = False, buffer_dirty = False,
                          vm_status = visibilitymap_get_status vm blk2,
                          warnings = [], vm_set_calls = []\<rparr>;
                     s' = lazy_scan_heap_vm_update True True avm2 False 7 s
                 in blk1 = 0 \<and> avm1 \<and> blk2 = 1 \<and> avm2 \<and>
                    \<not> VM_ALL_VISIBLE s \<and>
                    \<not> PageIsAllVisible s' \<and> \<not> VM_ALL_VISIBLE s' \<and> VM_ALL_FROZEN s' \<and>
                    s' = s\<lparr>vm_status := VISIBILITYMAP_ALL_FROZEN,
                           vm_set_calls := [(InvalidTransactionId, VISIBILITYMAP_ALL_FROZEN)]\<rparr>)))"
proof -
  let ?vm = "\<lambda>b :: BlockNumber. if b = 0 then VISIBILITYMAP_ALL_VISIBLE OR VISIBILITYMAP_ALL_FROZEN
                                  else (0 :: 8 word)"
  let ?V = "(zero_stats 0 [] None)\<lparr>rel_pages := 2\<rparr>"
  let ?scan1 = "\<lparr>lv_cblock = 1, lv_next_unskippable_block = 1, lv_nblocks = 2,
                 heapscan = None\<rparr>"
  let ?scan2 = "\<lparr>lv_cblock = 2, lv_next_unskippable_block = 2, lv_nblocks = 2,
                 heapscan = None\<rparr>"
  have adv0: "advance_unskippable ?vm False 2 0 = 1"
    by (simp add: advance_unskippable.simps visibilitymap_get_status_def
          VISIBILITYMAP_ALL_VISIBLE_def VISIBILITYMAP_ALL_FROZEN_def)
  have adv2: "advance_unskippable ?vm False 2 2 = 2"
    by (simp add: advance_unskippable.simps)
  have short: "\<not> SKIP_PAGES_THRESHOLD \<le> 1"
    by (simp add: SKIP_PAGES_THRESHOLD_def word_le_nat_alt)
  have r1: "lazy_scan_heap_get_nextpage (- 1) ?vm ?V (lv_beginscan ?V None) avm0 0 False
            = (0, ?scan1, ?V, True)"
    by (simp add: lazy_scan_heap_get_nextpage_def lv_beginscan_def zero_stats_def adv0
          nextpage_serial_for.simps short Let_def)
  have r2: "lazy_scan_heap_get_nextpage (- 1) ?vm (?V\<lparr>scanned_pages := scanned_pages ?V + 1\<rparr>)
              ?scan1 True 0 False
            = (1, ?scan2, ?V\<lparr>scanned_pages := scanned_pages ?V + 1\<rparr>, True)"
    by (simp add: lazy_scan_heap_get_nextpage_def zero_stats_def adv2
          nextpage_serial_for.simps VACOPT_DISABLE_PAGE_SKIPPING_def Let_def)
  have upd: "lazy_scan_heap_vm_update True True True False 7
               \<lparr>pd_all_visible = False, buffer_dirty = False, vm_status = 0,
                warnings = [], vm_set_calls = []\<rparr>
             = \<lparr>pd_all_visible = False, buffer_dirty = False, vm_status = VISIBILITYMAP_ALL_FROZEN,
                warnings = [], vm_set_calls = [(InvalidTransactionId, VISIBILITYMAP_ALL_FROZEN)]\<rparr>"
    by (simp add: lazy_scan_heap_vm_update_def visibilitymap_set_def PageIsAllVisible_def
          VM_ALL_VISIBLE_def VM_ALL_FROZEN_def VISIBILITYMAP_ALL_VISIBLE_def
          VISIBILITYMAP_ALL_FROZEN_def)
  show ?thesis
    unfolding Let_def r1 prod.case r2
    by (simp add: visibilitymap_get_status_def upd PageIsAllVisible_def VM_ALL_VISIBLE_def
          VM_ALL_FROZEN_def VISIBILITYMAP_ALL_VISIBLE_def VISIBILITYMAP_ALL_FROZEN_def)
qed

subsection \<open>Final catalog statistics\<close>

text \<open>
  Claim C10.  When the heap scan examined no page (\<^verbatim>\<open>scanned_pages = 0\<close>) although the
  relation has at least one, \<^verbatim>\<open>lazy_vacuum_rel\<close> reports the previous \<^verbatim>\<open>relpages\<close> and
  \<^verbatim>\<open>reltuples\<close> in place of the freshly computed ones; otherwise it reports the fresh ones.
  In every run the all-visible page count it reports is the visibility map's count cut
  down to the page count it reports, so it never exceeds that page count.
\<close>

theorem C10_final_relstats:
  "(scanned_pages v = 0 \<and> rel_pages v > 0 \<longrightarrow>
      num_pages (lazy_vacuum_rel_update v vm_count sau fl mc) = old_rel_pages v \<and>
      num_tuples (lazy_vacuum_rel_update v vm_count sau fl mc) = old_rel_tuples v)
   \<and> (\<not> (scanned_pages v = 0 \<and> rel_pages v > 0) \<longrightarrow>
      num_pages (lazy_vacuum_rel_update v vm_count sau fl mc) = rel_pages v \<and>
      num_tuples (lazy_vacuum_rel_update v vm_count sau fl mc) = new_rel_tuples v)
   \<and> num_all_visible_pages (lazy_vacuum_rel_update v vm_count sau fl mc)
        = min vm_count (num_pages (lazy_vacuum_rel_update v vm_count sau fl mc))
   \<and> num_all_visible_pages (lazy_vacuum_rel_update v vm_count sau fl mc)
        \<le> num_pages (lazy_vacuum_rel_update v vm_count sau fl mc)"
  by (auto simp: lazy_vacuum_rel_update_def Let_def min_def)

theorem C10_final_relstats_witness:
  "num_pages (lazy_vacuum_rel_update
       ((zero_stats 0 [] None)\<lparr>rel_pages := 10, old_rel_pages := 8, old_rel_tuples := 80,
                                new_rel_tuples := 95\<rparr>) 10 False 0 0) = 8
   \<and> num_tuples (lazy_vacuum_rel_update
       ((zero_stats 0 [] None)\<lparr>rel_pages := 10, old_rel_pages := 8, old_rel_tuples := 80,
                                new_rel_tuples := 95\<rparr>) 10 False 0 0) = 80
   \<and> num_all_visible_pages (lazy_vacuum_rel_update
       ((zero_stats 0 [] None)\<lparr>rel_pages := 10, old_rel_pages := 8, old_rel_tuples := 80,
                                new_rel_tuples := 95\<rparr>) 10 False 0 0) = 8
   \<and> num_pages (lazy_vacuum_rel_update
       ((zero_stats 0 [] None)\<lparr>rel_pages := 10, scanned_pages := 4, old_rel_pages := 8,
                                old_rel_tuples := 80, new_rel_tuples := 95\<rparr>) 10 False 0 0) = 10
   \<and> num_tuples (lazy_vacuum_rel_update
       ((zero_stats 0 [] None)\<lparr>rel_pages := 10, scanned_pages := 4, old_rel_pages := 8,
                                old_rel_tuples := 80, new_rel_tuples := 95\<rparr>) 10 False 0 0) = 95"
proof -
  let ?v = "(zero_stats 0 [] None)\<lparr>rel_pages := 10, old_rel_pages := 8, old_rel_tuples := 80,
                                     new_rel_tuples := 95\<rparr>"
  let ?w = "(zero_stats 0 [] None)\<lparr>rel_pages := 10, scanned_pages := 4, old_rel_pages := 8,
                                     old_rel_tuples := 80, new_rel_tuples := 95\<rparr>"
  have h1: "scanned_pages ?v = 0 \<and> rel_pages ?v > 0"
    by (simp add: zero_stats_def)
  have h2: "\<not> (scanned_pages ?w = 0 \<and> rel_pages ?w > 0)"
    by (simp add: zero_stats_def)
  have e: "old_rel_pages ?v = 8" "old_rel_tuples ?v = 80" "rel_pages ?w = 10" "new_rel_tuples ?w = 95"
    by (simp_all add: zero_stats_def)
  show ?thesis
    using h1 h2 e
      C10_final_relstats [where v = ?v and vm_count = 10 and sau = False and fl = 0 and mc = 0]
      C10_final_relstats [where v = ?w and vm_count = 10 and sau = False and fl = 0 and mc = 0]
    by simp
qed

subsection \<open>The Prepared barrier\<close>

text \<open>What one worker contributes to the count of \<^verbatim>\<open>lazy_check_vacstate_prepared\<close>.\<close>

lemma countable_prepared_valid:
  assumes "valid_vacstate st"
  shows "st AND (VACSTATE_VACUUM_PREPARED OR VACSTATE_VACUUMING OR VACSTATE_VACUUM_FINISHED) \<noteq> 0
         \<longleftrightarrow> st \<in> {VACSTATE_VACUUM_PREPARED, VACSTATE_VACUUMING, VACSTATE_VACUUM_FINISHED}"
  using assms
  by (auto simp: valid_vacstate_def VACSTATE_STARTUP_def VACSTATE_SCANNING_def
        VACSTATE_VACUUM_PREPARED_def VACSTATE_VACUUMING_def VACSTATE_VACUUM_FINISHED_def
        VACSTATE_COMPLETE_def)

lemma all_from_split:
  fixes i n :: int
  assumes "i < n"
  shows "(\<forall>k. i \<le> k \<and> k < n \<longrightarrow> P k) \<longleftrightarrow> P i \<and> (\<forall>k. i + 1 \<le> k \<and> k < n \<longrightarrow> P k)"
proof
  assume L: "\<forall>k. i \<le> k \<and> k < n \<longrightarrow> P k"
  have "P i" using L assms by simp
  moreover have "\<forall>k. i + 1 \<le> k \<and> k < n \<longrightarrow> P k" using L by simp
  ultimately show "P i \<and> (\<forall>k. i + 1 \<le> k \<and> k < n \<longrightarrow> P k)" by simp
next
  assume R: "P i \<and> (\<forall>k. i + 1 \<le> k \<and> k < n \<longrightarrow> P k)"
  show "\<forall>k. i \<le> k \<and> k < n \<longrightarrow> P k"
  proof (intro allI impI)
    fix k assume k: "i \<le> k \<and> k < n"
    show "P k"
    proof (cases "k = i")
      case True
      with R show ?thesis by simp
    next
      case False
      with k have "i + 1 \<le> k \<and> k < n" by simp
      with R show ?thesis by blast
    qed
  qed
qed

lemma check_prepared_loop_count:
  "0 \<le> i \<Longrightarrow> i \<le> nworkers ps \<Longrightarrow> check_prepared_loop ps r i a b = (a', b') \<Longrightarrow>
   a' + b' \<le> a + b + (nworkers ps - i) \<and>
   (a' + b' = a + b + (nworkers ps - i) \<longleftrightarrow>
      (\<forall>k. i \<le> k \<and> k < nworkers ps \<longrightarrow>
         (state (vacworkers ps ! nat k) AND
            (VACSTATE_VACUUM_PREPARED OR VACSTATE_VACUUMING OR VACSTATE_VACUUM_FINISHED) \<noteq> 0
          \<and> round (vacworkers ps ! nat k) = r)
         \<or> state (vacworkers ps ! nat k) = VACSTATE_COMPLETE))"
proof (induction ps r i a b rule: check_prepared_loop.induct)
  case (1 ps r i a b)
  note unf = check_prepared_loop.simps [of ps r i a b]
  let ?cnt = "\<lambda>k. (state (vacworkers ps ! nat k) AND
            (VACSTATE_VACUUM_PREPARED OR VACSTATE_VACUUMING OR VACSTATE_VACUUM_FINISHED) \<noteq> 0
          \<and> round (vacworkers ps ! nat k) = r)"
  let ?cmp = "\<lambda>k. state (vacworkers ps ! nat k) = VACSTATE_COMPLETE"
  show ?case
  proof (cases "i < nworkers ps")
    case False
    then have "i = nworkers ps" using "1.prems" by simp
    moreover have "a' = a \<and> b' = b" using False unf "1.prems" by simp
    ultimately show ?thesis by auto
  next
    case True
    have split: "(\<forall>k. i \<le> k \<and> k < nworkers ps \<longrightarrow> ?cnt k \<or> ?cmp k) \<longleftrightarrow>
                 (?cnt i \<or> ?cmp i) \<and> (\<forall>k. i + 1 \<le> k \<and> k < nworkers ps \<longrightarrow> ?cnt k \<or> ?cmp k)"
      by (rule all_from_split [OF True])
    have i1: "0 \<le> i + 1" "i + 1 \<le> nworkers ps" using True "1.prems" by simp_all
    define Q where "Q \<longleftrightarrow> (\<forall>k. i + 1 \<le> k \<and> k < nworkers ps \<longrightarrow> ?cnt k \<or> ?cmp k)"
    define T where "T = a + b + (nworkers ps - i)"
    have T1: "a + 1 + b + (nworkers ps - (i + 1)) = T" "a + (b + 1) + (nworkers ps - (i + 1)) = T"
      and T3: "a + b + (nworkers ps - (i + 1)) = T - 1"
      by (simp_all add: T_def)
    consider (c1) "?cnt i" | (c2) "\<not> ?cnt i" "?cmp i" | (c3) "\<not> ?cnt i" "\<not> ?cmp i"
      by blast
    then have "a' + b' \<le> T \<and> (a' + b' = T \<longleftrightarrow> (?cnt i \<or> ?cmp i) \<and> Q)"
    proof cases
      case c1
      then have "check_prepared_loop ps r (i + 1) (a + 1) b = (a', b')"
        using True unf "1.prems"(3) by (auto simp: Let_def)
      from "1.IH"(1) [OF True refl refl refl _ i1 this] c1
      have "a' + b' \<le> a + 1 + b + (nworkers ps - (i + 1)) \<and>
            (a' + b' = a + 1 + b + (nworkers ps - (i + 1)) \<longleftrightarrow> Q)"
        by (simp add: Q_def)
      then show ?thesis using c1 by (simp only: T1) simp
    next
      case c2
      then have "check_prepared_loop ps r (i + 1) a (b + 1) = (a', b')"
        using True unf "1.prems"(3) by (auto simp: Let_def)
      from "1.IH"(2) [OF True refl refl refl _ _ i1 this] c2
      have "a' + b' \<le> a + (b + 1) + (nworkers ps - (i + 1)) \<and>
            (a' + b' = a + (b + 1) + (nworkers ps - (i + 1)) \<longleftrightarrow> Q)"
        by (simp add: Q_def)
      then show ?thesis using c2 by (simp only: T1) simp
    next
      case c3
      then have "check_prepared_loop ps r (i + 1) a b = (a', b')"
        using True unf "1.prems"(3) by (auto simp: Let_def)
      from "1.IH"(3) [OF True refl refl refl _ _ i1 this] c3
      have "a' + b' \<le> a + b + (nworkers ps - (i + 1))"
        by (simp add: Q_def)
      then have "a' + b' \<le> T - 1" by (simp only: T3)
      then show ?thesis using c3 by auto
    qed
    then show ?thesis
      using split by (simp only: T_def Q_def) 
  qed
qed

lemma all_index_iff_set:
  assumes "pstate_wf ps"
  shows "(\<forall>k. 0 \<le> k \<and> k < nworkers ps \<longrightarrow> P (vacworkers ps ! nat k)) \<longleftrightarrow>
         (\<forall>w \<in> set (vacworkers ps). P w)"
proof
  assume L: "\<forall>k. 0 \<le> k \<and> k < nworkers ps \<longrightarrow> P (vacworkers ps ! nat k)"
  show "\<forall>w \<in> set (vacworkers ps). P w"
  proof
    fix w assume "w \<in> set (vacworkers ps)"
    then obtain n where n: "n < length (vacworkers ps)" "vacworkers ps ! n = w"
      by (auto simp: in_set_conv_nth)
    then have "0 \<le> int n \<and> int n < nworkers ps"
      using assms by (simp add: pstate_wf_def)
    with L have "P (vacworkers ps ! nat (int n))" by blast
    with n show "P w" by simp
  qed
next
  assume R: "\<forall>w \<in> set (vacworkers ps). P w"
  show "\<forall>k. 0 \<le> k \<and> k < nworkers ps \<longrightarrow> P (vacworkers ps ! nat k)"
  proof (intro allI impI)
    fix k assume "0 \<le> k \<and> k < nworkers ps"
    then have "nat k < length (vacworkers ps)"
      using assms by (simp add: pstate_wf_def)
    then have "vacworkers ps ! nat k \<in> set (vacworkers ps)" by simp
    with R show "P (vacworkers ps ! nat k)" by blast
  qed
qed

lemma check_prepared_iff_quorum:
  assumes "pstate_ok ps"
  shows "lazy_check_vacstate_prepared ps r \<longleftrightarrow> prepared_quorum ps r"
proof -
  have wf: "pstate_wf ps" using assms by (simp add: pstate_ok_def)
  obtain a' b' where ab: "check_prepared_loop ps r 0 0 0 = (a', b')"
    by (cases "check_prepared_loop ps r 0 0 0")
  have n0: "(0::int) \<le> 0" "0 \<le> nworkers ps"
    using wf by (simp_all add: pstate_wf_def)
  from check_prepared_loop_count [OF n0 ab]
  have "a' + b' = nworkers ps \<longleftrightarrow>
      (\<forall>k. 0 \<le> k \<and> k < nworkers ps \<longrightarrow>
         (state (vacworkers ps ! nat k) AND
            (VACSTATE_VACUUM_PREPARED OR VACSTATE_VACUUMING OR VACSTATE_VACUUM_FINISHED) \<noteq> 0
          \<and> round (vacworkers ps ! nat k) = r)
         \<or> state (vacworkers ps ! nat k) = VACSTATE_COMPLETE)"
    by simp
  also have "\<dots> \<longleftrightarrow> (\<forall>w \<in> set (vacworkers ps).
         (state w AND
            (VACSTATE_VACUUM_PREPARED OR VACSTATE_VACUUMING OR VACSTATE_VACUUM_FINISHED) \<noteq> 0
          \<and> round w = r)
         \<or> state w = VACSTATE_COMPLETE)"
    by (rule all_index_iff_set [OF wf])
  also have "\<dots> \<longleftrightarrow> prepared_quorum ps r"
    unfolding prepared_quorum_def
  proof (rule ball_cong [OF refl])
    fix w assume "w \<in> set (vacworkers ps)"
    then have "valid_vacstate (state w)"
      using assms by (simp add: pstate_ok_def)
    from countable_prepared_valid [OF this]
    show "((state w AND
            (VACSTATE_VACUUM_PREPARED OR VACSTATE_VACUUMING OR VACSTATE_VACUUM_FINISHED) \<noteq> 0
          \<and> round w = r)
         \<or> state w = VACSTATE_COMPLETE) \<longleftrightarrow>
         ((state w \<in> {VACSTATE_VACUUM_PREPARED, VACSTATE_VACUUMING, VACSTATE_VACUUM_FINISHED}
           \<and> round w = r)
        \<or> state w = VACSTATE_COMPLETE)"
      by simp
  qed
  finally show ?thesis
    using ab by (simp add: lazy_check_vacstate_prepared_def)
qed

lemma seen_at_Cons:
  "seen_at (f # env) p 0 = f p" "seen_at (f # env) p (Suc k) = seen_at env (f p) k"
  by (simp_all add: seen_at_def)

lemma wait_prepared_loop_None:
  "wait_prepared_loop env p r = None \<longleftrightarrow>
     (\<forall>k<length env. \<not> lazy_check_vacstate_prepared (seen_at env p k) r)"
proof (induction env arbitrary: p)
  case Nil
  then show ?case by simp
next
  case (Cons f env)
  have "(\<forall>k<length (f # env). \<not> lazy_check_vacstate_prepared (seen_at (f # env) p k) r) \<longleftrightarrow>
        \<not> lazy_check_vacstate_prepared (f p) r \<and>
        (\<forall>k<length env. \<not> lazy_check_vacstate_prepared (seen_at env (f p) k) r)"
    by (simp add: All_less_Suc2 seen_at_Cons)
  then show ?case
    using Cons.IH [of "f p"] by simp
qed

lemma wait_prepared_loop_Some:
  "wait_prepared_loop env p r = Some q \<Longrightarrow>
     \<exists>k<length env. q = seen_at env p k \<and> lazy_check_vacstate_prepared q r \<and>
        (\<forall>j<k. \<not> lazy_check_vacstate_prepared (seen_at env p j) r)"
proof (induction env arbitrary: p)
  case Nil
  then show ?case by simp
next
  case (Cons f env)
  show ?case
  proof (cases "lazy_check_vacstate_prepared (f p) r")
    case True
    then have "q = f p" using Cons.prems by simp
    with True show ?thesis
      by (intro exI [of _ 0]) (simp add: seen_at_Cons)
  next
    case False
    then have "wait_prepared_loop env (f p) r = Some q" using Cons.prems by simp
    from Cons.IH [OF this] obtain k where k: "k < length env" "q = seen_at env (f p) k"
      "lazy_check_vacstate_prepared q r"
      "\<forall>j<k. \<not> lazy_check_vacstate_prepared (seen_at env (f p) j) r"
      by blast
    have "\<forall>j<Suc k. \<not> lazy_check_vacstate_prepared (seen_at (f # env) p j) r"
    proof (intro allI impI)
      fix j assume "j < Suc k"
      then show "\<not> lazy_check_vacstate_prepared (seen_at (f # env) p j) r"
        using False k(4) by (cases j) (simp_all add: seen_at_Cons)
    qed
    with k show ?thesis
      by (intro exI [of _ "Suc k"]) (simp add: seen_at_Cons)
  qed
qed

lemma set_my_vacstate_plain:
  "lazy_set_my_vacstate (Some p) my st False bc = (Some (with_my_state p my st), round (vacworkers p ! my))"
  by (simp add: lazy_set_my_vacstate_def with_my_state_def Let_def)

text \<open>
  Claim C2.  A worker that has set its state to \<^verbatim>\<open>VACSTATE_VACUUM_PREPARED\<close>, at its round
  \<open>r\<close>, leaves the sleep loop of the Prepared barrier at the first evaluation of the loop
  condition at which every worker is Prepared, Vacuuming or Finished at round \<open>r\<close> or is
  Complete, and then stores \<^verbatim>\<open>VACSTATE_VACUUMING\<close>; as long as that quorum is false at
  every evaluation it stays asleep.  The count-and-compare of
  \<^verbatim>\<open>lazy_check_vacstate_prepared\<close> is exactly that quorum.
\<close>

theorem C2_prepared_barrier:
  assumes "\<forall>k<length env. pstate_ok (seen_at env (with_my_state p0 my VACSTATE_VACUUM_PREPARED) k)"
  shows "(\<forall>k<length env.
            lazy_check_vacstate_prepared
              (seen_at env (with_my_state p0 my VACSTATE_VACUUM_PREPARED) k) (round (vacworkers p0 ! my))
            \<longleftrightarrow> prepared_quorum
              (seen_at env (with_my_state p0 my VACSTATE_VACUUM_PREPARED) k) (round (vacworkers p0 ! my)))
       \<and> (lazy_set_vacstate_and_wait_prepared (Some p0) my env = Asleep \<longleftrightarrow>
            (\<forall>k<length env. \<not> prepared_quorum
               (seen_at env (with_my_state p0 my VACSTATE_VACUUM_PREPARED) k) (round (vacworkers p0 ! my))))
       \<and> (\<forall>res. lazy_set_vacstate_and_wait_prepared (Some p0) my env = Returned res \<longrightarrow>
            (\<exists>k<length env.
               prepared_quorum
                 (seen_at env (with_my_state p0 my VACSTATE_VACUUM_PREPARED) k) (round (vacworkers p0 ! my))
               \<and> (\<forall>j<k. \<not> prepared_quorum
                     (seen_at env (with_my_state p0 my VACSTATE_VACUUM_PREPARED) j)
                     (round (vacworkers p0 ! my)))
               \<and> res = Some (with_my_state
                     (seen_at env (with_my_state p0 my VACSTATE_VACUUM_PREPARED) k) my
                     VACSTATE_VACUUMING)))"
proof -
  let ?p1 = "with_my_state p0 my VACSTATE_VACUUM_PREPARED"
  let ?r = "round (vacworkers p0 ! my)"
  have eqv: "lazy_check_vacstate_prepared (seen_at env ?p1 k) ?r \<longleftrightarrow>
             prepared_quorum (seen_at env ?p1 k) ?r" if "k < length env" for k
    using assms that check_prepared_iff_quorum by blast
  have unf: "lazy_set_vacstate_and_wait_prepared (Some p0) my env =
          (case wait_prepared_loop env ?p1 ?r of
             None \<Rightarrow> Asleep
           | Some q \<Rightarrow> Returned (Some (with_my_state q my VACSTATE_VACUUMING)))"
    by (simp add: lazy_set_vacstate_and_wait_prepared_def set_my_vacstate_plain
          split: option.splits)
  have asleep: "lazy_set_vacstate_and_wait_prepared (Some p0) my env = Asleep \<longleftrightarrow>
                (\<forall>k<length env. \<not> prepared_quorum (seen_at env ?p1 k) ?r)"
  proof -
    have "lazy_set_vacstate_and_wait_prepared (Some p0) my env = Asleep \<longleftrightarrow>
          wait_prepared_loop env ?p1 ?r = None"
      by (simp add: unf split: option.splits)
    also have "\<dots> \<longleftrightarrow> (\<forall>k<length env. \<not> lazy_check_vacstate_prepared (seen_at env ?p1 k) ?r)"
      by (rule wait_prepared_loop_None)
    also have "\<dots> \<longleftrightarrow> (\<forall>k<length env. \<not> prepared_quorum (seen_at env ?p1 k) ?r)"
      using eqv by blast
    finally show ?thesis .
  qed
  have ret: "\<exists>k<length env. prepared_quorum (seen_at env ?p1 k) ?r
               \<and> (\<forall>j<k. \<not> prepared_quorum (seen_at env ?p1 j) ?r)
               \<and> res = Some (with_my_state (seen_at env ?p1 k) my VACSTATE_VACUUMING)"
    if "lazy_set_vacstate_and_wait_prepared (Some p0) my env = Returned res" for res
  proof -
    from that obtain q where q: "wait_prepared_loop env ?p1 ?r = Some q"
      "res = Some (with_my_state q my VACSTATE_VACUUMING)"
      by (auto simp: unf split: option.splits)
    from wait_prepared_loop_Some [OF q(1)] obtain k where k: "k < length env"
      "q = seen_at env ?p1 k" "lazy_check_vacstate_prepared q ?r"
      "\<forall>j<k. \<not> lazy_check_vacstate_prepared (seen_at env ?p1 j) ?r"
      by blast
    have "prepared_quorum (seen_at env ?p1 k) ?r"
      using k eqv by blast
    moreover have "\<forall>j<k. \<not> prepared_quorum (seen_at env ?p1 j) ?r"
    proof (intro allI impI)
      fix j assume "j < k"
      then have "j < length env" using k(1) by simp
      with eqv k(4) \<open>j < k\<close> show "\<not> prepared_quorum (seen_at env ?p1 j) ?r" by blast
    qed
    ultimately show ?thesis using k q by blast
  qed
  show ?thesis
    using eqv asleep ret by blast
qed

theorem C2_prepared_barrier_witness:
  "lazy_set_vacstate_and_wait_prepared
     (Some \<lparr>nworkers = 2, vacworkers = [\<lparr>state = VACSTATE_SCANNING, round = 0\<rparr>,
                                         \<lparr>state = VACSTATE_SCANNING, round = 0\<rparr>]\<rparr>) 0
     [\<lambda>s. s] = Asleep
   \<and> lazy_set_vacstate_and_wait_prepared
     (Some \<lparr>nworkers = 2, vacworkers = [\<lparr>state = VACSTATE_SCANNING, round = 0\<rparr>,
                                         \<lparr>state = VACSTATE_SCANNING, round = 0\<rparr>]\<rparr>) 0
     [\<lambda>s. s, \<lambda>s. with_my_state s 1 VACSTATE_COMPLETE]
     = Returned (Some \<lparr>nworkers = 2, vacworkers = [\<lparr>state = VACSTATE_VACUUMING, round = 0\<rparr>,
                                         \<lparr>state = VACSTATE_COMPLETE, round = 0\<rparr>]\<rparr>)"
proof -
  let ?p0 = "\<lparr>nworkers = 2, vacworkers = [\<lparr>state = VACSTATE_SCANNING, round = 0\<rparr>,
                                         \<lparr>state = VACSTATE_SCANNING, round = 0\<rparr>]\<rparr>"
  let ?p1 = "with_my_state ?p0 0 VACSTATE_VACUUM_PREPARED"
  let ?e1 = "[\<lambda>s. s] :: (LVParallelState \<Rightarrow> LVParallelState) list"
  let ?e2 = "[\<lambda>s. s, \<lambda>s. with_my_state s 1 VACSTATE_COMPLETE]"
  have s0: "seen_at ?e1 ?p1 0 = \<lparr>nworkers = 2, vacworkers =
               [\<lparr>state = VACSTATE_VACUUM_PREPARED, round = 0\<rparr>, \<lparr>state = VACSTATE_SCANNING, round = 0\<rparr>]\<rparr>"
    "seen_at ?e2 ?p1 0 = \<lparr>nworkers = 2, vacworkers =
               [\<lparr>state = VACSTATE_VACUUM_PREPARED, round = 0\<rparr>, \<lparr>state = VACSTATE_SCANNING, round = 0\<rparr>]\<rparr>"
    "seen_at ?e2 ?p1 (Suc 0) = \<lparr>nworkers = 2, vacworkers =
               [\<lparr>state = VACSTATE_VACUUM_PREPARED, round = 0\<rparr>, \<lparr>state = VACSTATE_COMPLETE, round = 0\<rparr>]\<rparr>"
    by (simp_all add: seen_at_def with_my_state_def)
  have h1: "\<forall>k<length ?e1. pstate_ok (seen_at ?e1 ?p1 k)"
    using s0(1) by (simp add: pstate_ok_def pstate_wf_def valid_vacstate_def)
  have h2: "\<forall>k<length ?e2. pstate_ok (seen_at ?e2 ?p1 k)"
    using s0(2,3) by (simp add: All_less_Suc pstate_ok_def pstate_wf_def valid_vacstate_def)
  have q0: "\<not> prepared_quorum (seen_at ?e1 ?p1 0) 0" "\<not> prepared_quorum (seen_at ?e2 ?p1 0) 0"
    by (simp_all only: s0)
       (simp_all add: prepared_quorum_def VACSTATE_SCANNING_def VACSTATE_VACUUM_PREPARED_def
          VACSTATE_VACUUMING_def VACSTATE_VACUUM_FINISHED_def VACSTATE_COMPLETE_def)
  have a: "lazy_set_vacstate_and_wait_prepared (Some ?p0) 0 ?e1 = Asleep"
    using C2_prepared_barrier [OF h1] q0(1) by simp
  have "lazy_set_vacstate_and_wait_prepared (Some ?p0) 0 ?e2 \<noteq> Asleep"
  proof -
    have "prepared_quorum (seen_at ?e2 ?p1 (Suc 0)) 0"
      by (simp only: s0) (simp add: prepared_quorum_def)
    then have "\<not> (\<forall>k<length ?e2. \<not> prepared_quorum (seen_at ?e2 ?p1 k) 0)"
      by (intro notI) (simp add: All_less_Suc)
    with C2_prepared_barrier [OF h2] show ?thesis by simp
  qed
  then obtain res where res: "lazy_set_vacstate_and_wait_prepared (Some ?p0) 0 ?e2 = Returned res"
    by (cases "lazy_set_vacstate_and_wait_prepared (Some ?p0) 0 ?e2") auto
  with C2_prepared_barrier [OF h2] obtain k where k: "k < length ?e2"
    "prepared_quorum (seen_at ?e2 ?p1 k) (round (vacworkers ?p0 ! 0))"
    "res = Some (with_my_state (seen_at ?e2 ?p1 k) 0 VACSTATE_VACUUMING)"
    by blast
  have "k = Suc 0"
  proof (rule ccontr)
    assume "k \<noteq> Suc 0"
    with k(1) have "k = 0" by simp
    with k(2) q0(2) show False by simp
  qed
  with k(3) s0(3) have "res = Some \<lparr>nworkers = 2, vacworkers = [\<lparr>state = VACSTATE_VACUUMING, round = 0\<rparr>,
                                         \<lparr>state = VACSTATE_COMPLETE, round = 0\<rparr>]\<rparr>"
    by (simp add: with_my_state_def)
  with a res show ?thesis by simp
qed

subsection \<open>Truncation\<close>

lemma page_hastup_iff: "page_hastup items \<longleftrightarrow> (\<exists>itemid \<in> set items. ItemIdIsUsed itemid)"
  by (induction items) auto

lemma page_nonempty_iff:
  "page_nonempty page \<longleftrightarrow>
     \<not> (PageIsNew page \<or> PageIsEmpty page) \<and> page_hastup (page_items page)"
  by (cases page)
     (auto simp: page_nonempty_def PageIsNew_def PageIsEmpty_def page_items_def page_hastup_iff)

lemma word_pred_le:
  fixes b c :: BlockNumber
  assumes "c < b"
  shows "c \<le> b - 1"
proof -
  have "b \<noteq> 0" using assms by auto
  then have "unat (b - 1) = unat b - 1"
    by (simp add: unat_minus_one)
  moreover have "unat c < unat b"
    using assms by (simp add: word_less_nat_alt)
  ultimately show ?thesis
    by (simp add: word_le_nat_alt)
qed

lemma word_less_pred:
  fixes b c :: BlockNumber
  assumes "c < b"
  shows "c = b - 1 \<or> c < b - 1"
  using word_pred_le [OF assms] by auto

lemma cnp_loop_frame:
  "cnp_loop waiter heap v b = (n, v') \<Longrightarrow>
     nonempty_pages v' = nonempty_pages v \<and> rel_pages v' = rel_pages v \<and>
     pages_removed v' = pages_removed v"
proof (induction waiter heap v b rule: cnp_loop.induct)
  case (1 waiter heap v b)
  note unf = cnp_loop.simps [of waiter heap v b]
  show ?case
    using "1.prems" "1.IH" unf by (auto split: if_splits)
qed

lemma cnp_loop_spec:
  "cnp_loop waiter heap v b = (n, v') \<Longrightarrow>
     (\<forall>c. n \<le> c \<and> c < b \<longrightarrow> \<not> page_nonempty (heap ! unat c)) \<and>
     (nonempty_pages v \<le> b \<longrightarrow> nonempty_pages v \<le> n \<and> n \<le> b) \<and>
     (\<not> nonempty_pages v \<le> b \<longrightarrow> n = nonempty_pages v) \<and>
     ((v' = v\<lparr>lock_waiter_detected := True\<rparr> \<and> nonempty_pages v < n \<and> n mod 32 = 0 \<and> waiter n)
      \<or> (v' = v \<and> nonempty_pages v < n \<and> page_nonempty (heap ! unat (n - 1)))
      \<or> (v' = v \<and> n = nonempty_pages v))"
proof (induction waiter heap v b arbitrary: n v' rule: cnp_loop.induct)
  case (1 waiter heap v b)
  note unf = cnp_loop.simps [of waiter heap v b]
  show ?case
  proof (cases "nonempty_pages v < b")
    case False
    then have "cnp_loop waiter heap v b = (nonempty_pages v, v)"
      using unf by simp
    then have "n = nonempty_pages v" "v' = v"
      using "1.prems" by simp_all
    then show ?thesis using False by auto
  next
    case gt: True
    then have b0: "b \<noteq> 0" by auto
    have b1: "b - 1 + 1 = b" by simp
    have pred_lt: "b - 1 < b"
      using b0 by (simp add: word_less_nat_alt unat_minus_one unat_gt_0)
    have ne_le: "nonempty_pages v \<le> b - 1"
      using gt by (rule word_pred_le)
    show ?thesis
    proof (cases "b mod 32 = 0 \<and> waiter b")
      case True
      then have "n = b" "v' = v\<lparr>lock_waiter_detected := True\<rparr>"
        using "1.prems" unf gt by simp_all
      then show ?thesis using gt True by auto
    next
      case nw: False
      show ?thesis
      proof (cases "page_nonempty (heap ! unat (b - 1))")
        case True
        then have "n = b" "v' = v"
          using "1.prems" unf gt nw by (auto simp: page_nonempty_iff)
        then show ?thesis using gt True by auto
      next
        case empty: False
        have rec: "cnp_loop waiter heap v (b - 1) = (n, v')"
          using "1.prems" unf gt nw empty by (auto simp: page_nonempty_iff split: if_splits)
        have IH: "(\<forall>c. n \<le> c \<and> c < b - 1 \<longrightarrow> \<not> page_nonempty (heap ! unat c)) \<and>
          (nonempty_pages v \<le> b - 1 \<longrightarrow> nonempty_pages v \<le> n \<and> n \<le> b - 1) \<and>
          (\<not> nonempty_pages v \<le> b - 1 \<longrightarrow> n = nonempty_pages v) \<and>
          ((v' = v\<lparr>lock_waiter_detected := True\<rparr> \<and> nonempty_pages v < n \<and> n mod 32 = 0 \<and> waiter n)
           \<or> (v' = v \<and> nonempty_pages v < n \<and> page_nonempty (heap ! unat (n - 1)))
           \<or> (v' = v \<and> n = nonempty_pages v))"
        proof (cases "PageIsNew (heap ! unat (b - 1)) \<or> PageIsEmpty (heap ! unat (b - 1))")
          case True
          from "1.IH"(1) [OF gt _ True rec] nw show ?thesis by blast
        next
          case False
          then have nh: "\<not> page_hastup (page_items (heap ! unat (b - 1)))"
            using empty by (simp add: page_nonempty_iff)
          from "1.IH"(2) [OF gt _ False nh rec] nw show ?thesis by blast
        qed
        have all: "\<forall>c. n \<le> c \<and> c < b \<longrightarrow> \<not> page_nonempty (heap ! unat c)"
        proof (intro allI impI)
          fix c assume c: "n \<le> c \<and> c < b"
          then have "c = b - 1 \<or> c < b - 1" using word_less_pred by blast
          then show "\<not> page_nonempty (heap ! unat c)"
            using empty IH c by auto
        qed
        have "n \<le> b"
          using IH ne_le pred_lt by auto
        then show ?thesis
          using all IH ne_le gt by auto
      qed
    qed
  qed
qed

lemma count_nondeletable_pages_spec:
  assumes "count_nondeletable_pages waiter heap v = (n, v')"
  shows "nonempty_pages v \<le> n"
    and "\<forall>c. n \<le> c \<and> c < rel_pages v \<longrightarrow> \<not> page_nonempty (heap ! unat c)"
    and "\<not> lock_waiter_detected v' \<Longrightarrow> nonempty_pages v < n \<Longrightarrow> page_nonempty (heap ! unat (n - 1))"
    and "nonempty_pages v' = nonempty_pages v" and "rel_pages v' = rel_pages v"
    and "pages_removed v' = pages_removed v"
proof -
  have run: "cnp_loop waiter heap v (rel_pages v) = (n, v')"
    using assms by (simp add: count_nondeletable_pages_def)
  note spec = cnp_loop_spec [OF run]
  show "nonempty_pages v \<le> n"
    using spec by (cases "nonempty_pages v \<le> rel_pages v") auto
  show "\<forall>c. n \<le> c \<and> c < rel_pages v \<longrightarrow> \<not> page_nonempty (heap ! unat c)"
    using spec by blast
  show "page_nonempty (heap ! unat (n - 1))"
    if "\<not> lock_waiter_detected v'" "nonempty_pages v < n"
    using spec that by auto
  show "nonempty_pages v' = nonempty_pages v" "rel_pages v' = rel_pages v"
    "pages_removed v' = pages_removed v"
    using cnp_loop_frame [OF run] by simp_all
qed

lemma truncate_loop_spec:
  "truncate_loop env k old v calls = (v', calls') \<Longrightarrow> rel_pages v = old \<Longrightarrow>
     (\<exists>new_calls. calls' = calls @ new_calls \<and>
        (\<forall>call \<in> set new_calls. truncate_call_ok env (nonempty_pages v) call) \<and>
        (nblocks_now env k \<noteq> old \<longrightarrow> new_calls = []) \<and>
        rel_pages v' = (if new_calls = [] then rel_pages v else snd (snd (last new_calls)))) \<and>
     nonempty_pages v' = nonempty_pages v"
proof (induction env k old v calls arbitrary: v' calls' rule: truncate_loop.induct)
  case (1 env k old v calls)
  note unf = truncate_loop.simps [of env k old v calls]
  let ?v0 = "v\<lparr>lock_waiter_detected := False\<rparr>"
  let ?stop = "\<exists>new_calls. calls' = calls @ new_calls \<and>
        (\<forall>call \<in> set new_calls. truncate_call_ok env (nonempty_pages v) call) \<and>
        (nblocks_now env k \<noteq> old \<longrightarrow> new_calls = []) \<and>
        rel_pages v' = (if new_calls = [] then rel_pages v else snd (snd (last new_calls)))"
  have nothing: "?stop \<and> nonempty_pages v' = nonempty_pages v"
    if "calls' = calls" "rel_pages v' = rel_pages v" "nonempty_pages v' = nonempty_pages v"
    using that by (intro conjI exI [of _ "[]"]) simp_all
  show ?case
  proof (cases "lock_loop (lock_granted env k) 0")
    case False
    then have *: "v' = ?v0\<lparr>lock_waiter_detected := True\<rparr>" "calls' = calls"
      using "1.prems" unf by (simp_all add: Let_def)
    show ?thesis by (rule nothing) (simp_all add: *)
  next
    case lock: True
    show ?thesis
    proof (cases "nblocks_now env k \<noteq> old")
      case True
      then have *: "v' = ?v0" "calls' = calls"
        using "1.prems" unf lock by (simp_all add: Let_def)
      show ?thesis by (rule nothing) (simp_all add: *)
    next
      case same: False
      obtain n v1 where cnt: "count_nondeletable_pages (waiter_at env k) (heap_at env k) ?v0 = (n, v1)"
        by (cases "count_nondeletable_pages (waiter_at env k) (heap_at env k) ?v0")
      note cs = count_nondeletable_pages_spec [OF cnt]
      have v1: "nonempty_pages v1 = nonempty_pages v" "rel_pages v1 = old"
        using cs "1.prems"(2) by simp_all
      show ?thesis
      proof (cases "old \<le> n")
        case True
        then have *: "v' = v1" "calls' = calls"
          using "1.prems" unf lock same cnt by (simp_all add: Let_def)
        show ?thesis by (rule nothing) (simp_all add: * v1 "1.prems"(2))
      next
        case less: False
        let ?calls1 = "calls @ [(k, old, n)]"
        let ?v2 = "v1\<lparr>pages_removed := pages_removed v1 + (old - n), rel_pages := n\<rparr>"
        have ok: "truncate_call_ok env (nonempty_pages v) (k, old, n)"
        proof -
          have "\<exists>vk. rel_pages vk = old \<and> nonempty_pages vk = nonempty_pages v \<and>
                  n = fst (count_nondeletable_pages (waiter_at env k) (heap_at env k) vk)"
            using cnt "1.prems"(2) by (intro exI [of _ ?v0]) simp
          moreover have "\<forall>c. n \<le> c \<and> c < old \<longrightarrow> \<not> page_nonempty (heap_at env k ! unat c)"
            using cs(2) "1.prems"(2) by simp
          moreover have "nonempty_pages v \<le> n" using cs(1) by simp
          ultimately show ?thesis
            using same less by (simp add: truncate_call_ok_def)
        qed
        show ?thesis
        proof (cases "n > nonempty_pages ?v2 \<and> lock_waiter_detected ?v2")
          case False
          then have *: "v' = ?v2" "calls' = ?calls1"
            using "1.prems" unf lock same cnt less by (auto simp: Let_def)
          show ?thesis
            by (intro conjI exI [of _ "[(k, old, n)]"]) (simp_all add: * ok v1 same)
        next
          case again: True
          have rec: "truncate_loop env (Suc k) n ?v2 ?calls1 = (v', calls')"
            using "1.prems" unf lock same cnt less again by (auto simp: Let_def)
          have rp: "rel_pages ?v2 = n" by simp
          have nnl: "\<not> \<not> lock_loop (lock_granted env k) 0" using lock by simp
          from "1.IH" [OF refl nnl same cnt [symmetric] less refl refl again rec rp]
          obtain new_calls where nc: "calls' = ?calls1 @ new_calls"
            "\<forall>call \<in> set new_calls. truncate_call_ok env (nonempty_pages ?v2) call"
            "rel_pages v' = (if new_calls = [] then rel_pages ?v2 else snd (snd (last new_calls)))"
            "nonempty_pages v' = nonempty_pages ?v2"
            by auto
          have "calls' = calls @ ((k, old, n) # new_calls)"
            using nc(1) by simp
          moreover have "\<forall>call \<in> set ((k, old, n) # new_calls). truncate_call_ok env (nonempty_pages v) call"
            using nc(2) ok v1 by simp
          moreover have "rel_pages v' = snd (snd (last ((k, old, n) # new_calls)))"
            using nc(3) by simp
          ultimately have "calls' = calls @ ((k, old, n) # new_calls) \<and>
              (\<forall>call \<in> set ((k, old, n) # new_calls). truncate_call_ok env (nonempty_pages v) call) \<and>
              (nblocks_now env k \<noteq> old \<longrightarrow> (k, old, n) # new_calls = []) \<and>
              rel_pages v' = (if (k, old, n) # new_calls = [] then rel_pages v
                              else snd (snd (last ((k, old, n) # new_calls))))"
            using same by simp
          then have ?stop by (rule exI)
          then show ?thesis
            using nc(4) v1 by simp
        qed
      qed
    qed
  qed
qed

text \<open>
  Claim C9.  \<^verbatim>\<open>count_nondeletable_pages\<close>, scanning backward from the end, never returns
  less than \<^verbatim>\<open>nonempty_pages\<close>; no page from its result up to the end has a used line
  pointer; and unless it stopped for a lock waiter, a result above \<^verbatim>\<open>nonempty_pages\<close> is
  \<open>blkno + 1\<close> for a page \<open>blkno\<close> that has one, the highest such page.
  \<^verbatim>\<open>lazy_truncate_heap\<close> calls \<^verbatim>\<open>RelationTruncate\<close> only with the value that scan returned,
  on a relation whose size under the lock is the size it had recorded, so every page it
  removes is empty and the size afterwards is at least the last non-empty page found plus
  one.  When the size found under the lock at the first attempt differs from the size
  recorded at scan time, it truncates nothing and leaves \<^verbatim>\<open>rel_pages\<close> alone.
\<close>

theorem C9_truncation_safety:
  "(case count_nondeletable_pages waiter heap v of (n, v1) \<Rightarrow>
       nonempty_pages v \<le> n \<and>
       (\<forall>c. n \<le> c \<and> c < rel_pages v \<longrightarrow> \<not> page_nonempty (heap ! unat c)) \<and>
       (\<not> lock_waiter_detected v1 \<and> nonempty_pages v < n \<longrightarrow>
          page_nonempty (heap ! unat (n - 1))))
   \<and> (case lazy_truncate_heap env v of (v', calls) \<Rightarrow>
       (\<forall>call \<in> set calls. truncate_call_ok env (nonempty_pages v) call) \<and>
       (nblocks_now env 0 \<noteq> rel_pages v \<longrightarrow> calls = [] \<and> rel_pages v' = rel_pages v) \<and>
       rel_pages v' = (if calls = [] then rel_pages v else snd (snd (last calls))) \<and>
       nonempty_pages v' = nonempty_pages v)"
proof -
  obtain n v1 where cnt: "count_nondeletable_pages waiter heap v = (n, v1)"
    by (cases "count_nondeletable_pages waiter heap v")
  note cs = count_nondeletable_pages_spec [OF cnt]
  have part1: "nonempty_pages v \<le> n \<and>
       (\<forall>c. n \<le> c \<and> c < rel_pages v \<longrightarrow> \<not> page_nonempty (heap ! unat c)) \<and>
       (\<not> lock_waiter_detected v1 \<and> nonempty_pages v < n \<longrightarrow>
          page_nonempty (heap ! unat (n - 1)))"
    using cs(1) cs(2) cs(3) by blast
  obtain v' calls where run: "lazy_truncate_heap env v = (v', calls)"
    by (cases "lazy_truncate_heap env v")
  then have "truncate_loop env 0 (rel_pages v) v [] = (v', calls)"
    by (simp add: lazy_truncate_heap_def)
  from truncate_loop_spec [OF this refl]
  have part2: "(\<forall>call \<in> set calls. truncate_call_ok env (nonempty_pages v) call) \<and>
       (nblocks_now env 0 \<noteq> rel_pages v \<longrightarrow> calls = [] \<and> rel_pages v' = rel_pages v) \<and>
       rel_pages v' = (if calls = [] then rel_pages v else snd (snd (last calls))) \<and>
       nonempty_pages v' = nonempty_pages v"
    by auto
  show ?thesis
    using part1 part2 by (simp add: cnt run)
qed

theorem C9_truncation_safety_witness:
  "snd (lazy_truncate_heap
     \<lparr>lock_granted = \<lambda>k a. True, nblocks_now = \<lambda>k. 4,
      heap_at = \<lambda>k. [InitPage [LP_NORMAL HEAPTUPLE_LIVE False], InitPage [LP_DEAD], InitPage [], NewPage],
      waiter_at = \<lambda>k b. False\<rparr>
     ((zero_stats 0 [] None)\<lparr>rel_pages := 4, nonempty_pages := 1\<rparr>)) = [(0, 4, 2)]
   \<and> truncate_call_ok
     \<lparr>lock_granted = \<lambda>k a. True, nblocks_now = \<lambda>k. 4,
      heap_at = \<lambda>k. [InitPage [LP_NORMAL HEAPTUPLE_LIVE False], InitPage [LP_DEAD], InitPage [], NewPage],
      waiter_at = \<lambda>k b. False\<rparr> 1 (0, 4, 2)
   \<and> snd (lazy_truncate_heap
     \<lparr>lock_granted = \<lambda>k a. True, nblocks_now = \<lambda>k. 5,
      heap_at = \<lambda>k. [InitPage [LP_NORMAL HEAPTUPLE_LIVE False], InitPage [LP_DEAD], InitPage [], NewPage,
                      InitPage []],
      waiter_at = \<lambda>k b. False\<rparr>
     ((zero_stats 0 [] None)\<lparr>rel_pages := 4, nonempty_pages := 1\<rparr>)) = []"
proof -
  let ?heap = "[InitPage [LP_NORMAL HEAPTUPLE_LIVE False], InitPage [LP_DEAD], InitPage [], NewPage]"
  let ?E = "\<lparr>lock_granted = \<lambda>k a. True, nblocks_now = \<lambda>k. 4 :: BlockNumber,
      heap_at = \<lambda>k. ?heap, waiter_at = \<lambda>k b. False\<rparr>"
  let ?F = "\<lparr>lock_granted = \<lambda>k a. True, nblocks_now = \<lambda>k. 5 :: BlockNumber,
      heap_at = \<lambda>k. ?heap @ [InitPage []], waiter_at = \<lambda>k b. False\<rparr>"
  let ?V = "(zero_stats 0 [] None)\<lparr>rel_pages := 4, nonempty_pages := 1\<rparr>"
  have np: "nonempty_pages ?V = 1" "rel_pages ?V = 4"
    by (simp_all add: zero_stats_def)
  have cnt: "fst (count_nondeletable_pages (\<lambda>b. False) ?heap (?V\<lparr>lock_waiter_detected := False\<rparr>)) = 2"
    by (simp add: count_nondeletable_pages_def cnp_loop.simps zero_stats_def PageIsNew_def
          PageIsEmpty_def page_items_def ItemIdIsUsed_def)
  have calls: "snd (lazy_truncate_heap ?E ?V) = [(0, 4, 2)]"
    using cnt
    by (simp add: lazy_truncate_heap_def truncate_loop.simps lock_loop.simps np
          count_nondeletable_pages_spec(4,5) split: prod.splits)
       (auto simp: count_nondeletable_pages_def cnp_loop.simps zero_stats_def PageIsNew_def
          PageIsEmpty_def page_items_def ItemIdIsUsed_def)
  have h: "nblocks_now ?F 0 \<noteq> rel_pages ?V"
    by (simp add: zero_stats_def)
  have ok: "truncate_call_ok ?E 1 (0, 4, 2)"
    using C9_truncation_safety [where env = ?E and v = ?V and heap = ?heap and waiter = "\<lambda>b. False"]
      calls np by (auto split: prod.splits)
  have none: "snd (lazy_truncate_heap ?F ?V) = []"
    using C9_truncation_safety [where env = ?F and v = ?V and heap = ?heap and waiter = "\<lambda>b. False"]
      h by (auto split: prod.splits)
  show ?thesis
    using calls ok none by simp
qed

subsection \<open>The final page and the frozen-skipped counter\<close>

lemma FORCE_CHECK_PAGE_never: "\<not> FORCE_CHECK_PAGE ost vacrelstats blkno blkno"
proof -
  have "blkno \<noteq> blkno - 1"
    by (metis add.right_neutral diff_add_cancel add_left_cancel zero_neq_one)
  then show ?thesis
    by (simp add: FORCE_CHECK_PAGE_def)
qed

text \<open>
  Claim C7, at a failing input.  A relation of 32 pages, every one all-visible in the map,
  nothing yet known to be non-empty, so that \<^verbatim>\<open>should_attempt_truncation\<close> holds: the first
  call of \<^verbatim>\<open>lazy_scan_heap_get_nextpage\<close> in a serial, non-aggressive run skips every
  page, the final page 31 included, and reports the scan complete.  In a parallel run the
  single page of a one-page relation, handed out by the cursor, is skipped likewise.  The
  macro as invoked, \<^verbatim>\<open>FORCE_CHECK_PAGE(blkno)\<close>, compares \<^verbatim>\<open>blkno\<close> with \<^verbatim>\<open>blkno - 1\<close> and is
  false for every page.
\<close>

theorem C7_final_page_skipped:
  "should_attempt_truncation (- 1) ((zero_stats 0 [] None)\<lparr>rel_pages := 32\<rparr>)
   \<and> fst (lazy_scan_heap_get_nextpage (- 1) (\<lambda>b. VISIBILITYMAP_ALL_VISIBLE)
            ((zero_stats 0 [] None)\<lparr>rel_pages := 32\<rparr>)
            (lv_beginscan ((zero_stats 0 [] None)\<lparr>rel_pages := 32\<rparr>) None)
            False 0 False) = InvalidBlockNumber
   \<and> should_attempt_truncation (- 1)
        ((zero_stats 0 [] (Some \<lparr>nworkers = 1, vacworkers = [\<lparr>state = VACSTATE_SCANNING, round = 0\<rparr>]\<rparr>))
           \<lparr>rel_pages := 1\<rparr>)
   \<and> fst (lazy_scan_heap_get_nextpage (- 1) (\<lambda>b. VISIBILITYMAP_ALL_VISIBLE)
            ((zero_stats 0 [] (Some \<lparr>nworkers = 1, vacworkers = [\<lparr>state = VACSTATE_SCANNING, round = 0\<rparr>]\<rparr>))
               \<lparr>rel_pages := 1\<rparr>)
            (lv_beginscan
               ((zero_stats 0 [] (Some \<lparr>nworkers = 1, vacworkers = [\<lparr>state = VACSTATE_SCANNING, round = 0\<rparr>]\<rparr>))
                  \<lparr>rel_pages := 1\<rparr>) (Some [0]))
            False 0 False) = InvalidBlockNumber
   \<and> (\<forall>ost vacrelstats blkno. \<not> FORCE_CHECK_PAGE ost vacrelstats blkno blkno)"
proof -
  let ?vm = "\<lambda>b :: BlockNumber. VISIBILITYMAP_ALL_VISIBLE"
  let ?V = "(zero_stats 0 [] None)\<lparr>rel_pages := 32\<rparr>"
  let ?W = "(zero_stats 0 [] (Some \<lparr>nworkers = 1, vacworkers = [\<lparr>state = VACSTATE_SCANNING, round = 0\<rparr>]\<rparr>))
               \<lparr>rel_pages := 1\<rparr>"
  have t1: "should_attempt_truncation (- 1) ?V"
    by (simp add: should_attempt_truncation_def zero_stats_def REL_TRUNCATE_MINIMUM_def
          REL_TRUNCATE_FRACTION_def)
  have t2: "should_attempt_truncation (- 1) ?W"
    by (simp add: should_attempt_truncation_def zero_stats_def REL_TRUNCATE_MINIMUM_def
          REL_TRUNCATE_FRACTION_def)
  have adv: "advance_unskippable ?vm False 32 0 = 32"
    by (simp add: advance_unskippable.simps visibilitymap_get_status_def
          VISIBILITYMAP_ALL_VISIBLE_def)
  have loop: "nextpage_serial_for (- 1) ?vm 0 False True 0
                ((lv_beginscan ?V None)\<lparr>lv_next_unskippable_block := 32\<rparr>) ?V False
              = (32, (lv_beginscan ?V None)\<lparr>lv_next_unskippable_block := 32\<rparr>, ?V, False)"
    by (simp add: nextpage_serial_for.simps lv_beginscan_def zero_stats_def
          FORCE_CHECK_PAGE_never VM_ALL_FROZEN_blk_def visibilitymap_get_status_def
          VISIBILITYMAP_ALL_VISIBLE_def VISIBILITYMAP_ALL_FROZEN_def)
  have nv: "lv_nblocks (lv_beginscan ?V None) = 32" "lv_cblock (lv_beginscan ?V None) = 0"
    "lv_next_unskippable_block (lv_beginscan ?V None) = 0" "pstate ?V = None"
    by (simp_all add: lv_beginscan_def zero_stats_def)
  have s: "fst (lazy_scan_heap_get_nextpage (- 1) ?vm ?V (lv_beginscan ?V None) False 0 False)
           = InvalidBlockNumber"
    by (simp add: lazy_scan_heap_get_nextpage_def nv adv loop SKIP_PAGES_THRESHOLD_def Let_def)
  have p: "fst (lazy_scan_heap_get_nextpage (- 1) ?vm ?W (lv_beginscan ?W (Some [0])) False 0 False)
           = InvalidBlockNumber"
    by (simp add: lazy_scan_heap_get_nextpage_def nextpage_parallel.simps
          heap_parallelscan_nextpage_def lv_beginscan_def zero_stats_def FORCE_CHECK_PAGE_never
          visibilitymap_get_status_def InvalidBlockNumber_def VISIBILITYMAP_ALL_VISIBLE_def
          VISIBILITYMAP_ALL_FROZEN_def)
  show ?thesis
    using t1 t2 s p FORCE_CHECK_PAGE_never by blast
qed

text \<open>
  Claim C8, at failing inputs.  Parallel, non-aggressive run; the cursor hands the worker
  page 0.  When the map has page 0 all-visible but not all-frozen, the page is skipped and
  \<^verbatim>\<open>frozenskipped_pages\<close> goes from 0 to 1; when the map has it all-visible and all-frozen,
  the page is skipped and the counter stays 0.  The serial branch, on the same two maps
  over a run of 32 skippable pages, counts 0 and 32.
\<close>

theorem C8_parallel_frozenskipped_inverted:
  "(case lazy_scan_heap_get_nextpage (- 1) (\<lambda>b. VISIBILITYMAP_ALL_VISIBLE)
            ((zero_stats 0 [] (Some \<lparr>nworkers = 1, vacworkers = [\<lparr>state = VACSTATE_SCANNING, round = 0\<rparr>]\<rparr>))
               \<lparr>rel_pages := 1\<rparr>)
            (lv_beginscan
               ((zero_stats 0 [] (Some \<lparr>nworkers = 1, vacworkers = [\<lparr>state = VACSTATE_SCANNING, round = 0\<rparr>]\<rparr>))
                  \<lparr>rel_pages := 1\<rparr>) (Some [0]))
            False 0 False
    of (blkno, lvscan, vacrelstats, avm) \<Rightarrow>
         blkno = InvalidBlockNumber \<and> frozenskipped_pages vacrelstats = 1)
   \<and> (case lazy_scan_heap_get_nextpage (- 1)
            (\<lambda>b. VISIBILITYMAP_ALL_VISIBLE OR VISIBILITYMAP_ALL_FROZEN)
            ((zero_stats 0 [] (Some \<lparr>nworkers = 1, vacworkers = [\<lparr>state = VACSTATE_SCANNING, round = 0\<rparr>]\<rparr>))
               \<lparr>rel_pages := 1\<rparr>)
            (lv_beginscan
               ((zero_stats 0 [] (Some \<lparr>nworkers = 1, vacworkers = [\<lparr>state = VACSTATE_SCANNING, round = 0\<rparr>]\<rparr>))
                  \<lparr>rel_pages := 1\<rparr>) (Some [0]))
            False 0 False
    of (blkno, lvscan, vacrelstats, avm) \<Rightarrow>
         blkno = InvalidBlockNumber \<and> frozenskipped_pages vacrelstats = 0)
   \<and> (case lazy_scan_heap_get_nextpage (- 1) (\<lambda>b. VISIBILITYMAP_ALL_VISIBLE)
            ((zero_stats 0 [] None)\<lparr>rel_pages := 32\<rparr>)
            (lv_beginscan ((zero_stats 0 [] None)\<lparr>rel_pages := 32\<rparr>) None)
            False 0 False
    of (blkno, lvscan, vacrelstats, avm) \<Rightarrow>
         blkno = InvalidBlockNumber \<and> frozenskipped_pages vacrelstats = 0)
   \<and> (case lazy_scan_heap_get_nextpage (- 1)
            (\<lambda>b. VISIBILITYMAP_ALL_VISIBLE OR VISIBILITYMAP_ALL_FROZEN)
            ((zero_stats 0 [] None)\<lparr>rel_pages := 32\<rparr>)
            (lv_beginscan ((zero_stats 0 [] None)\<lparr>rel_pages := 32\<rparr>) None)
            False 0 False
    of (blkno, lvscan, vacrelstats, avm) \<Rightarrow>
         blkno = InvalidBlockNumber \<and> frozenskipped_pages vacrelstats = 32)"
proof -
  let ?V = "(zero_stats 0 [] None)\<lparr>rel_pages := 32\<rparr>"
  let ?vm1 = "\<lambda>b :: BlockNumber. VISIBILITYMAP_ALL_VISIBLE"
  let ?vm3 = "\<lambda>b :: BlockNumber. VISIBILITYMAP_ALL_VISIBLE OR VISIBILITYMAP_ALL_FROZEN"
  have par: "(case lazy_scan_heap_get_nextpage (- 1) (\<lambda>b. VISIBILITYMAP_ALL_VISIBLE)
            ((zero_stats 0 [] (Some \<lparr>nworkers = 1, vacworkers = [\<lparr>state = VACSTATE_SCANNING, round = 0\<rparr>]\<rparr>))
               \<lparr>rel_pages := 1\<rparr>)
            (lv_beginscan
               ((zero_stats 0 [] (Some \<lparr>nworkers = 1, vacworkers = [\<lparr>state = VACSTATE_SCANNING, round = 0\<rparr>]\<rparr>))
                  \<lparr>rel_pages := 1\<rparr>) (Some [0]))
            False 0 False
    of (blkno, lvscan, vacrelstats, avm) \<Rightarrow>
         blkno = InvalidBlockNumber \<and> frozenskipped_pages vacrelstats = 1)
   \<and> (case lazy_scan_heap_get_nextpage (- 1)
            (\<lambda>b. VISIBILITYMAP_ALL_VISIBLE OR VISIBILITYMAP_ALL_FROZEN)
            ((zero_stats 0 [] (Some \<lparr>nworkers = 1, vacworkers = [\<lparr>state = VACSTATE_SCANNING, round = 0\<rparr>]\<rparr>))
               \<lparr>rel_pages := 1\<rparr>)
            (lv_beginscan
               ((zero_stats 0 [] (Some \<lparr>nworkers = 1, vacworkers = [\<lparr>state = VACSTATE_SCANNING, round = 0\<rparr>]\<rparr>))
                  \<lparr>rel_pages := 1\<rparr>) (Some [0]))
            False 0 False
    of (blkno, lvscan, vacrelstats, avm) \<Rightarrow>
         blkno = InvalidBlockNumber \<and> frozenskipped_pages vacrelstats = 0)"
    by (simp add: lazy_scan_heap_get_nextpage_def nextpage_parallel.simps
        heap_parallelscan_nextpage_def lv_beginscan_def zero_stats_def FORCE_CHECK_PAGE_never
        visibilitymap_get_status_def InvalidBlockNumber_def VISIBILITYMAP_ALL_VISIBLE_def
        VISIBILITYMAP_ALL_FROZEN_def)
  have nv: "lv_nblocks (lv_beginscan ?V None) = 32" "lv_cblock (lv_beginscan ?V None) = 0"
    "lv_next_unskippable_block (lv_beginscan ?V None) = 0" "pstate ?V = None"
    by (simp_all add: lv_beginscan_def zero_stats_def)
  have adv1: "advance_unskippable ?vm1 False 32 0 = 32"
    by (simp add: advance_unskippable.simps visibilitymap_get_status_def
          VISIBILITYMAP_ALL_VISIBLE_def)
  have adv3: "advance_unskippable ?vm3 False 32 0 = 32"
    by (simp add: advance_unskippable.simps visibilitymap_get_status_def
          VISIBILITYMAP_ALL_VISIBLE_def VISIBILITYMAP_ALL_FROZEN_def)
  have loop1: "nextpage_serial_for (- 1) ?vm1 0 False True 0
                ((lv_beginscan ?V None)\<lparr>lv_next_unskippable_block := 32\<rparr>) ?V False
              = (32, (lv_beginscan ?V None)\<lparr>lv_next_unskippable_block := 32\<rparr>, ?V, False)"
    by (simp add: nextpage_serial_for.simps lv_beginscan_def zero_stats_def
          FORCE_CHECK_PAGE_never VM_ALL_FROZEN_blk_def visibilitymap_get_status_def
          VISIBILITYMAP_ALL_VISIBLE_def VISIBILITYMAP_ALL_FROZEN_def)
  have loop3: "nextpage_serial_for (- 1) ?vm3 0 False True 0
                ((lv_beginscan ?V None)\<lparr>lv_next_unskippable_block := 32\<rparr>) ?V False
              = (32, (lv_beginscan ?V None)\<lparr>lv_next_unskippable_block := 32\<rparr>,
                 ?V\<lparr>frozenskipped_pages := 32\<rparr>, False)"
    by (simp add: nextpage_serial_for.simps lv_beginscan_def zero_stats_def
          FORCE_CHECK_PAGE_never VM_ALL_FROZEN_blk_def visibilitymap_get_status_def
          VISIBILITYMAP_ALL_VISIBLE_def VISIBILITYMAP_ALL_FROZEN_def)
  have ser1: "(case lazy_scan_heap_get_nextpage (- 1) ?vm1 ?V (lv_beginscan ?V None) False 0 False
    of (blkno, lvscan, vacrelstats, avm) \<Rightarrow>
         blkno = InvalidBlockNumber \<and> frozenskipped_pages vacrelstats = 0)"
    by (simp add: lazy_scan_heap_get_nextpage_def nv adv1 loop1 SKIP_PAGES_THRESHOLD_def Let_def)
       (simp add: zero_stats_def)
  have ser3: "(case lazy_scan_heap_get_nextpage (- 1) ?vm3 ?V (lv_beginscan ?V None) False 0 False
    of (blkno, lvscan, vacrelstats, avm) \<Rightarrow>
         blkno = InvalidBlockNumber \<and> frozenskipped_pages vacrelstats = 32)"
    by (simp add: lazy_scan_heap_get_nextpage_def nv adv3 loop3 SKIP_PAGES_THRESHOLD_def Let_def)
  show ?thesis
    by (rule conjI [OF par [THEN conjunct1] conjI [OF par [THEN conjunct2] conjI [OF ser1 ser3]]])
qed

subsection \<open>The Finished barrier\<close>

lemma countable_finished_valid:
  assumes "valid_vacstate st"
  shows "st AND VACSTATE_VACUUM_FINISHED \<noteq> 0 \<longleftrightarrow> st = VACSTATE_VACUUM_FINISHED"
    and "st AND (VACSTATE_SCANNING OR VACSTATE_VACUUM_PREPARED) \<noteq> 0
         \<longleftrightarrow> st \<in> {VACSTATE_SCANNING, VACSTATE_VACUUM_PREPARED}"
  using assms
  by (auto simp: valid_vacstate_def VACSTATE_STARTUP_def VACSTATE_SCANNING_def
        VACSTATE_VACUUM_PREPARED_def VACSTATE_VACUUMING_def VACSTATE_VACUUM_FINISHED_def
        VACSTATE_COMPLETE_def)

lemma count_finished_loop_count:
  "0 \<le> i \<Longrightarrow> i \<le> nworkers ps \<Longrightarrow> count_finished_loop ps r i a b = (a', b') \<Longrightarrow>
   a' + b' \<le> a + b + (nworkers ps - i) \<and>
   (a' + b' = a + b + (nworkers ps - i) \<longleftrightarrow>
      (\<forall>k. i \<le> k \<and> k < nworkers ps \<longrightarrow>
         ((state (vacworkers ps ! nat k) AND VACSTATE_VACUUM_FINISHED \<noteq> 0
             \<and> round (vacworkers ps ! nat k) = r) \<or>
          (state (vacworkers ps ! nat k) AND (VACSTATE_SCANNING OR VACSTATE_VACUUM_PREPARED) \<noteq> 0
             \<and> round (vacworkers ps ! nat k) = r + 1))
         \<or> state (vacworkers ps ! nat k) = VACSTATE_COMPLETE))"
proof (induction ps r i a b rule: count_finished_loop.induct)
  case (1 ps r i a b)
  note unf = count_finished_loop.simps [of ps r i a b]
  let ?cnt = "\<lambda>k. (state (vacworkers ps ! nat k) AND VACSTATE_VACUUM_FINISHED \<noteq> 0
             \<and> round (vacworkers ps ! nat k) = r) \<or>
          (state (vacworkers ps ! nat k) AND (VACSTATE_SCANNING OR VACSTATE_VACUUM_PREPARED) \<noteq> 0
             \<and> round (vacworkers ps ! nat k) = r + 1)"
  let ?cmp = "\<lambda>k. state (vacworkers ps ! nat k) = VACSTATE_COMPLETE"
  show ?case
  proof (cases "i < nworkers ps")
    case False
    then have "i = nworkers ps" using "1.prems" by simp
    moreover have "a' = a \<and> b' = b" using False unf "1.prems" by simp
    ultimately show ?thesis by auto
  next
    case True
    have split: "(\<forall>k. i \<le> k \<and> k < nworkers ps \<longrightarrow> ?cnt k \<or> ?cmp k) \<longleftrightarrow>
                 (?cnt i \<or> ?cmp i) \<and> (\<forall>k. i + 1 \<le> k \<and> k < nworkers ps \<longrightarrow> ?cnt k \<or> ?cmp k)"
      by (rule all_from_split [OF True])
    have i1: "0 \<le> i + 1" "i + 1 \<le> nworkers ps" using True "1.prems" by simp_all
    define Q where "Q \<longleftrightarrow> (\<forall>k. i + 1 \<le> k \<and> k < nworkers ps \<longrightarrow> ?cnt k \<or> ?cmp k)"
    define T where "T = a + b + (nworkers ps - i)"
    have T1: "a + 1 + b + (nworkers ps - (i + 1)) = T" "a + (b + 1) + (nworkers ps - (i + 1)) = T"
      and T3: "a + b + (nworkers ps - (i + 1)) = T - 1"
      by (simp_all add: T_def)
    consider (c1) "?cnt i" | (c2) "\<not> ?cnt i" "?cmp i" | (c3) "\<not> ?cnt i" "\<not> ?cmp i"
      by blast
    then have "a' + b' \<le> T \<and> (a' + b' = T \<longleftrightarrow> (?cnt i \<or> ?cmp i) \<and> Q)"
    proof cases
      case c1
      then have "count_finished_loop ps r (i + 1) (a + 1) b = (a', b')"
        using True unf "1.prems"(3) by (auto simp: Let_def)
      from "1.IH"(1) [OF True refl refl refl refl _ i1 this] c1
      have "a' + b' \<le> a + 1 + b + (nworkers ps - (i + 1)) \<and>
            (a' + b' = a + 1 + b + (nworkers ps - (i + 1)) \<longleftrightarrow> Q)"
        by (simp add: Q_def)
      then show ?thesis using c1 by (simp only: T1) simp
    next
      case c2
      then have "count_finished_loop ps r (i + 1) a (b + 1) = (a', b')"
        using True unf "1.prems"(3) by (auto simp: Let_def)
      from "1.IH"(2) [OF True refl refl refl refl _ _ i1 this] c2
      have "a' + b' \<le> a + (b + 1) + (nworkers ps - (i + 1)) \<and>
            (a' + b' = a + (b + 1) + (nworkers ps - (i + 1)) \<longleftrightarrow> Q)"
        by (simp add: Q_def)
      then show ?thesis using c2 by (simp only: T1) simp
    next
      case c3
      then have "count_finished_loop ps r (i + 1) a b = (a', b')"
        using True unf "1.prems"(3) by (auto simp: Let_def)
      from "1.IH"(3) [OF True refl refl refl refl _ _ i1 this] c3
      have "a' + b' \<le> a + b + (nworkers ps - (i + 1))"
        by (simp add: Q_def)
      then have "a' + b' \<le> T - 1" by (simp only: T3)
      then show ?thesis using c3 by auto
    qed
    then show ?thesis
      using split by (simp only: T_def Q_def)
  qed
qed

lemma check_finished_iff_quorum:
  assumes "pstate_ok ps"
  shows "lazy_check_vacstate_finished ps r \<longleftrightarrow> finished_quorum ps r"
proof -
  have wf: "pstate_wf ps" using assms by (simp add: pstate_ok_def)
  obtain a' b' where ab: "count_finished_loop ps r 0 0 0 = (a', b')"
    by (cases "count_finished_loop ps r 0 0 0")
  have n0: "(0::int) \<le> 0" "0 \<le> nworkers ps"
    using wf by (simp_all add: pstate_wf_def)
  from count_finished_loop_count [OF n0 ab]
  have "a' + b' = nworkers ps \<longleftrightarrow>
      (\<forall>k. 0 \<le> k \<and> k < nworkers ps \<longrightarrow>
         ((state (vacworkers ps ! nat k) AND VACSTATE_VACUUM_FINISHED \<noteq> 0
             \<and> round (vacworkers ps ! nat k) = r) \<or>
          (state (vacworkers ps ! nat k) AND (VACSTATE_SCANNING OR VACSTATE_VACUUM_PREPARED) \<noteq> 0
             \<and> round (vacworkers ps ! nat k) = r + 1))
         \<or> state (vacworkers ps ! nat k) = VACSTATE_COMPLETE)"
    by simp
  also have "\<dots> \<longleftrightarrow> (\<forall>w \<in> set (vacworkers ps).
         ((state w AND VACSTATE_VACUUM_FINISHED \<noteq> 0 \<and> round w = r) \<or>
          (state w AND (VACSTATE_SCANNING OR VACSTATE_VACUUM_PREPARED) \<noteq> 0 \<and> round w = r + 1))
         \<or> state w = VACSTATE_COMPLETE)"
    by (rule all_index_iff_set [OF wf])
  also have "\<dots> \<longleftrightarrow> finished_quorum ps r"
    unfolding finished_quorum_def
  proof (rule ball_cong [OF refl])
    fix w assume "w \<in> set (vacworkers ps)"
    then have "valid_vacstate (state w)"
      using assms by (simp add: pstate_ok_def)
    from countable_finished_valid [OF this]
    show "(((state w AND VACSTATE_VACUUM_FINISHED \<noteq> 0 \<and> round w = r) \<or>
          (state w AND (VACSTATE_SCANNING OR VACSTATE_VACUUM_PREPARED) \<noteq> 0 \<and> round w = r + 1))
         \<or> state w = VACSTATE_COMPLETE) \<longleftrightarrow>
         ((state w = VACSTATE_VACUUM_FINISHED \<and> round w = r)
        \<or> (state w \<in> {VACSTATE_SCANNING, VACSTATE_VACUUM_PREPARED} \<and> round w = r + 1)
        \<or> state w = VACSTATE_COMPLETE)"
      by auto
  qed
  finally show ?thesis
    using ab by (simp add: lazy_check_vacstate_finished_def lazy_count_vacstate_finished_def)
qed

subsection \<open>Steps of the interleaving model\<close>

lemma with_my_state_simps [simp]:
  "nworkers (with_my_state ps w st) = nworkers ps"
  "length (vacworkers (with_my_state ps w st)) = length (vacworkers ps)"
  "w < length (vacworkers ps) \<Longrightarrow>
     vacworkers (with_my_state ps w st) ! w = (vacworkers ps ! w)\<lparr>state := st\<rparr>"
  "j \<noteq> w \<Longrightarrow> vacworkers (with_my_state ps w st) ! j = vacworkers ps ! j"
  by (simp_all add: with_my_state_def)

lemma set_pc_simps [simp]:
  "g_pc (set_pc s w pc) = (g_pc s)(w := pc)"
  "g_pstate (set_pc s w pc) = g_pstate s"
  "g_dead (set_pc s w pc) = g_dead s"
  "g_round (set_pc s w pc) = g_round s"
  "g_cycles (set_pc s w pc) = g_cycles s"
  "g_clears (set_pc s w pc) = g_clears s"
  "g_nindexes (set_pc s w pc) = g_nindexes s"
  "g_max_dead_tuples (set_pc s w pc) = g_max_dead_tuples s"
  by (simp_all add: set_pc_def)

lemma set_vacstate_simps [simp]:
  "g_pstate (set_vacstate s w st) = with_my_state (g_pstate s) w st"
  "g_pc (set_vacstate s w st) = g_pc s"
  "g_dead (set_vacstate s w st) = g_dead s"
  "g_round (set_vacstate s w st) = g_round s"
  "g_cycles (set_vacstate s w st) = g_cycles s"
  "g_clears (set_vacstate s w st) = g_clears s"
  "g_nindexes (set_vacstate s w st) = g_nindexes s"
  "g_max_dead_tuples (set_vacstate s w st) = g_max_dead_tuples s"
  by (simp_all add: set_vacstate_def set_my_vacstate_plain)

lemma enter_prepared_simps [simp]:
  "g_pstate (enter_prepared s w f) = with_my_state (g_pstate s) w VACSTATE_VACUUM_PREPARED"
  "g_pc (enter_prepared s w f) = (g_pc s)(w := PrepWait f)"
  "g_round (enter_prepared s w f) = (g_round s)(w := round (vacworkers (g_pstate s) ! w))"
  "g_dead (enter_prepared s w f) = g_dead s"
  "g_cycles (enter_prepared s w f) = g_cycles s"
  "g_clears (enter_prepared s w f) = g_clears s"
  "g_nindexes (enter_prepared s w f) = g_nindexes s"
  "g_max_dead_tuples (enter_prepared s w f) = g_max_dead_tuples s"
  by (simp_all add: enter_prepared_def set_my_vacstate_plain)

lemma incr_round_simps [simp]:
  "nworkers (g_pstate (incr_round s w)) = nworkers (g_pstate s)"
  "length (vacworkers (g_pstate (incr_round s w))) = length (vacworkers (g_pstate s))"
  "w < length (vacworkers (g_pstate s)) \<Longrightarrow>
     vacworkers (g_pstate (incr_round s w)) ! w =
       (vacworkers (g_pstate s) ! w)\<lparr>round := round (vacworkers (g_pstate s) ! w) + 1\<rparr>"
  "j \<noteq> w \<Longrightarrow> vacworkers (g_pstate (incr_round s w)) ! j = vacworkers (g_pstate s) ! j"
  "g_pc (incr_round s w) = g_pc s"
  "g_dead (incr_round s w) = g_dead s"
  "g_round (incr_round s w) = g_round s"
  "g_cycles (incr_round s w) = (g_cycles s)(w := Suc (g_cycles s w))"
  "g_clears (incr_round s w) = g_clears s"
  "g_nindexes (incr_round s w) = g_nindexes s"
  "g_max_dead_tuples (incr_round s w) = g_max_dead_tuples s"
  by (simp_all add: incr_round_def)

lemma clear_all_from_length [simp]: "length (clear_all_from dts num i) = length dts"
proof (induction dts num i rule: clear_all_from.induct)
  case (1 dts num i)
  show ?case
    using "1.IH" clear_all_from.simps [of dts num i] by (cases "i < num") simp_all
qed

lemma clear_all_from_nth:
  "0 \<le> i \<Longrightarrow> j < length dts \<Longrightarrow>
     clear_all_from dts num i ! j =
       (if i \<le> int j \<and> int j < num then (dts ! j)\<lparr>n_dt := 0\<rparr> else dts ! j)"
proof (induction dts num i rule: clear_all_from.induct)
  case (1 dts num i)
  note unf = clear_all_from.simps [of dts num i]
  show ?case
  proof (cases "i < num")
    case False
    then show ?thesis using unf by simp
  next
    case True
    have "clear_all_from dts num i ! j =
            clear_all_from (dts[nat i := (dts ! nat i)\<lparr>n_dt := 0\<rparr>]) num (i + 1) ! j"
      using True unf by simp
    also have "\<dots> = (if i + 1 \<le> int j \<and> int j < num
                      then ((dts[nat i := (dts ! nat i)\<lparr>n_dt := 0\<rparr>]) ! j)\<lparr>n_dt := 0\<rparr>
                      else (dts[nat i := (dts ! nat i)\<lparr>n_dt := 0\<rparr>]) ! j)"
      using "1.IH" [OF True] "1.prems" by simp
    also have "\<dots> = (if i \<le> int j \<and> int j < num then (dts ! j)\<lparr>n_dt := 0\<rparr> else dts ! j)"
    proof (cases "int j = i")
      case True
      then have "nat i = j" by simp
      then show ?thesis using "1.prems" \<open>i < num\<close> True by simp
    next
      case False
      then have "nat i \<noteq> j" using "1.prems" by auto
      then show ?thesis using False by auto
    qed
    finally show ?thesis .
  qed
qed

lemma finished_arrive_eq:
  "finished_arrive (worker_stats s) w =
     (let ps1 = with_my_state (g_pstate s) w VACSTATE_VACUUM_FINISHED;
          rnd = round (vacworkers (g_pstate s) ! w);
          v1 = (worker_stats s)\<lparr>pstate := Some ps1\<rparr>
      in (if lazy_check_vacstate_finished ps1 rnd then lazy_clear_dead_tuple v1 w else v1, rnd))"
  by (simp add: finished_arrive_def worker_stats_def zero_stats_def Let_def
        lazy_check_vacstate_finished_def split: prod.splits)

lemma enter_finished_simps [simp]:
  "g_pstate (enter_finished s w f) = with_my_state (g_pstate s) w VACSTATE_VACUUM_FINISHED"
  "g_pc (enter_finished s w f) = (g_pc s)(w := FinWait f)"
  "g_round (enter_finished s w f) = (g_round s)(w := round (vacworkers (g_pstate s) ! w))"
  "g_cycles (enter_finished s w f) = g_cycles s"
  "g_nindexes (enter_finished s w f) = g_nindexes s"
  "g_max_dead_tuples (enter_finished s w f) = g_max_dead_tuples s"
  "g_clears (enter_finished s w f) =
     (if lazy_check_vacstate_finished (with_my_state (g_pstate s) w VACSTATE_VACUUM_FINISHED)
           (round (vacworkers (g_pstate s) ! w))
      then g_clears s @ [(w, g_cycles s w)] else g_clears s)"
  "g_dead (enter_finished s w f) =
     (if lazy_check_vacstate_finished (with_my_state (g_pstate s) w VACSTATE_VACUUM_FINISHED)
           (round (vacworkers (g_pstate s) ! w))
      then (if g_nindexes s \<noteq> 0
            then clear_all_from (g_dead s) (nworkers (g_pstate s)) 0
            else (g_dead s)[w := (g_dead s ! w)\<lparr>n_dt := 0\<rparr>])
      else g_dead s)"
  by (simp_all only: enter_finished_def finished_arrive_eq Let_def prod.case)
     (simp_all add: lazy_clear_dead_tuple_def worker_stats_def zero_stats_def)

lemma record_step_others:
  "j \<noteq> my \<Longrightarrow> dead_tuples (lazy_record_dead_tuple v my t) ! j = dead_tuples v ! j"
  by (simp add: lazy_record_dead_tuple_def Let_def)

lemma record_all_others:
  "j \<noteq> my \<Longrightarrow> dead_tuples (record_all v my ts) ! j = dead_tuples v ! j"
  by (induction ts arbitrary: v) (simp_all add: record_step_others)

lemma record_step_mono:
  "my < length (dead_tuples v) \<Longrightarrow>
     n_dt (dead_tuples v ! my) \<le> n_dt (dead_tuples (lazy_record_dead_tuple v my t) ! my)"
  by (simp add: lazy_record_dead_tuple_def Let_def)

lemma record_all_mono:
  "my < length (dead_tuples v) \<Longrightarrow>
     n_dt (dead_tuples v ! my) \<le> n_dt (dead_tuples (record_all v my ts) ! my)"
proof (induction ts arbitrary: v)
  case Nil
  then show ?case by simp
next
  case (Cons t ts)
  have "n_dt (dead_tuples v ! my) \<le> n_dt (dead_tuples (lazy_record_dead_tuple v my t) ! my)"
    using Cons.prems by (rule record_step_mono)
  also have "\<dots> \<le> n_dt (dead_tuples (record_all (lazy_record_dead_tuple v my t) my ts) ! my)"
    using Cons.prems by (intro Cons.IH) (simp add: record_step_frame)
  finally show ?case by simp
qed

text \<open>The steps, one case per control point.\<close>

lemma worker_stepE [consumes 1, case_names start alloc scanning page prep_mid done_prep
    done_complete tuples page_done page_done_clear pass_prep vacuuming arrive pass_fin
    left_fin incr complete]:
  assumes "worker_step s w ch = Some s'"
  obtains
    (start) "g_pc s w = NotStarted"
      "s' = set_pc (s\<lparr>g_pstate := with_my_state (g_pstate s) w VACSTATE_STARTUP\<rparr>) w Started"
  | (alloc) "g_pc s w = Started"
      "s' = set_pc (s\<lparr>g_dead := (g_dead s)[w := (g_dead s ! w)\<lparr>n_dt := 0\<rparr>]\<rparr>) w Alloc"
  | (scanning) "g_pc s w = Alloc" "s' = set_pc (set_vacstate s w VACSTATE_SCANNING) w Scan"
  | (page) "g_pc s w = Scan" "s' = set_pc s w HavePage"
  | (prep_mid) "g_pc s w = Scan" "s' = enter_prepared s w False"
  | (done_prep) "g_pc s w = Scan" "s' = enter_prepared s w True"
  | (done_complete) "g_pc s w = Scan" "s' = set_pc s w ToComplete"
  | (tuples) ts where "g_pc s w = HavePage"
      "s' = s\<lparr>g_dead := dead_tuples (record_all (worker_stats s) w ts)\<rparr>"
  | (page_done) "g_pc s w = HavePage" "s' = set_pc s w Scan"
  | (page_done_clear) "g_pc s w = HavePage" "g_nindexes s = 0"
      "s' = set_pc (s\<lparr>g_dead := dead_tuples (lazy_clear_dead_tuple (worker_stats s) w)\<rparr>) w Scan"
  | (pass_prep) f where "g_pc s w = PrepWait f"
      "lazy_check_vacstate_prepared (g_pstate s) (g_round s w)" "s' = set_pc s w (PassedPrep f)"
  | (vacuuming) f where "g_pc s w = PassedPrep f"
      "s' = set_pc (set_vacstate s w VACSTATE_VACUUMING) w (Vacuum f)"
  | (arrive) f where "g_pc s w = Vacuum f" "s' = enter_finished s w f"
  | (pass_fin) f where "g_pc s w = FinWait f"
      "lazy_check_vacstate_finished (g_pstate s) (g_round s w)" "s' = set_pc s w (PassedFin f)"
  | (left_fin) f where "g_pc s w = PassedFin f"
      "s' = set_pc (set_vacstate s w VACSTATE_SCANNING) w (Incr f)"
  | (incr) f where "g_pc s w = Incr f"
      "s' = set_pc (incr_round s w) w (if f then ToComplete else HavePage)"
  | (complete) "g_pc s w = ToComplete" "s' = set_pc (set_vacstate s w VACSTATE_COMPLETE) w Complete"
proof -
  have r: "int w < nworkers (g_pstate s)"
    using assms by (simp add: worker_step_def split: if_splits)
  show thesis
  proof (cases "g_pc s w")
    case NotStarted
    then have "s' = set_pc (s\<lparr>g_pstate := with_my_state (g_pstate s) w VACSTATE_STARTUP\<rparr>) w Started"
      using assms r by (simp add: worker_step_def)
    with NotStarted show thesis by (rule start)
  next
    case Started
    then have "s' = set_pc (s\<lparr>g_dead := (g_dead s)[w := (g_dead s ! w)\<lparr>n_dt := 0\<rparr>]\<rparr>) w Alloc"
      using assms r by (simp add: worker_step_def)
    with Started show thesis by (rule alloc)
  next
    case Alloc
    then have "s' = set_pc (set_vacstate s w VACSTATE_SCANNING) w Scan"
      using assms r by (simp add: worker_step_def)
    with Alloc show thesis by (rule scanning)
  next
    case Scan
    have step: "(case ch of
             GotPage \<Rightarrow>
               if nearly_full s w then Some (enter_prepared s w False)
               else Some (set_pc s w HavePage)
           | ScanDone \<Rightarrow>
               if n_dt (g_dead s ! w) > 0 then Some (enter_prepared s w True)
               else Some (set_pc s w ToComplete)
           | _ \<Rightarrow> None) = Some s'"
      using assms r Scan by (simp add: worker_step_def)
    show thesis
    proof (cases ch)
      case GotPage
      show thesis
      proof (cases "nearly_full s w")
        case True
        then have "s' = enter_prepared s w False" using step GotPage by simp
        with Scan show thesis by (rule prep_mid)
      next
        case False
        then have "s' = set_pc s w HavePage" using step GotPage by simp
        with Scan show thesis by (rule page)
      qed
    next
      case ScanDone
      show thesis
      proof (cases "n_dt (g_dead s ! w) > 0")
        case True
        then have "s' = enter_prepared s w True" using step ScanDone by simp
        with Scan show thesis by (rule done_prep)
      next
        case False
        then have "s' = set_pc s w ToComplete" using step ScanDone by simp
        with Scan show thesis by (rule done_complete)
      qed
    next
      case (Tuples ts)
      then show thesis using step by simp
    next
      case PageDone
      then show thesis using step by simp
    next
      case NoChoice
      then show thesis using step by simp
    qed
  next
    case HavePage
    have step: "(case ch of
             Tuples ts \<Rightarrow> Some (s\<lparr>g_dead := dead_tuples (record_all (worker_stats s) w ts)\<rparr>)
           | PageDone \<Rightarrow>
               if g_nindexes s = 0 \<and> n_dt (g_dead s ! w) > 0
               then Some (set_pc (s\<lparr>g_dead := dead_tuples (lazy_clear_dead_tuple (worker_stats s) w)\<rparr>)
                            w Scan)
               else Some (set_pc s w Scan)
           | _ \<Rightarrow> None) = Some s'"
      using assms r HavePage by (simp add: worker_step_def)
    show thesis
    proof (cases ch)
      case (Tuples ts)
      then have "s' = s\<lparr>g_dead := dead_tuples (record_all (worker_stats s) w ts)\<rparr>"
        using step by simp
      with HavePage show thesis by (rule tuples)
    next
      case PageDone
      show thesis
      proof (cases "g_nindexes s = 0 \<and> n_dt (g_dead s ! w) > 0")
        case True
        then have "s' = set_pc (s\<lparr>g_dead := dead_tuples (lazy_clear_dead_tuple (worker_stats s) w)\<rparr>) w Scan"
          using step PageDone by simp
        with HavePage True show thesis by (intro page_done_clear) simp_all
      next
        case False
        then have "s' = set_pc s w Scan" using step PageDone by auto
        with HavePage show thesis by (rule page_done)
      qed
    next
      case GotPage
      then show thesis using step by simp
    next
      case ScanDone
      then show thesis using step by simp
    next
      case NoChoice
      then show thesis using step by simp
    qed
  next
    case (PrepWait f)
    then have "lazy_check_vacstate_prepared (g_pstate s) (g_round s w)" "s' = set_pc s w (PassedPrep f)"
      using assms r by (simp_all add: worker_step_def split: if_splits)
    with PrepWait show thesis by (rule pass_prep)
  next
    case (PassedPrep f)
    then have "s' = set_pc (set_vacstate s w VACSTATE_VACUUMING) w (Vacuum f)"
      using assms r by (simp add: worker_step_def)
    with PassedPrep show thesis by (rule vacuuming)
  next
    case (Vacuum f)
    then have "s' = enter_finished s w f"
      using assms r by (simp add: worker_step_def)
    with Vacuum show thesis by (rule arrive)
  next
    case (FinWait f)
    then have "lazy_check_vacstate_finished (g_pstate s) (g_round s w)" "s' = set_pc s w (PassedFin f)"
      using assms r by (simp_all add: worker_step_def split: if_splits)
    with FinWait show thesis by (rule pass_fin)
  next
    case (PassedFin f)
    then have "s' = set_pc (set_vacstate s w VACSTATE_SCANNING) w (Incr f)"
      using assms r by (simp add: worker_step_def)
    with PassedFin show thesis by (rule left_fin)
  next
    case (Incr f)
    then have "s' = set_pc (incr_round s w) w (if f then ToComplete else HavePage)"
      using assms r by (simp add: worker_step_def)
    with Incr show thesis by (rule incr)
  next
    case ToComplete
    then have "s' = set_pc (set_vacstate s w VACSTATE_COMPLETE) w Complete"
      using assms r by (simp add: worker_step_def)
    with ToComplete show thesis by (rule complete)
  next
    case Complete
    then show thesis using assms r by (simp add: worker_step_def)
  qed
qed

lemma worker_step_in_range:
  "worker_step s w ch = Some s' \<Longrightarrow> int w < nworkers (g_pstate s)"
  by (simp add: worker_step_def split: if_splits)


subsection \<open>The invariants of a parallel run\<close>

lemma check_prepared_nth:
  assumes "pstate_wf ps" "lazy_check_vacstate_prepared ps r" "k < length (vacworkers ps)"
  shows "(state (vacworkers ps ! k) AND
            (VACSTATE_VACUUM_PREPARED OR VACSTATE_VACUUMING OR VACSTATE_VACUUM_FINISHED) \<noteq> 0
          \<and> round (vacworkers ps ! k) = r)
         \<or> state (vacworkers ps ! k) = VACSTATE_COMPLETE"
proof -
  obtain a' b' where ab: "check_prepared_loop ps r 0 0 0 = (a', b')"
    by (cases "check_prepared_loop ps r 0 0 0")
  have n0: "(0::int) \<le> 0" "0 \<le> nworkers ps"
    using assms(1) by (simp_all add: pstate_wf_def)
  have sum: "a' + b' = nworkers ps"
    using assms(2) ab by (simp add: lazy_check_vacstate_prepared_def)
  have k: "0 \<le> int k \<and> int k < nworkers ps"
    using assms(1,3) by (simp add: pstate_wf_def)
  from check_prepared_loop_count [OF n0 ab] sum
  have "\<forall>k. 0 \<le> k \<and> k < nworkers ps \<longrightarrow>
         (state (vacworkers ps ! nat k) AND
            (VACSTATE_VACUUM_PREPARED OR VACSTATE_VACUUMING OR VACSTATE_VACUUM_FINISHED) \<noteq> 0
          \<and> round (vacworkers ps ! nat k) = r)
         \<or> state (vacworkers ps ! nat k) = VACSTATE_COMPLETE"
    by simp
  from this [THEN spec, of "int k"] k show ?thesis by simp
qed

lemma check_finished_nth:
  assumes "pstate_wf ps" "lazy_check_vacstate_finished ps r" "k < length (vacworkers ps)"
  shows "((state (vacworkers ps ! k) AND VACSTATE_VACUUM_FINISHED \<noteq> 0
             \<and> round (vacworkers ps ! k) = r) \<or>
          (state (vacworkers ps ! k) AND (VACSTATE_SCANNING OR VACSTATE_VACUUM_PREPARED) \<noteq> 0
             \<and> round (vacworkers ps ! k) = r + 1))
         \<or> state (vacworkers ps ! k) = VACSTATE_COMPLETE"
proof -
  obtain a' b' where ab: "count_finished_loop ps r 0 0 0 = (a', b')"
    by (cases "count_finished_loop ps r 0 0 0")
  have n0: "(0::int) \<le> 0" "0 \<le> nworkers ps"
    using assms(1) by (simp_all add: pstate_wf_def)
  have sum: "a' + b' = nworkers ps"
    using assms(2) ab
    by (simp add: lazy_check_vacstate_finished_def lazy_count_vacstate_finished_def)
  have k: "0 \<le> int k \<and> int k < nworkers ps"
    using assms(1,3) by (simp add: pstate_wf_def)
  from count_finished_loop_count [OF n0 ab] sum
  have "\<forall>k. 0 \<le> k \<and> k < nworkers ps \<longrightarrow>
         ((state (vacworkers ps ! nat k) AND VACSTATE_VACUUM_FINISHED \<noteq> 0
             \<and> round (vacworkers ps ! nat k) = r) \<or>
          (state (vacworkers ps ! nat k) AND (VACSTATE_SCANNING OR VACSTATE_VACUUM_PREPARED) \<noteq> 0
             \<and> round (vacworkers ps ! nat k) = r + 1))
         \<or> state (vacworkers ps ! nat k) = VACSTATE_COMPLETE"
    by simp
  from this [THEN spec, of "int k"] k show ?thesis by simp
qed

lemmas vacstate_defs = VACSTATE_STARTUP_def VACSTATE_SCANNING_def
  VACSTATE_VACUUM_PREPARED_def VACSTATE_VACUUMING_def VACSTATE_VACUUM_FINISHED_def
  VACSTATE_COMPLETE_def

lemma prog_bounds: "4 * c \<le> prog pc c \<and> prog pc c \<le> 4 * c + 4"
  by (cases pc) simp_all

lemma counted_prepared_pc:
  "st_of_pc pc AND (VACSTATE_VACUUM_PREPARED OR VACSTATE_VACUUMING OR VACSTATE_VACUUM_FINISHED) \<noteq> 0
   \<Longrightarrow> 4 * c + 1 \<le> prog pc c"
  by (cases pc) (simp_all add: vacstate_defs)

lemma counted_finished_pc:
  "st_of_pc pc AND VACSTATE_VACUUM_FINISHED \<noteq> 0 \<Longrightarrow> (\<exists>f. pc = FinWait f) \<or> (\<exists>f. pc = PassedFin f)"
  by (cases pc) (simp_all add: vacstate_defs)

lemma complete_pc: "st_of_pc pc = VACSTATE_COMPLETE \<longleftrightarrow> pc = Complete"
  by (cases pc) (simp_all add: vacstate_defs)

lemma round_eq_cycles:
  fixes a b :: nat
  assumes "(of_nat a :: 32 word) = of_nat b" "a \<le> b + 1" "b \<le> a + 1"
  shows "a = b"
proof -
  have ne: "(of_nat (Suc n) :: 32 word) \<noteq> of_nat n" for n by simp
  consider "a = b" | "a = Suc b" | "b = Suc a" using assms(2,3) by linarith
  then show ?thesis
  proof cases
    case 1 then show ?thesis .
  next
    case 2 with assms(1) ne [of b] show ?thesis by simp
  next
    case 3 with assms(1) ne [of a] show ?thesis by simp
  qed
qed

lemma inv_corr_step:
  assumes step: "worker_step s w ch = Some s'" and inv: "inv_corr s"
  shows "inv_corr s'"
proof -
  have r: "w < length (vacworkers (g_pstate s))"
    using worker_step_in_range [OF step] inv by (simp add: inv_corr_def pstate_wf_def)
  have wf: "pstate_wf (g_pstate s)" "length (g_dead s) = length (vacworkers (g_pstate s))"
    using inv by (simp_all add: inv_corr_def)
  have at: "\<And>i. i < length (vacworkers (g_pstate s)) \<Longrightarrow>
        state (vacworkers (g_pstate s) ! i) = st_of_pc (g_pc s i) \<and>
        round (vacworkers (g_pstate s) ! i) = of_nat (g_cycles s i) \<and>
        (round_live (g_pc s i) \<longrightarrow> g_round s i = of_nat (g_cycles s i)) \<and>
        (g_pc s i \<in> {NotStarted, Started} \<longrightarrow> n_dt (g_dead s ! i) = 0)"
    using inv by (simp add: inv_corr_def)
  from step show ?thesis
  proof (cases rule: worker_stepE)
    case start
    then show ?thesis using r wf at by (auto simp: inv_corr_def pstate_wf_def)
  next
    case alloc
    then show ?thesis using r wf at by (auto simp: inv_corr_def pstate_wf_def)
  next
    case scanning
    then show ?thesis using r wf at by (auto simp: inv_corr_def pstate_wf_def)
  next
    case page
    then show ?thesis using r wf at by (auto simp: inv_corr_def pstate_wf_def)
  next
    case prep_mid
    then show ?thesis using r wf at by (auto simp: inv_corr_def pstate_wf_def)
  next
    case done_prep
    then show ?thesis using r wf at by (auto simp: inv_corr_def pstate_wf_def)
  next
    case done_complete
    then show ?thesis using r wf at by (auto simp: inv_corr_def pstate_wf_def)
  next
    case (tuples ts)
    have len: "length (g_dead s') = length (g_dead s)"
      using tuples by (simp add: record_all_frame worker_stats_def zero_stats_def)
    have oth: "i \<noteq> w \<Longrightarrow> g_dead s' ! i = g_dead s ! i" for i
      using tuples by (simp add: record_all_others worker_stats_def zero_stats_def)
    have same: "g_pstate s' = g_pstate s" "g_pc s' = g_pc s" "g_cycles s' = g_cycles s"
      "g_round s' = g_round s"
      using tuples by simp_all
    have "g_pc s i \<in> {NotStarted, Started} \<longrightarrow> n_dt (g_dead s' ! i) = 0"
      if "i < length (vacworkers (g_pstate s))" for i
      using at [OF that] oth [of i] tuples(1) by (cases "i = w") auto
    then show ?thesis using wf at len by (simp add: inv_corr_def same)
  next
    case page_done
    then show ?thesis using r wf at by (auto simp: inv_corr_def pstate_wf_def)
  next
    case page_done_clear
    then show ?thesis using r wf at
      by (auto simp: inv_corr_def pstate_wf_def lazy_clear_dead_tuple_def worker_stats_def
           zero_stats_def nth_list_update)
  next
    case (pass_prep f)
    then show ?thesis using r wf at by (auto simp: inv_corr_def pstate_wf_def)
  next
    case (vacuuming f)
    then show ?thesis using r wf at by (auto simp: inv_corr_def pstate_wf_def)
  next
    case (arrive f)
    then show ?thesis using r wf at
      by (auto simp: inv_corr_def pstate_wf_def clear_all_from_nth nth_list_update)
  next
    case (pass_fin f)
    then show ?thesis using r wf at by (auto simp: inv_corr_def pstate_wf_def)
  next
    case (left_fin f)
    then show ?thesis using r wf at by (auto simp: inv_corr_def pstate_wf_def)
  next
    case (incr f)
    then show ?thesis using r wf at by (auto simp: inv_corr_def pstate_wf_def)
  next
    case complete
    then show ?thesis using r wf at by (auto simp: inv_corr_def pstate_wf_def)
  qed
qed


lemma inv_corr_at:
  assumes "inv_corr s" "i < length (vacworkers (g_pstate s))"
  shows "state (vacworkers (g_pstate s) ! i) = st_of_pc (g_pc s i)"
    and "round (vacworkers (g_pstate s) ! i) = of_nat (g_cycles s i)"
    and "round_live (g_pc s i) \<Longrightarrow> g_round s i = of_nat (g_cycles s i)"
  using assms by (simp_all add: inv_corr_def)

lemma inv_lock_at:
  assumes "inv_lock s" "i < length (vacworkers (g_pstate s))" "j < length (vacworkers (g_pstate s))"
    "g_pc s i \<noteq> Complete" "g_pc s j \<noteq> Complete"
  shows "2 * (progress s i div 2) \<le> progress s j + 1"
  using assms unfolding inv_lock_def by blast

lemma half_le:
  fixes P B :: nat
  shows "2 * (P div 2) \<le> B \<Longrightarrow> P \<le> Suc B"
  by arith

lemma half_prog:
  fixes c :: nat
  shows "2 * ((4 * c + 1) div 2) = 4 * c" "2 * ((4 * c + 2) div 2) = 4 * c + 2"
    "2 * ((4 * c + 3) div 2) = 4 * c + 2"
  by arith+

text \<open>A worker leaves the Prepared barrier only when every worker still running has
  arrived at it.\<close>

lemma prepared_guard:
  assumes corr: "inv_corr s" and lock: "inv_lock s"
    and pc: "g_pc s w = PrepWait f"
    and chk: "lazy_check_vacstate_prepared (g_pstate s) (g_round s w)"
    and w: "w < length (vacworkers (g_pstate s))"
    and j: "j < length (vacworkers (g_pstate s))" "g_pc s j \<noteq> Complete"
  shows "progress s w \<le> progress s j"
proof -
  have wf: "pstate_wf (g_pstate s)" using corr by (simp add: inv_corr_def)
  define cw where "cw = g_cycles s w"
  define cj where "cj = g_cycles s j"
  define Pj where "Pj = progress s j"
  have Pw: "progress s w = 4 * cw + 1" using pc by (simp add: progress_def cw_def)
  have rw: "g_round s w = of_nat cw"
    using inv_corr_at(3) [OF corr w] pc by (simp add: cw_def)
  have stj: "state (vacworkers (g_pstate s) ! j) = st_of_pc (g_pc s j)"
    and rj: "round (vacworkers (g_pstate s) ! j) = of_nat cj"
    using inv_corr_at(1,2) [OF corr j(1)] by (simp_all add: cj_def)
  from check_prepared_nth [OF wf chk j(1)] j(2)
  have cnt: "st_of_pc (g_pc s j) AND
            (VACSTATE_VACUUM_PREPARED OR VACSTATE_VACUUMING OR VACSTATE_VACUUM_FINISHED) \<noteq> 0"
    and req: "(of_nat cj :: 32 word) = of_nat cw"
    by (simp_all add: stj rj rw complete_pc)
  have lo: "4 * cj + 1 \<le> Pj" and hi: "Pj \<le> 4 * cj + 4"
    using counted_prepared_pc [OF cnt, of cj] prog_bounds [of cj "g_pc s j"]
    by (simp_all add: Pj_def progress_def cj_def)
  have wnc: "g_pc s w \<noteq> Complete" using pc by simp
  have l1: "4 * cw \<le> Pj + 1"
    using inv_lock_at [OF lock w j(1) wnc j(2)] by (simp only: Pw Pj_def half_prog)
  have "2 * (Pj div 2) \<le> 4 * cw + 2"
    using inv_lock_at [OF lock j(1) w j(2) wnc] by (simp add: Pw Pj_def)
  from half_le [OF this] have l2: "Pj \<le> 4 * cw + 3" by simp
  have "cj \<le> cw + 1" "cw \<le> cj + 1" using lo hi l1 l2 by linarith+
  from round_eq_cycles [OF req this] have "cj = cw" .
  then show ?thesis using lo by (simp add: Pw Pj_def)
qed

text \<open>A worker leaves the Finished barrier only when every worker still running has
  arrived at it.\<close>

lemma finished_guard:
  assumes corr: "inv_corr s" and lock: "inv_lock s"
    and pc: "g_pc s w = FinWait f"
    and chk: "lazy_check_vacstate_finished (g_pstate s) (g_round s w)"
    and w: "w < length (vacworkers (g_pstate s))"
    and j: "j < length (vacworkers (g_pstate s))" "g_pc s j \<noteq> Complete"
  shows "progress s w \<le> progress s j"
proof -
  have wf: "pstate_wf (g_pstate s)" using corr by (simp add: inv_corr_def)
  define cw where "cw = g_cycles s w"
  define cj where "cj = g_cycles s j"
  define Pj where "Pj = progress s j"
  have Pw: "progress s w = 4 * cw + 3" using pc by (simp add: progress_def cw_def)
  have rw: "g_round s w = of_nat cw"
    using inv_corr_at(3) [OF corr w] pc by (simp add: cw_def)
  have stj: "state (vacworkers (g_pstate s) ! j) = st_of_pc (g_pc s j)"
    and rj: "round (vacworkers (g_pstate s) ! j) = of_nat cj"
    using inv_corr_at(1,2) [OF corr j(1)] by (simp_all add: cj_def)
  have bounds: "4 * cj \<le> Pj" "Pj \<le> 4 * cj + 4"
    using prog_bounds [of cj "g_pc s j"] by (simp_all add: Pj_def progress_def cj_def)
  have wnc: "g_pc s w \<noteq> Complete" using pc by simp
  have l1: "4 * cw + 2 \<le> Pj + 1"
    using inv_lock_at [OF lock w j(1) wnc j(2)] by (simp only: Pw Pj_def half_prog)
  have "2 * (Pj div 2) \<le> 4 * cw + 4"
    using inv_lock_at [OF lock j(1) w j(2) wnc] by (simp add: Pw Pj_def)
  from half_le [OF this] have l2: "Pj \<le> 4 * cw + 5" by simp
  from check_finished_nth [OF wf chk j(1)] j(2)
  consider (cur) "st_of_pc (g_pc s j) AND VACSTATE_VACUUM_FINISHED \<noteq> 0"
    | (nxt) "(of_nat cj :: 32 word) = of_nat cw + 1"
    by (auto simp: stj rj rw complete_pc)
  then have "4 * cw + 3 \<le> Pj"
  proof cases
    case cur
    from counted_finished_pc [OF cur] have "4 * cj + 3 \<le> Pj"
      by (auto simp: Pj_def progress_def cj_def)
    then show ?thesis using bounds l1 by arith
  next
    case nxt
    then have eq: "(of_nat cj :: 32 word) = of_nat (Suc cw)" by simp
    have "cj \<le> Suc cw + 1" "Suc cw \<le> cj + 1" using bounds l1 l2 by linarith+
    from round_eq_cycles [OF eq this] have "cj = Suc cw" .
    then show ?thesis using bounds by simp
  qed
  then show ?thesis by (simp add: Pw Pj_def)
qed

text \<open>When the count of an arriving worker adds up, every other worker still running
  waits at the Finished barrier of the same cycle.\<close>

lemma arrive_quorum:
  assumes corr: "inv_corr s" and lock: "inv_lock s"
    and pc: "g_pc s w = Vacuum f"
    and chk: "lazy_check_vacstate_finished
                (with_my_state (g_pstate s) w VACSTATE_VACUUM_FINISHED)
                (round (vacworkers (g_pstate s) ! w))"
    and w: "w < length (vacworkers (g_pstate s))"
    and j: "j < length (vacworkers (g_pstate s))" "g_pc s j \<noteq> Complete" "j \<noteq> w"
  shows "\<exists>f'. g_pc s j = FinWait f' \<and> g_cycles s j = g_cycles s w"
proof -
  have wf: "pstate_wf (with_my_state (g_pstate s) w VACSTATE_VACUUM_FINISHED)"
    using corr by (simp add: inv_corr_def pstate_wf_def)
  have j': "j < length (vacworkers (with_my_state (g_pstate s) w VACSTATE_VACUUM_FINISHED))"
    using j(1) by simp
  define cw where "cw = g_cycles s w"
  define cj where "cj = g_cycles s j"
  define Pj where "Pj = progress s j"
  have Pw: "progress s w = 4 * cw + 2" using pc by (simp add: progress_def cw_def)
  have rw: "round (vacworkers (g_pstate s) ! w) = of_nat cw"
    using inv_corr_at(2) [OF corr w] by (simp add: cw_def)
  have stj: "state (vacworkers (g_pstate s) ! j) = st_of_pc (g_pc s j)"
    and rj: "round (vacworkers (g_pstate s) ! j) = of_nat cj"
    using inv_corr_at(1,2) [OF corr j(1)] by (simp_all add: cj_def)
  have bounds: "4 * cj \<le> Pj" "Pj \<le> 4 * cj + 4"
    using prog_bounds [of cj "g_pc s j"] by (simp_all add: Pj_def progress_def cj_def)
  have wnc: "g_pc s w \<noteq> Complete" using pc by simp
  have l1: "4 * cw + 2 \<le> Pj + 1"
    using inv_lock_at [OF lock w j(1) wnc j(2)] by (simp only: Pw Pj_def half_prog)
  have l2': "2 * (Pj div 2) \<le> 4 * cw + 3"
    using inv_lock_at [OF lock j(1) w j(2) wnc] by (simp add: Pw Pj_def)
  from half_le [OF this] have l2: "Pj \<le> 4 * cw + 4" by simp
  have same: "cj = cw" using bounds l1 l2' l2 by arith
  from check_finished_nth [OF wf chk j'] j(2,3)
  consider (cur) "st_of_pc (g_pc s j) AND VACSTATE_VACUUM_FINISHED \<noteq> 0"
    | (nxt) "(of_nat cj :: 32 word) = of_nat cw + 1"
    by (auto simp: stj rj rw complete_pc)
  then show ?thesis
  proof cases
    case cur
    from counted_finished_pc [OF cur]
    consider f' where "g_pc s j = FinWait f'" | f' where "g_pc s j = PassedFin f'" by blast
    then show ?thesis
    proof cases
      case 1
      then show ?thesis using same by (simp add: cj_def cw_def)
    next
      case 2
      then have "Pj = 4 * cj + 4" by (simp add: Pj_def progress_def cj_def)
      then show ?thesis using l2' same by simp
    qed
  next
    case nxt
    then show ?thesis using same by simp
  qed
qed

subsection \<open>What a step changes\<close>

lemma step_frame:
  assumes "worker_step s w ch = Some s'"
  shows "length (vacworkers (g_pstate s')) = length (vacworkers (g_pstate s))"
    and "nworkers (g_pstate s') = nworkers (g_pstate s)"
    and "g_nindexes s' = g_nindexes s"
    and "g_max_dead_tuples s' = g_max_dead_tuples s"
    and "j \<noteq> w \<Longrightarrow> g_pc s' j = g_pc s j"
    and "j \<noteq> w \<Longrightarrow> g_cycles s' j = g_cycles s j"
    and "g_pc s w \<noteq> Complete"
  using assms by (cases rule: worker_stepE; simp)+

lemma step_own_progress:
  assumes step: "worker_step s w ch = Some s'" and corr: "inv_corr s" and lock: "inv_lock s"
  shows "g_pc s' w = Complete \<or> progress s' w = progress s w \<or>
         (progress s' w = Suc (progress s w) \<and>
          (even (progress s w) \<or>
           (\<forall>j < length (vacworkers (g_pstate s)). g_pc s j \<noteq> Complete \<longrightarrow>
              progress s w \<le> progress s j)))"
proof -
  have w: "w < length (vacworkers (g_pstate s))"
    using worker_step_in_range [OF step] corr by (simp add: inv_corr_def pstate_wf_def)
  from step show ?thesis
  proof (cases rule: worker_stepE)
    case (pass_prep f)
    have "\<forall>j < length (vacworkers (g_pstate s)). g_pc s j \<noteq> Complete \<longrightarrow>
              progress s w \<le> progress s j"
      using prepared_guard [OF corr lock pass_prep(1,2) w] by blast
    moreover have "progress s' w = Suc (progress s w)"
      using pass_prep by (simp add: progress_def)
    ultimately show ?thesis by blast
  next
    case (pass_fin f)
    have "\<forall>j < length (vacworkers (g_pstate s)). g_pc s j \<noteq> Complete \<longrightarrow>
              progress s w \<le> progress s j"
      using finished_guard [OF corr lock pass_fin(1,2) w] by blast
    moreover have "progress s' w = Suc (progress s w)"
      using pass_fin by (simp add: progress_def)
    ultimately show ?thesis by blast
  qed (simp_all add: progress_def)
qed


lemma step_others_progress:
  assumes "worker_step s w ch = Some s'" "j \<noteq> w"
  shows "progress s' j = progress s j"
  using step_frame(5,6) [OF assms] by (simp add: progress_def)

lemma inv_lock_step:
  assumes step: "worker_step s w ch = Some s'" and corr: "inv_corr s" and lock: "inv_lock s"
  shows "inv_lock s'"
  unfolding inv_lock_def
proof (intro allI impI)
  fix i j
  assume a: "i < length (vacworkers (g_pstate s')) \<and> j < length (vacworkers (g_pstate s')) \<and>
            g_pc s' i \<noteq> Complete \<and> g_pc s' j \<noteq> Complete"
  note len = step_frame(1) [OF step]
  note wnc = step_frame(7) [OF step]
  have i: "i < length (vacworkers (g_pstate s))" and j: "j < length (vacworkers (g_pstate s))"
    using a len by simp_all
  have w: "w < length (vacworkers (g_pstate s))"
    using worker_step_in_range [OF step] corr by (simp add: inv_corr_def pstate_wf_def)
  note own = step_own_progress [OF step corr lock]
  show "2 * (progress s' i div 2) \<le> progress s' j + 1"
  proof (cases "i = w")
    case iw: True
    show ?thesis
    proof (cases "j = w")
      case True
      with iw show ?thesis by simp
    next
      case False
      have pj: "progress s' j = progress s j" and cj: "g_pc s j \<noteq> Complete"
        using step_others_progress [OF step False] step_frame(5) [OF step False] a by simp_all
      have old: "2 * (progress s w div 2) \<le> progress s j + 1"
        using inv_lock_at [OF lock w j wnc cj] .
      from own a iw consider (same) "progress s' w = progress s w"
        | (even) "progress s' w = Suc (progress s w)" "even (progress s w)"
        | (odd) "progress s' w = Suc (progress s w)" "progress s w \<le> progress s j"
        using j cj by blast
      then show ?thesis
      proof cases
        case same
        then show ?thesis using old iw pj by simp
      next
        case even
        then have "progress s' w div 2 = progress s w div 2" by simp
        then show ?thesis using old iw pj by simp
      next
        case odd
        have "2 * (Suc (progress s w) div 2) \<le> Suc (progress s w)" by simp
        then show ?thesis using odd iw pj by simp
      qed
    qed
  next
    case iw: False
    have pi: "progress s' i = progress s i" and ci: "g_pc s i \<noteq> Complete"
      using step_others_progress [OF step iw] step_frame(5) [OF step iw] a by simp_all
    show ?thesis
    proof (cases "j = w")
      case True
      have old: "2 * (progress s i div 2) \<le> progress s w + 1"
        using inv_lock_at [OF lock i w ci wnc] .
      from own a True have "progress s w \<le> progress s' w" by auto
      then show ?thesis using old pi True by simp
    next
      case False
      have pj: "progress s' j = progress s j" and cj: "g_pc s j \<noteq> Complete"
        using step_others_progress [OF step False] step_frame(5) [OF step False] a by simp_all
      show ?thesis using inv_lock_at [OF lock i j ci cj] pi pj by simp
    qed
  qed
qed

lemma step_progress_mono:
  assumes step: "worker_step s w ch = Some s'" and corr: "inv_corr s" and lock: "inv_lock s"
    and "g_pc s' j \<noteq> Complete"
  shows "progress s j \<le> progress s' j \<and> g_pc s j \<noteq> Complete"
proof (cases "j = w")
  case True
  then show ?thesis
    using step_own_progress [OF step corr lock] step_frame(7) [OF step] assms(4) by auto
next
  case False
  then show ?thesis
    using step_others_progress [OF step False] step_frame(5) [OF step False] assms(4) by simp
qed

lemma step_clears:
  assumes "worker_step s w ch = Some s'"
  shows "g_clears s' = g_clears s \<or>
         (\<exists>f. g_pc s w = Vacuum f \<and> s' = enter_finished s w f \<and>
              lazy_check_vacstate_finished
                (with_my_state (g_pstate s) w VACSTATE_VACUUM_FINISHED)
                (round (vacworkers (g_pstate s) ! w)) \<and>
              g_clears s' = g_clears s @ [(w, g_cycles s w)])"
  using assms by (cases rule: worker_stepE) simp_all

lemma inv_clear_step:
  assumes step: "worker_step s w ch = Some s'" and corr: "inv_corr s" and lock: "inv_lock s"
    and clear: "inv_clear s"
  shows "inv_clear s'"
proof -
  note len = step_frame(1) [OF step]
  note wnc = step_frame(7) [OF step]
  have w: "w < length (vacworkers (g_pstate s))"
    using worker_step_in_range [OF step] corr by (simp add: inv_corr_def pstate_wf_def)
  have old: "4 * snd e + 3 \<le> progress s' j"
    if "e \<in> set (g_clears s)" "j < length (vacworkers (g_pstate s))" "g_pc s' j \<noteq> Complete"
    for e j
  proof -
    from step_progress_mono [OF step corr lock that(3)]
    have "progress s j \<le> progress s' j" "g_pc s j \<noteq> Complete" by simp_all
    moreover have "4 * snd e + 3 \<le> progress s j"
      using clear that(1,2) \<open>g_pc s j \<noteq> Complete\<close> unfolding inv_clear_def by blast
    ultimately show ?thesis by simp
  qed
  from step_clears [OF step] show ?thesis
  proof
    assume same: "g_clears s' = g_clears s"
    have "distinct (map snd (g_clears s'))"
      using clear same by (simp add: inv_clear_def)
    then show ?thesis
      unfolding inv_clear_def using old same len by auto
  next
    assume "\<exists>f. g_pc s w = Vacuum f \<and> s' = enter_finished s w f \<and>
              lazy_check_vacstate_finished
                (with_my_state (g_pstate s) w VACSTATE_VACUUM_FINISHED)
                (round (vacworkers (g_pstate s) ! w)) \<and>
              g_clears s' = g_clears s @ [(w, g_cycles s w)]"
    then obtain f where pc: "g_pc s w = Vacuum f" and s': "s' = enter_finished s w f"
      and chk: "lazy_check_vacstate_finished
                (with_my_state (g_pstate s) w VACSTATE_VACUUM_FINISHED)
                (round (vacworkers (g_pstate s) ! w))"
      and log: "g_clears s' = g_clears s @ [(w, g_cycles s w)]"
      by blast
    have Pw: "progress s w = 4 * g_cycles s w + 2" using pc by (simp add: progress_def)
    have fresh: "g_cycles s w \<notin> snd ` set (g_clears s)"
    proof
      assume "g_cycles s w \<in> snd ` set (g_clears s)"
      then obtain e where e: "e \<in> set (g_clears s)" "snd e = g_cycles s w" by auto
      have "4 * snd e + 3 \<le> progress s w"
        using clear e(1) w wnc unfolding inv_clear_def by blast
      then show False using e(2) Pw by simp
    qed
    have new: "4 * g_cycles s w + 3 \<le> progress s' j"
      if "j < length (vacworkers (g_pstate s))" "g_pc s' j \<noteq> Complete" for j
    proof (cases "j = w")
      case True
      then show ?thesis using s' by (simp add: progress_def)
    next
      case False
      have cj: "g_pc s j \<noteq> Complete" using step_frame(5) [OF step False] that(2) by simp
      from arrive_quorum [OF corr lock pc chk w that(1) cj False]
      obtain f' where "g_pc s j = FinWait f'" "g_cycles s j = g_cycles s w" by blast
      then have "progress s j = 4 * g_cycles s w + 3" by (simp add: progress_def)
      then show ?thesis using step_others_progress [OF step False] by simp
    qed
    have "distinct (map snd (g_clears s'))"
      using clear fresh log by (simp add: inv_clear_def)
    then show ?thesis
      unfolding inv_clear_def using old new log len by auto
  qed
qed

lemma inv_all_step:
  assumes "worker_step s w ch = Some s'" "inv_all s"
  shows "inv_all s'"
  using assms inv_corr_step inv_lock_step inv_clear_step unfolding inv_all_def by blast

lemma inv_all_initial: "inv_all (initial_global n nidx maxdt)"
  by (simp add: inv_all_def inv_corr_def inv_lock_def inv_clear_def initial_global_def
        pstate_wf_def progress_def)

lemma inv_all_run:
  "run_schedule s sched = Some s' \<Longrightarrow> inv_all s \<Longrightarrow>
     inv_all s' \<and> g_nindexes s' = g_nindexes s \<and> nworkers (g_pstate s') = nworkers (g_pstate s)"
proof (induction sched arbitrary: s)
  case Nil
  then show ?case by simp
next
  case (Cons a sched)
  obtain w ch where a: "a = (w, ch)" by (cases a)
  from Cons.prems(1) a obtain s1 where s1: "worker_step s w ch = Some s1"
    and rest: "run_schedule s1 sched = Some s'"
    by (auto split: option.splits)
  from Cons.IH [OF rest inv_all_step [OF s1 Cons.prems(2)]] step_frame(2,3) [OF s1]
  show ?case by simp
qed

lemma reachable_inv:
  assumes "reachable n nidx maxdt s"
  shows "inv_all s" and "g_nindexes s = nidx" and "nworkers (g_pstate s) = int n"
proof -
  from assms obtain sched where "run_schedule (initial_global n nidx maxdt) sched = Some s"
    by (auto simp: reachable_def)
  from inv_all_run [OF this inv_all_initial]
  show "inv_all s" and "g_nindexes s = nidx" and "nworkers (g_pstate s) = int n"
    by (simp_all add: initial_global_def)
qed

text \<open>With indexes, the only step that takes entries out of a partition is the arrival
  at the Finished barrier whose count adds up.\<close>

lemma shrink_is_clear:
  assumes step: "worker_step s w ch = Some s'" and corr: "inv_corr s"
    and nidx: "g_nindexes s \<noteq> 0" and shr: "some_partition_shrinks s s'"
  shows "\<exists>f. g_pc s w = Vacuum f \<and> s' = enter_finished s w f \<and>
              lazy_check_vacstate_finished
                (with_my_state (g_pstate s) w VACSTATE_VACUUM_FINISHED)
                (round (vacworkers (g_pstate s) ! w))"
proof -
  have w: "w < length (g_dead s)"
    using worker_step_in_range [OF step] corr by (simp add: inv_corr_def pstate_wf_def)
  from shr obtain j where j: "j < length (g_dead s)" "n_dt (g_dead s' ! j) < n_dt (g_dead s ! j)"
    by (auto simp: some_partition_shrinks_def)
  from step show ?thesis
  proof (cases rule: worker_stepE)
    case alloc
    have "n_dt (g_dead s ! w) = 0"
      using corr w alloc(1) by (simp add: inv_corr_def)
    then have "n_dt (g_dead s' ! j) = n_dt (g_dead s ! j)"
      using alloc j(1) by (cases "j = w") simp_all
    then show ?thesis using j(2) by simp
  next
    case (tuples ts)
    have "n_dt (g_dead s ! j) \<le> n_dt (g_dead s' ! j)"
    proof (cases "j = w")
      case True
      then show ?thesis
        using record_all_mono [of w "worker_stats s" ts] w tuples(2)
        by (simp add: worker_stats_def zero_stats_def)
    next
      case False
      then show ?thesis
        using record_all_others [of j w "worker_stats s" ts] tuples(2)
        by (simp add: worker_stats_def zero_stats_def)
    qed
    then show ?thesis using j(2) by simp
  next
    case page_done_clear
    then show ?thesis using nidx by simp
  next
    case (arrive f)
    show ?thesis
    proof (cases "lazy_check_vacstate_finished
                (with_my_state (g_pstate s) w VACSTATE_VACUUM_FINISHED)
                (round (vacworkers (g_pstate s) ! w))")
      case True
      then show ?thesis using arrive by blast
    next
      case False
      then have "g_dead s' = g_dead s" using arrive by simp
      then show ?thesis using j(2) by simp
    qed
  qed (use j(2) in simp_all)
qed


text \<open>
  Claim C1.  In a parallel run on a relation with indexes, whatever the interleaving of
  the workers' steps: a step takes entries out of a partition only if it is a worker's
  arrival at the Finished barrier (the critical section of
  \<^verbatim>\<open>lazy_set_vacstate_and_wait_finished\<close>) that makes the Finished quorum of the worker's
  round true, the quorum being false before the arrival; at that moment every worker is
  Complete or waits at the Finished barrier of the same cycle, so no partition is cleared
  under a worker that has not arrived; the clearing is logged, and no two clearings ever
  logged belong to the same cycle.
\<close>

theorem C1_clear_only_by_last_arrival:
  assumes reach: "reachable n nidx maxdt s" and nidx: "nidx \<noteq> 0"
    and step: "worker_step s w ch = Some s'"
  shows "distinct (map snd (g_clears s')) \<and>
         (some_partition_shrinks s s' \<longrightarrow>
            (\<exists>f. g_pc s w = Vacuum f \<and> g_pc s' w = FinWait f) \<and>
            \<not> finished_quorum (g_pstate s) (round (vacworkers (g_pstate s) ! w)) \<and>
            finished_quorum (g_pstate s') (round (vacworkers (g_pstate s) ! w)) \<and>
            g_clears s' = g_clears s @ [(w, g_cycles s w)] \<and>
            (\<forall>j < n. g_pc s' j = Complete \<or>
                      (\<exists>f. g_pc s' j = FinWait f) \<and> g_cycles s' j = g_cycles s w))"
proof -
  note inv = reachable_inv [OF reach]
  have corr: "inv_corr s" and lock: "inv_lock s"
    using inv(1) by (simp_all add: inv_all_def)
  have inv': "inv_all s'" using inv_all_step [OF step inv(1)] .
  then have corr': "inv_corr s'" by (simp add: inv_all_def)
  have len: "length (vacworkers (g_pstate s)) = n"
    using corr inv(3) by (simp add: inv_corr_def pstate_wf_def)
  have len': "length (vacworkers (g_pstate s')) = n"
    using step_frame(1) [OF step] len by simp
  have w: "w < length (vacworkers (g_pstate s))"
    using worker_step_in_range [OF step] inv(3) len by simp
  let ?r = "round (vacworkers (g_pstate s) ! w)"
  have r: "?r = of_nat (g_cycles s w)" using inv_corr_at(2) [OF corr w] .
  have dist: "distinct (map snd (g_clears s'))"
    using inv' by (simp add: inv_all_def inv_clear_def)
  have main: "(\<exists>f. g_pc s w = Vacuum f \<and> g_pc s' w = FinWait f) \<and>
            \<not> finished_quorum (g_pstate s) ?r \<and>
            finished_quorum (g_pstate s') ?r \<and>
            g_clears s' = g_clears s @ [(w, g_cycles s w)] \<and>
            (\<forall>j < n. g_pc s' j = Complete \<or>
                      (\<exists>f. g_pc s' j = FinWait f) \<and> g_cycles s' j = g_cycles s w)"
    if shr: "some_partition_shrinks s s'"
  proof -
    from shrink_is_clear [OF step corr _ shr] inv(2) nidx
    obtain f where pc: "g_pc s w = Vacuum f" and s': "s' = enter_finished s w f"
      and chk: "lazy_check_vacstate_finished
                (with_my_state (g_pstate s) w VACSTATE_VACUUM_FINISHED) ?r"
      by auto
    have pc': "g_pc s' w = FinWait f" using s' by simp
    have log: "g_clears s' = g_clears s @ [(w, g_cycles s w)]" using s' chk by simp
    have arrived: "g_pc s' j = Complete \<or>
                   (\<exists>f. g_pc s' j = FinWait f) \<and> g_cycles s' j = g_cycles s w"
      if "j < n" for j
    proof (cases "j = w")
      case True
      then show ?thesis using s' by simp
    next
      case False
      show ?thesis
      proof (cases "g_pc s j = Complete")
        case True
        then show ?thesis using step_frame(5) [OF step False] by simp
      next
        case nc: False
        from arrive_quorum [OF corr lock pc chk w _ nc False] that len
        obtain f' where "g_pc s j = FinWait f'" "g_cycles s j = g_cycles s w" by auto
        then show ?thesis using step_frame(5,6) [OF step False] by simp
      qed
    qed
    have before: "\<not> finished_quorum (g_pstate s) ?r"
    proof
      assume q: "finished_quorum (g_pstate s) ?r"
      have "vacworkers (g_pstate s) ! w \<in> set (vacworkers (g_pstate s))" using w by simp
      with q have "(state (vacworkers (g_pstate s) ! w) = VACSTATE_VACUUM_FINISHED
                      \<and> round (vacworkers (g_pstate s) ! w) = ?r)
          \<or> (state (vacworkers (g_pstate s) ! w) \<in> {VACSTATE_SCANNING, VACSTATE_VACUUM_PREPARED}
                      \<and> round (vacworkers (g_pstate s) ! w) = ?r + 1)
          \<or> state (vacworkers (g_pstate s) ! w) = VACSTATE_COMPLETE"
        unfolding finished_quorum_def by blast
      moreover have "state (vacworkers (g_pstate s) ! w) = VACSTATE_VACUUMING"
        using inv_corr_at(1) [OF corr w] pc by simp
      ultimately show False by (simp add: vacstate_defs)
    qed
    have after: "finished_quorum (g_pstate s') ?r"
      unfolding finished_quorum_def
    proof
      fix x assume "x \<in> set (vacworkers (g_pstate s'))"
      then obtain j where j: "j < length (vacworkers (g_pstate s'))"
        and x: "x = vacworkers (g_pstate s') ! j"
        by (auto simp: in_set_conv_nth)
      have st: "state x = st_of_pc (g_pc s' j)" and rd: "round x = of_nat (g_cycles s' j)"
        using inv_corr_at(1,2) [OF corr' j] x by simp_all
      from arrived [of j] j len' show "(state x = VACSTATE_VACUUM_FINISHED \<and> round x = ?r)
          \<or> (state x \<in> {VACSTATE_SCANNING, VACSTATE_VACUUM_PREPARED} \<and> round x = ?r + 1)
          \<or> state x = VACSTATE_COMPLETE"
        using st rd r by auto
    qed
    show ?thesis using pc pc' before after log arrived by blast
  qed
  show ?thesis using dist main by blast
qed

theorem C1_clear_only_by_last_arrival_witness:
  "let sched = [(1, NoChoice), (1, NoChoice), (1, NoChoice), (1, ScanDone), (1, NoChoice),
                (0, NoChoice), (0, NoChoice), (0, NoChoice), (0, GotPage),
                (0, Tuples [tid 0 1]), (0, PageDone), (0, GotPage), (0, NoChoice),
                (0, NoChoice)];
       s = the (run_schedule (initial_global 2 1 1) sched);
       s' = the (worker_step s 0 NoChoice)
   in reachable 2 1 1 s \<and> worker_step s 0 NoChoice = Some s' \<and>
      map n_dt (g_dead s) = [1, 0] \<and> map n_dt (g_dead s') = [0, 0] \<and>
      some_partition_shrinks s s' \<and>
      g_pc s 0 = Vacuum False \<and> g_pc s' 0 = FinWait False \<and> g_pc s' 1 = Complete \<and>
      \<not> finished_quorum (g_pstate s) 0 \<and> finished_quorum (g_pstate s') 0 \<and>
      g_clears s' = [(0, 0)]"
proof -
  define sched where "sched = [(1::nat, NoChoice), (1, NoChoice), (1, NoChoice), (1, ScanDone),
                (1, NoChoice),
                (0, NoChoice), (0, NoChoice), (0, NoChoice), (0, GotPage),
                (0, Tuples [tid 0 1]), (0, PageDone), (0, GotPage), (0, NoChoice),
                (0, NoChoice)]"
  have rep: "replicate 2 (a::VacWorker) = [a, a]" "replicate 2 (b::LVDeadTuple) = [b, b]" for a b
    by (simp_all add: numeral_2_eq_2)
  have "\<exists>S. run_schedule (initial_global 2 1 1) sched = Some S \<and>
            g_pc S 0 = Vacuum False \<and> g_pc S 1 = Complete \<and>
            g_pstate S = \<lparr>nworkers = 2, vacworkers = [\<lparr>state = VACSTATE_VACUUMING, round = 0\<rparr>,
                                         \<lparr>state = VACSTATE_COMPLETE, round = 0\<rparr>]\<rparr> \<and>
            g_dead S = [\<lparr>n_dt = 1, dt_array = [tid 0 1]\<rparr>, \<lparr>n_dt = 0, dt_array = [tid 0 0]\<rparr>] \<and>
            g_nindexes S = 1 \<and> g_clears S = [] \<and> g_cycles S 0 = 0"
    by (simp add: sched_def initial_global_def worker_step_def set_pc_def set_vacstate_def
          enter_prepared_def nearly_full_def worker_stats_def zero_stats_def
          lazy_set_my_vacstate_def with_my_state_def lazy_check_vacstate_prepared_def
          check_prepared_loop.simps lazy_record_dead_tuple_def MaxHeapTuplesPerPage_def
          vacstate_defs Let_def tid_def rep)
  then obtain S where S: "run_schedule (initial_global 2 1 1) sched = Some S \<and>
            g_pc S 0 = Vacuum False \<and> g_pc S 1 = Complete \<and>
            g_pstate S = \<lparr>nworkers = 2, vacworkers = [\<lparr>state = VACSTATE_VACUUMING, round = 0\<rparr>,
                                         \<lparr>state = VACSTATE_COMPLETE, round = 0\<rparr>]\<rparr> \<and>
            g_dead S = [\<lparr>n_dt = 1, dt_array = [tid 0 1]\<rparr>, \<lparr>n_dt = 0, dt_array = [tid 0 0]\<rparr>] \<and>
            g_nindexes S = 1 \<and> g_clears S = [] \<and> g_cycles S 0 = 0"
    by (rule exE)
  then have run: "run_schedule (initial_global 2 1 1) sched = Some S"
    and pc: "g_pc S 0 = Vacuum False" "g_pc S 1 = Complete"
    and ps: "g_pstate S = \<lparr>nworkers = 2, vacworkers = [\<lparr>state = VACSTATE_VACUUMING, round = 0\<rparr>,
                                         \<lparr>state = VACSTATE_COMPLETE, round = 0\<rparr>]\<rparr>"
    and dead: "g_dead S = [\<lparr>n_dt = 1, dt_array = [tid 0 1]\<rparr>, \<lparr>n_dt = 0, dt_array = [tid 0 0]\<rparr>]"
    and rest: "g_nindexes S = 1" "g_clears S = []" "g_cycles S 0 = 0"
    by simp_all
  define S' where "S' = enter_finished S 0 False"
  have reach: "reachable 2 1 1 S"
    unfolding reachable_def using run by (rule exI)
  have step: "worker_step S 0 NoChoice = Some S'"
    using pc(1) ps by (simp add: worker_step_def S'_def)
  have chk: "lazy_check_vacstate_finished (with_my_state (g_pstate S) 0 VACSTATE_VACUUM_FINISHED)
               (round (vacworkers (g_pstate S) ! 0))"
    by (simp add: ps with_my_state_def lazy_check_vacstate_finished_def
          lazy_count_vacstate_finished_def count_finished_loop.simps vacstate_defs Let_def)
  have dead': "g_dead S' = [\<lparr>n_dt = 0, dt_array = [tid 0 1]\<rparr>, \<lparr>n_dt = 0, dt_array = [tid 0 0]\<rparr>]"
    using chk rest(1) by (simp add: S'_def ps dead clear_all_from.simps)
  have shr: "some_partition_shrinks S S'"
    unfolding some_partition_shrinks_def
  proof (intro exI conjI)
    show "0 < length (g_dead S)" by (simp add: dead)
    show "n_dt (g_dead S' ! 0) < n_dt (g_dead S ! 0)" by (simp add: dead dead')
  qed
  have r0: "round (vacworkers (g_pstate S) ! 0) = 0" by (simp add: ps)
  have n1: "(1::int) \<noteq> 0" by simp
  note concl = C1_clear_only_by_last_arrival [OF reach n1 step, THEN conjunct2, THEN mp, OF shr]
  have c1: "g_pc S' 0 = FinWait False"
    using concl [THEN conjunct1] pc(1) by auto
  have c2: "\<not> finished_quorum (g_pstate S) 0"
    using concl [THEN conjunct2, THEN conjunct1] unfolding r0 .
  have c3: "finished_quorum (g_pstate S') 0"
    using concl [THEN conjunct2, THEN conjunct2, THEN conjunct1] unfolding r0 .
  have c4: "g_clears S' = [(0, 0)]"
    using concl [THEN conjunct2, THEN conjunct2, THEN conjunct2, THEN conjunct1]
    by (simp add: rest)
  have c5: "g_pc S' 1 = Complete"
    using concl [THEN conjunct2, THEN conjunct2, THEN conjunct2, THEN conjunct2, THEN spec, of 1]
      c1 pc(2) by (simp add: S'_def)
  have "reachable 2 1 1 S \<and> worker_step S 0 NoChoice = Some S' \<and>
      map n_dt (g_dead S) = [1, 0] \<and> map n_dt (g_dead S') = [0, 0] \<and>
      some_partition_shrinks S S' \<and>
      g_pc S 0 = Vacuum False \<and> g_pc S' 0 = FinWait False \<and> g_pc S' 1 = Complete \<and>
      \<not> finished_quorum (g_pstate S) 0 \<and> finished_quorum (g_pstate S') 0 \<and>
      g_clears S' = [(0, 0)]"
    using reach step shr pc(1) c1 c2 c3 c4 c5 by (simp add: dead dead')
  then show ?thesis
    unfolding Let_def sched_def [symmetric] by (simp add: run step)
qed

subsection \<open>The dead-tuple store stays sorted\<close>

lemma store_inv_weaken:
  "store_inv my v Q \<Longrightarrow> (\<And>t. Q t \<Longrightarrow> Q' t) \<Longrightarrow> store_inv my v Q'"
  by (simp add: store_inv_def)

lemma same_setup_refl [simp]: "same_setup v v"
  by (simp add: same_setup_def)

lemma same_setup_trans: "same_setup a b \<Longrightarrow> same_setup b c \<Longrightarrow> same_setup a c"
  by (simp add: same_setup_def)

lemma tid_less_next_offset:
  assumes "unat offnum + 1 < 2 ^ 16"
  shows "tid_less (ItemPointerSet blkno offnum) (ItemPointerSet blkno (offnum + 1))"
proof -
  have "unat (offnum + 1) = unat offnum + 1"
    using assms by (simp add: unat_word_ariths)
  then have "offnum < offnum + 1" by (simp add: word_less_nat_alt)
  then show ?thesis by (simp add: tid_less_def ItemPointerSet_def)
qed

lemma record_store_inv:
  assumes inv: "store_inv my v Q" and below: "\<And>t. Q t \<Longrightarrow> tid_less t x"
    and keep: "\<And>t. Q t \<Longrightarrow> Q' t" and new: "Q' x"
  shows "store_inv my (lazy_record_dead_tuple v my x) Q'"
    and "same_setup v (lazy_record_dead_tuple v my x)"
proof -
  have my: "my < length (dead_tuples v)" and wf: "dt_wf (max_dead_tuples v) (dead_tuples v ! my)"
    and srt: "sorted_wrt tid_less (dt_entries (dead_tuples v ! my))"
    and q: "\<forall>t \<in> set (dt_entries (dead_tuples v ! my)). Q t"
    using inv by (simp_all add: store_inv_def partition_sorted_def)
  let ?v = "lazy_record_dead_tuple v my x"
  note ent = record_step_entries [OF my wf, of x]
  have fr: "max_dead_tuples ?v = max_dead_tuples v" "length (dead_tuples ?v) = length (dead_tuples v)"
    using record_step_frame [of v my x] by simp_all
  have wf': "dt_wf (max_dead_tuples ?v) (dead_tuples ?v ! my)"
    using record_step_wf [OF my wf, of x] fr by simp
  have srt': "sorted_wrt tid_less (dt_entries (dead_tuples ?v ! my))"
    using srt q below by (simp add: ent sorted_wrt_append)
  have q': "\<forall>t \<in> set (dt_entries (dead_tuples ?v ! my)). Q' t"
    using q keep new by (auto simp: ent)
  show "store_inv my ?v Q'"
    using my fr wf' srt' q' by (simp add: store_inv_def partition_sorted_def)
  show "same_setup v ?v"
    by (simp add: same_setup_def lazy_record_dead_tuple_def Let_def)
qed

lemma clear_store_inv:
  assumes inv: "store_inv my v Q"
  shows "store_inv my (lazy_clear_dead_tuple v my) Q"
    and "same_setup v (lazy_clear_dead_tuple v my)"
proof -
  have my: "my < length (dead_tuples v)" and wf: "dt_wf (max_dead_tuples v) (dead_tuples v ! my)"
    and srt: "sorted_wrt tid_less (dt_entries (dead_tuples v ! my))"
    and q: "\<forall>t \<in> set (dt_entries (dead_tuples v ! my)). Q t"
    using inv by (simp_all add: store_inv_def partition_sorted_def)
  let ?v = "lazy_clear_dead_tuple v my"
  have len: "length (dead_tuples ?v) = length (dead_tuples v)"
    by (simp add: lazy_clear_dead_tuple_def)
  have mx: "max_dead_tuples ?v = max_dead_tuples v"
    by (simp add: lazy_clear_dead_tuple_def)
  have "dead_tuples ?v ! my = dead_tuples v ! my \<or>
        dead_tuples ?v ! my = (dead_tuples v ! my)\<lparr>n_dt := 0\<rparr>"
    using my by (simp add: lazy_clear_dead_tuple_def clear_all_from_nth)
  then show "store_inv my ?v Q"
  proof
    assume "dead_tuples ?v ! my = dead_tuples v ! my"
    then show ?thesis using inv len mx by (simp add: store_inv_def)
  next
    assume c: "dead_tuples ?v ! my = (dead_tuples v ! my)\<lparr>n_dt := 0\<rparr>"
    have "dt_wf (max_dead_tuples v) ((dead_tuples v ! my)\<lparr>n_dt := 0\<rparr>)"
      using wf by (simp add: dt_wf_def)
    moreover have "dt_entries ((dead_tuples v ! my)\<lparr>n_dt := 0\<rparr>) = []"
      by (simp add: dt_entries_def)
    ultimately show ?thesis
      using my len mx c by (simp add: store_inv_def partition_sorted_def)
  qed
  show "same_setup v ?v"
    by (simp add: same_setup_def lazy_clear_dead_tuple_def)
qed

text \<open>The loop along a page appends the page's dead line pointers in offset order.\<close>

lemma scan_items_store_inv:
  "store_inv my v (\<lambda>t. tid_less t (ItemPointerSet blkno offnum)) \<Longrightarrow>
   unat offnum + length items < 2 ^ 16 \<Longrightarrow>
   scan_items my blkno offnum items v hastup = (v', hastup') \<Longrightarrow>
   store_inv my v' (\<lambda>t. ip_blkid t \<le> blkno) \<and> same_setup v v'"
proof (induction items arbitrary: v offnum hastup)
  case Nil
  have "store_inv my v (\<lambda>t. ip_blkid t \<le> blkno)"
    using Nil.prems(1)
    by (rule store_inv_weaken) (auto simp: tid_less_def ItemPointerSet_def)
  then show ?case using Nil.prems(3) by simp
next
  case (Cons itemid rest)
  have off: "unat offnum + 1 < 2 ^ 16" and rest: "unat (offnum + 1) + length rest < 2 ^ 16"
    using Cons.prems(2) by (simp_all add: unat_word_ariths)
  note nxt = tid_less_next_offset [OF off, of blkno]
  have skip: "store_inv my v (\<lambda>t. tid_less t (ItemPointerSet blkno (offnum + 1)))"
    using Cons.prems(1) by (rule store_inv_weaken) (rule tid_less_trans [OF _ nxt])
  have rec: "store_inv my (lazy_record_dead_tuple v my (ItemPointerSet blkno offnum))
               (\<lambda>t. tid_less t (ItemPointerSet blkno (offnum + 1)))"
    and recs: "same_setup v (lazy_record_dead_tuple v my (ItemPointerSet blkno offnum))"
    using record_store_inv [OF Cons.prems(1), of "ItemPointerSet blkno offnum"
            "\<lambda>t. tid_less t (ItemPointerSet blkno (offnum + 1))"] nxt tid_less_trans
    by blast+
  consider (keep) h where "scan_items my blkno (offnum + 1) rest v h = (v', hastup')"
    | (gone) h where "scan_items my blkno (offnum + 1) rest
                        (lazy_record_dead_tuple v my (ItemPointerSet blkno offnum)) h = (v', hastup')"
    using Cons.prems(3) by (auto split: if_splits ItemId.splits)
  then show ?case
  proof cases
    case keep
    from Cons.IH [OF skip rest keep] show ?thesis .
  next
    case gone
    from Cons.IH [OF rec rest gone] recs show ?thesis
      by (auto intro: same_setup_trans)
  qed
qed

lemma scan_page_store_inv:
  assumes inv: "store_inv my v (\<lambda>t. ip_blkid t < blkno)" and fit: "pages_fit env"
  shows "store_inv my (scan_page env my blkno v) (\<lambda>t. ip_blkid t \<le> blkno) \<and>
         same_setup v (scan_page env my blkno v)"
proof -
  have weak: "store_inv my v (\<lambda>t. ip_blkid t \<le> blkno)"
    using inv by (rule store_inv_weaken) simp
  have upd: "store_inv my (v\<lparr>scanned_pages := a\<rparr>) Q = store_inv my v Q"
    "store_inv my (v\<lparr>pinskipped_pages := a\<rparr>) Q = store_inv my v Q"
    "store_inv my (v\<lparr>nonempty_pages := a\<rparr>) Q = store_inv my v Q" for v a Q
    by (simp_all add: store_inv_def)
  have updS: "same_setup w (v\<lparr>scanned_pages := a\<rparr>) = same_setup w v"
    "same_setup w (v\<lparr>pinskipped_pages := a\<rparr>) = same_setup w v"
    "same_setup w (v\<lparr>nonempty_pages := a\<rparr>) = same_setup w v" for w v a
    by (simp_all add: same_setup_def)
  let ?v1 = "v\<lparr>scanned_pages := scanned_pages v + 1\<rparr>"
  let ?items = "page_items (env_page env blkno)"
  obtain v2 h2 where si: "scan_items my blkno FirstOffsetNumber ?items ?v1 False = (v2, h2)"
    by (cases "scan_items my blkno FirstOffsetNumber ?items ?v1 False")
  have start: "store_inv my ?v1 (\<lambda>t. tid_less t (ItemPointerSet blkno FirstOffsetNumber))"
    using inv unfolding upd
    by (rule store_inv_weaken) (simp add: tid_less_def ItemPointerSet_def)
  have len: "unat FirstOffsetNumber + length ?items < 2 ^ 16"
    using fit by (simp add: pages_fit_def FirstOffsetNumber_def MaxHeapTuplesPerPage_def
                    order.strict_trans1 [where b = 291])
  from scan_items_store_inv [OF start len si]
  have v2: "store_inv my v2 (\<lambda>t. ip_blkid t \<le> blkno)" and s2: "same_setup v v2"
    by (simp_all add: same_setup_def)
  let ?v3 = "if nindexes v2 = 0 \<and> n_dt (dead_tuples v2 ! my) > 0
             then lazy_clear_dead_tuple v2 my else v2"
  have v3: "store_inv my ?v3 (\<lambda>t. ip_blkid t \<le> blkno)" and s3: "same_setup v ?v3"
    using clear_store_inv [OF v2] v2 s2 by (auto intro: same_setup_trans)
  show ?thesis
    using weak v3 s3 si
    by (simp add: scan_page_def Let_def upd updS del: scan_items.simps)
qed

lemma reclaim_cycle_store_inv:
  assumes inv: "store_inv my v Q" and rc: "reclaim_cycle env my in_loop v lookups = (v', lookups')"
  shows "store_inv my v' Q \<and> same_setup v v' \<and> lookups' = lookups @ [dead_tuples v]"
proof -
  let ?v1 = "if in_loop \<and> pstate v = None then lazy_clear_dead_tuple v my else v"
  have v1: "store_inv my ?v1 Q" and s1: "same_setup v ?v1"
    using clear_store_inv [OF inv] inv by auto
  let ?v2 = "if pstate ?v1 \<noteq> None \<and> env_cleared env (num_index_scans ?v1)
             then lazy_clear_dead_tuple ?v1 my else ?v1"
  have v2: "store_inv my ?v2 Q" and s2: "same_setup ?v1 ?v2"
    using clear_store_inv [OF v1] v1 by auto
  have "v' = ?v2\<lparr>num_index_scans := num_index_scans ?v2 + 1\<rparr>"
    and lk: "lookups' = lookups @ [dead_tuples v]"
    using rc by (simp_all add: reclaim_cycle_def Let_def)
  then have "store_inv my v' Q" "same_setup ?v2 v'"
    using v2 by (simp_all add: store_inv_def same_setup_def)
  then show ?thesis
    using s1 s2 lk by (blast intro: same_setup_trans)
qed

lemma scan_iteration_store_inv:
  assumes inv: "store_inv my v (\<lambda>t. ip_blkid t < blkno)" and fit: "pages_fit env"
    and it: "scan_iteration env my blkno v lookups = (v', lookups')"
  shows "store_inv my v' (\<lambda>t. ip_blkid t \<le> blkno) \<and> same_setup v v' \<and>
         (lookups' = lookups \<or> lookups' = lookups @ [dead_tuples v])"
proof -
  obtain v1 l1 where c: "(if max_dead_tuples v - n_dt (dead_tuples v ! my) < MaxHeapTuplesPerPage \<and>
               n_dt (dead_tuples v ! my) > 0
            then reclaim_cycle env my True v lookups
            else (v, lookups)) = (v1, l1)"
    by (cases "if max_dead_tuples v - n_dt (dead_tuples v ! my) < MaxHeapTuplesPerPage \<and>
               n_dt (dead_tuples v ! my) > 0
            then reclaim_cycle env my True v lookups
            else (v, lookups)")
  have v1: "store_inv my v1 (\<lambda>t. ip_blkid t < blkno) \<and> same_setup v v1 \<and>
            (l1 = lookups \<or> l1 = lookups @ [dead_tuples v])"
  proof (cases "max_dead_tuples v - n_dt (dead_tuples v ! my) < MaxHeapTuplesPerPage \<and>
               n_dt (dead_tuples v ! my) > 0")
    case True
    then have "reclaim_cycle env my True v lookups = (v1, l1)" using c by simp
    from reclaim_cycle_store_inv [OF inv this] show ?thesis by simp
  next
    case False
    have "(v, lookups) = (v1, l1)" using c by (simp only: if_not_P [OF False])
    then show ?thesis using inv by auto
  qed
  have res: "v' = scan_page env my blkno v1" "lookups' = l1"
    using it c by (simp_all add: scan_iteration_def)
  from scan_page_store_inv [OF v1 [THEN conjunct1] fit] v1 res
  show ?thesis by (auto intro: same_setup_trans)
qed

text \<open>Choosing the next page leaves the store alone.\<close>

lemma nextpage_serial_for_store:
  "nextpage_serial_for ost vm options aggressive skipping_blocks blkno lvscan vacrelstats avm
     = (b, lvscan', vacrelstats', avm') \<Longrightarrow>
   dead_tuples vacrelstats' = dead_tuples vacrelstats \<and> same_setup vacrelstats vacrelstats'"
proof (induction ost vm options aggressive skipping_blocks blkno lvscan vacrelstats avm
        rule: nextpage_serial_for.induct)
  case (1 ost vm options aggressive skipping_blocks blkno lvscan vacrelstats avm)
  note unf = nextpage_serial_for.simps
               [of ost vm options aggressive skipping_blocks blkno lvscan vacrelstats avm]
  show ?case
  proof (cases "blkno < lv_nblocks lvscan")
    case False
    then show ?thesis using unf "1.prems" by simp
  next
    case lt: True
    show ?thesis
    proof (cases "blkno = lv_next_unskippable_block lvscan")
      case True
      then show ?thesis using unf "1.prems" lt by (auto simp: Let_def)
    next
      case ne: False
      show ?thesis
      proof (cases "skipping_blocks \<and> \<not> FORCE_CHECK_PAGE ost vacrelstats blkno blkno")
        case False
        then show ?thesis using unf "1.prems" lt ne by auto
      next
        case True
        let ?v = "if aggressive \<or> VM_ALL_FROZEN_blk vm blkno
                  then vacrelstats\<lparr>frozenskipped_pages := frozenskipped_pages vacrelstats + 1\<rparr>
                  else vacrelstats"
        have rec: "nextpage_serial_for ost vm options aggressive skipping_blocks (blkno + 1) lvscan
                     ?v avm = (b, lvscan', vacrelstats', avm')"
          using unf "1.prems" lt ne True by simp
        have "dead_tuples vacrelstats' = dead_tuples ?v \<and> same_setup ?v vacrelstats'"
          using "1.IH" [OF lt ne True rec] .
        then show ?thesis by (auto simp: same_setup_def)
      qed
    qed
  qed
qed

lemma nextpage_parallel_store:
  "nextpage_parallel ost vm options aggressive hs vacrelstats avm = (b, hs', vacrelstats', avm') \<Longrightarrow>
   dead_tuples vacrelstats' = dead_tuples vacrelstats \<and> same_setup vacrelstats vacrelstats'"
proof (induction ost vm options aggressive hs vacrelstats avm rule: nextpage_parallel.induct)
  case (1 ost vm options aggressive hs vacrelstats avm)
  note unf = nextpage_parallel.simps [of ost vm options aggressive hs vacrelstats avm]
  obtain blkno rest where nx: "heap_parallelscan_nextpage hs = (blkno, rest)"
    by (cases "heap_parallelscan_nextpage hs")
  show ?case
  proof (cases "vacrelstats' = vacrelstats")
    case True
    then show ?thesis by simp
  next
    case False
    then have ne: "blkno \<noteq> InvalidBlockNumber"
      using unf nx "1.prems" by auto
    have br: "options AND VACOPT_DISABLE_PAGE_SKIPPING = 0 \<and>
              \<not> FORCE_CHECK_PAGE ost vacrelstats blkno blkno"
      using False unf nx ne "1.prems" by (auto split: if_splits)
    show ?thesis
    proof (cases aggressive)
      case agg: True
      let ?v = "vacrelstats\<lparr>frozenskipped_pages := frozenskipped_pages vacrelstats + 1\<rparr>"
      have fr: "visibilitymap_get_status vm blkno AND VISIBILITYMAP_ALL_FROZEN \<noteq> 0"
        using False unf nx ne br agg "1.prems" by (auto simp: Let_def split: if_splits)
      have rec: "nextpage_parallel ost vm options aggressive rest ?v False
                   = (b, hs', vacrelstats', avm')"
        using unf nx ne br agg fr "1.prems" by (simp add: Let_def)
      have "dead_tuples vacrelstats' = dead_tuples ?v \<and> same_setup ?v vacrelstats'"
        using "1.IH"(1) [OF nx [symmetric] ne br refl agg fr rec] .
      then show ?thesis by (auto simp: same_setup_def)
    next
      case agg: False
      let ?v = "if visibilitymap_get_status vm blkno AND VISIBILITYMAP_ALL_FROZEN = 0
                then vacrelstats\<lparr>frozenskipped_pages := frozenskipped_pages vacrelstats + 1\<rparr>
                else vacrelstats"
      have vis: "visibilitymap_get_status vm blkno AND VISIBILITYMAP_ALL_VISIBLE \<noteq> 0"
        using False unf nx ne br agg "1.prems" by (auto simp: Let_def split: if_splits)
      have rec: "nextpage_parallel ost vm options aggressive rest ?v False
                   = (b, hs', vacrelstats', avm')"
        using unf nx ne br agg vis "1.prems" by (simp add: Let_def)
      have "dead_tuples vacrelstats' = dead_tuples ?v \<and> same_setup ?v vacrelstats'"
        using "1.IH"(2) [OF nx [symmetric] ne br refl agg vis rec] .
      then show ?thesis by (auto simp: same_setup_def)
    qed
  qed
qed

lemma get_nextpage_store:
  assumes "lazy_scan_heap_get_nextpage ost vm vacrelstats lvscan avm options aggressive
             = (blkno, lvscan', vacrelstats', avm')"
  shows "dead_tuples vacrelstats' = dead_tuples vacrelstats \<and> same_setup vacrelstats vacrelstats'"
proof (cases "pstate vacrelstats \<noteq> None")
  case True
  obtain b hs' v1 a1 where np: "nextpage_parallel ost vm options aggressive (the (heapscan lvscan))
                                  vacrelstats avm = (b, hs', v1, a1)"
    by (cases "nextpage_parallel ost vm options aggressive (the (heapscan lvscan)) vacrelstats avm")
  from assms True np have "vacrelstats' = v1"
    by (auto simp: lazy_scan_heap_get_nextpage_def)
  with nextpage_parallel_store [OF np] show ?thesis by simp
next
  case False
  then have ser: "pstate vacrelstats = None" by simp
  from get_nextpage_serial [OF ser, of lvscan ost vm avm options aggressive]
  obtain skipping_blocks lvscan1 where
    unf: "lazy_scan_heap_get_nextpage ost vm vacrelstats lvscan avm options aggressive =
       (case nextpage_serial_for ost vm options aggressive skipping_blocks
                     (lv_cblock lvscan1) lvscan1 vacrelstats avm of
          (blkno, lvscan, vacrelstats, avm) \<Rightarrow>
            (if blkno = lv_nblocks lvscan then InvalidBlockNumber else blkno,
             lvscan\<lparr>lv_cblock := blkno + 1\<rparr>, vacrelstats, avm))"
    by blast
  obtain b lvscan2 v1 a1 where sf: "nextpage_serial_for ost vm options aggressive skipping_blocks
                                      (lv_cblock lvscan1) lvscan1 vacrelstats avm = (b, lvscan2, v1, a1)"
    by (cases "nextpage_serial_for ost vm options aggressive skipping_blocks
                 (lv_cblock lvscan1) lvscan1 vacrelstats avm")
  from unf assms sf have "vacrelstats' = v1" by simp
  with nextpage_serial_for_store [OF sf] show ?thesis by simp
qed

text \<open>The invariant of the scan loop.\<close>

lemma scan_loop_sorted:
  "scan_inv my lvscan v \<Longrightarrow> pages_fit env \<Longrightarrow>
   \<forall>P \<in> set lookups. partition_sorted (P ! my) \<and> length P = length (dead_tuples v) \<Longrightarrow>
   scan_loop env my lvscan v avm lookups = (lvscan', v', lookups') \<Longrightarrow>
   store_inv my v' (\<lambda>t. True) \<and> length (dead_tuples v') = length (dead_tuples v) \<and>
   (\<forall>P \<in> set lookups'. partition_sorted (P ! my) \<and> length P = length (dead_tuples v))"
proof (induction env my lvscan v avm lookups rule: scan_loop.induct)
  case (1 env my lvscan v avm lookups)
  obtain blkno lvscan1 v1 avm1 where
    np: "lazy_scan_heap_get_nextpage (env_old_snapshot_threshold env) (env_vm env) v
             lvscan avm (env_options env) (env_aggressive env) = (blkno, lvscan1, v1, avm1)"
    by (cases "lazy_scan_heap_get_nextpage (env_old_snapshot_threshold env) (env_vm env) v
             lvscan avm (env_options env) (env_aggressive env)")
  note unf = scan_loop.simps [of env my lvscan v avm lookups]
  from get_nextpage_store [OF np]
  have dt: "dead_tuples v1 = dead_tuples v" and ss: "same_setup v v1" by simp_all
  have carry: "store_inv my v1 Q = store_inv my v Q" for Q
    using dt ss by (simp add: store_inv_def same_setup_def)
  have ps: "pstate v1 = pstate v" using ss by (simp add: same_setup_def)
  show ?case
  proof (cases "blkno \<noteq> InvalidBlockNumber")
    case False
    then have "v' = v1" "lookups' = lookups"
      using unf np "1.prems"(4) by simp_all
    moreover have "store_inv my v (\<lambda>t. True)"
      using "1.prems"(1) by (auto simp: scan_inv_def store_inv_def split: if_splits)
    ultimately show ?thesis using carry dt "1.prems"(3) by simp
  next
    case ne: True
    obtain v2 lookups2 where it: "scan_iteration env my blkno v1 lookups = (v2, lookups2)"
      by (cases "scan_iteration env my blkno v1 lookups")
    have rec: "scan_loop env my lvscan1 v2 avm1 lookups2 = (lvscan', v', lookups')"
      using unf np ne it "1.prems"(4) by simp
    note adv = get_nextpage_advances [OF np ne]
    have wrap: "blkno < blkno + 1"
    proof -
      have "unat blkno < 2 ^ 32" using unsigned_less [of blkno, where 'a = nat] by simp
      moreover have "unat blkno \<noteq> 2 ^ 32 - 1"
      proof
        assume "unat blkno = 2 ^ 32 - 1"
        then have "unat blkno = unat InvalidBlockNumber" by (simp add: InvalidBlockNumber_def)
        then show False using ne by (simp only: word_unat_eq_iff [symmetric])
      qed
      ultimately have "unat (blkno + 1) = unat blkno + 1" by (simp add: unat_word_ariths)
      then show ?thesis by (simp add: word_less_nat_alt)
    qed
    have before: "store_inv my v (\<lambda>t. ip_blkid t < blkno)"
    proof (cases "pstate v \<noteq> None")
      case True
      with adv obtain pre hs' where "the (heapscan lvscan) = pre @ blkno # hs'" by auto
      then have "blkno \<in> set (the (heapscan lvscan))" by simp
      moreover have "store_inv my v (\<lambda>t. \<forall>b \<in> set (the (heapscan lvscan)). ip_blkid t < b)"
        using "1.prems"(1) True by (simp add: scan_inv_def)
      ultimately show ?thesis by (auto elim: store_inv_weaken)
    next
      case False
      with adv have "lv_cblock lvscan \<le> blkno" by simp
      moreover have "store_inv my v (\<lambda>t. ip_blkid t < lv_cblock lvscan)"
        using "1.prems"(1) False by (simp add: scan_inv_def)
      ultimately show ?thesis by (auto elim: store_inv_weaken)
    qed
    then have before1: "store_inv my v1 (\<lambda>t. ip_blkid t < blkno)" by (simp add: carry)
    from scan_iteration_store_inv [OF before1 "1.prems"(2) it]
    have after: "store_inv my v2 (\<lambda>t. ip_blkid t \<le> blkno)" and ss2: "same_setup v1 v2"
      and lk: "lookups2 = lookups \<or> lookups2 = lookups @ [dead_tuples v1]"
      by simp_all
    have ps2: "pstate v2 = pstate v" using ss2 ps by (simp add: same_setup_def)
    have len2: "length (dead_tuples v2) = length (dead_tuples v)"
      using ss2 dt by (simp add: same_setup_def)
    have inv2: "scan_inv my lvscan1 v2"
    proof (cases "pstate v \<noteq> None")
      case True
      with adv obtain pre hs' where hs: "the (heapscan lvscan) = pre @ blkno # hs'"
        and h1: "heapscan lvscan1 = Some hs'"
        by auto
      have asc: "sorted_wrt (<) (pre @ blkno # hs')"
        using "1.prems"(1) True hs by (simp add: scan_inv_def)
      then have "sorted_wrt (<) hs'" and above: "\<forall>b \<in> set hs'. blkno < b"
        by (simp_all add: sorted_wrt_append)
      moreover have "store_inv my v2 (\<lambda>t. \<forall>b \<in> set hs'. ip_blkid t < b)"
        using after by (rule store_inv_weaken) (use above in auto)
      ultimately show ?thesis using True ps2 h1 by (simp add: scan_inv_def)
    next
      case False
      with adv have c1: "lv_cblock lvscan1 = blkno + 1" by simp
      have "store_inv my v2 (\<lambda>t. ip_blkid t < blkno + 1)"
        using after by (rule store_inv_weaken) (use wrap in auto)
      then show ?thesis using False ps2 c1 by (simp add: scan_inv_def)
    qed
    have lk2: "\<forall>P \<in> set lookups2. partition_sorted (P ! my) \<and>
                 length P = length (dead_tuples v2)"
    proof -
      have "partition_sorted (dead_tuples v1 ! my)"
        using before1 by (simp add: store_inv_def)
      then show ?thesis using lk "1.prems"(3) dt len2 by auto
    qed
    from "1.IH" [OF np [symmetric] refl refl ne it [symmetric] inv2 "1.prems"(2) lk2 rec]
    show ?thesis by (simp add: len2)
  qed
qed

lemma sorted_tids_distinct:
  "sorted_wrt tid_less xs \<Longrightarrow> distinct xs"
proof (induction xs)
  case Nil
  then show ?case by simp
next
  case (Cons x xs)
  then show ?case using tid_less_irrefl by auto
qed

lemma max_dead_tuple_positive: "0 < lazy_get_max_dead_tuple vac_work_mem v"
  by (simp add: lazy_get_max_dead_tuple_def Let_def MaxHeapTuplesPerPage_def max_def)

text \<open>
  What holds of the order.  In a serial run the partition is in strictly increasing TID
  order, without a TID twice, during every reclaim cycle (when \<^verbatim>\<open>lazy_tid_reaped\<close> can be
  called) and at the end of the scan: \<^verbatim>\<open>lazy_scan_heap_get_nextpage\<close> moves \<^verbatim>\<open>lv_cblock\<close>
  forward only.  For a parallel worker the same follows only in a run in which
  \<^verbatim>\<open>heap_parallelscan_nextpage\<close> happens to hand the worker its pages in increasing order;
  nothing in \<^verbatim>\<open>lazy_scan_heap\<close> makes it so.
\<close>

lemma scan_store_sorted:
  assumes fit: "pages_fit env"
    and par: "pstate v \<noteq> None \<longrightarrow>
                pwn < length (dead_tuples v) \<and> 0 \<le> max_dead_tuples v \<and>
                length (dt_array (dead_tuples v ! pwn)) = nat (max_dead_tuples v) \<and>
                sorted_wrt (<) (the pscan)"
    and run: "lazy_scan_heap env pwn pscan v = (v', lookups)"
  shows "(\<forall>P \<in> set lookups. partition_sorted (P ! my_partition v pwn) \<and>
                              distinct (dt_entries (P ! my_partition v pwn))) \<and>
         partition_sorted (dead_tuples v' ! my_partition v pwn) \<and>
         (pstate v = None \<longrightarrow> (\<forall>P \<in> set lookups. \<forall>d \<in> set P. partition_sorted d))"
proof -
  let ?v = "v\<lparr>rel_pages := env_nblocks env, scanned_pages := 0, nonempty_pages := 0\<rparr>"
  let ?my = "my_partition v pwn"
  obtain v0 my where al: "lazy_space_alloc (env_vac_work_mem env) ?v pwn = (v0, my)"
    by (cases "lazy_space_alloc (env_vac_work_mem env) ?v pwn")
  have my: "my = ?my" and p0: "pstate v0 = pstate v"
    using al by (auto simp: lazy_space_alloc_def my_partition_def Let_def split: if_splits)
  have s0: "store_inv my v0 Q" for Q
  proof (cases "pstate v = None")
    case True
    let ?m = "lazy_get_max_dead_tuple (env_vac_work_mem env) ?v"
    have "v0 = ?v\<lparr>dead_tuples := [\<lparr>n_dt = 0, dt_array = replicate (nat ?m)
                                                   \<lparr>ip_blkid = 0, ip_posid = 0\<rparr>\<rparr>],
                   max_dead_tuples := ?m\<rparr>" "my = 0"
      using al True by (auto simp: lazy_space_alloc_def Let_def)
    then show ?thesis
      using max_dead_tuple_positive [of "env_vac_work_mem env" ?v]
      by (simp add: store_inv_def partition_sorted_def dt_wf_def dt_entries_def)
  next
    case False
    then have "v0 = ?v\<lparr>dead_tuples := (dead_tuples ?v)[pwn := (dead_tuples ?v ! pwn)\<lparr>n_dt := 0\<rparr>]\<rparr>"
      "my = pwn"
      using al by (auto simp: lazy_space_alloc_def)
    then show ?thesis
      using par False
      by (simp add: store_inv_def partition_sorted_def dt_wf_def dt_entries_def)
  qed
  have one: "pstate v = None \<longrightarrow> length (dead_tuples v0) = 1"
    using al by (auto simp: lazy_space_alloc_def Let_def)
  have inv0: "scan_inv my (lv_beginscan v0 pscan) v0"
    using s0 par p0 by (simp add: scan_inv_def lv_beginscan_def)
  obtain lvscan1 v1 lookups1 where
    loop: "scan_loop env my (lv_beginscan v0 pscan) v0 (env_avm0 env) [] = (lvscan1, v1, lookups1)"
    by (cases "scan_loop env my (lv_beginscan v0 pscan) v0 (env_avm0 env) []")
  from scan_loop_sorted [OF inv0 fit _ loop]
  have v1: "store_inv my v1 (\<lambda>t. True)" and len1: "length (dead_tuples v1) = length (dead_tuples v0)"
    and lk1: "\<forall>P \<in> set lookups1. partition_sorted (P ! my) \<and> length P = length (dead_tuples v0)"
    by simp_all
  have res: "(v', lookups) = (if n_dt (dead_tuples v1 ! my) > 0
                              then reclaim_cycle env my False v1 lookups1
                              else (v1, lookups1))"
    using run al loop by (simp add: lazy_scan_heap_def Let_def)
  have fin: "store_inv my v' (\<lambda>t. True) \<and>
             (\<forall>P \<in> set lookups. partition_sorted (P ! my) \<and> length P = length (dead_tuples v0))"
  proof (cases "n_dt (dead_tuples v1 ! my) > 0")
    case True
    then have "reclaim_cycle env my False v1 lookups1 = (v', lookups)" using res by simp
    from reclaim_cycle_store_inv [OF v1 this]
    have "store_inv my v' (\<lambda>t. True)" "lookups = lookups1 @ [dead_tuples v1]" by simp_all
    moreover have "partition_sorted (dead_tuples v1 ! my)" using v1 by (simp add: store_inv_def)
    ultimately show ?thesis using lk1 len1 by auto
  next
    case False
    then have "v' = v1" "lookups = lookups1" using res by simp_all
    then show ?thesis using v1 lk1 by simp
  qed
  then have last: "partition_sorted (dead_tuples v' ! my)" by (simp add: store_inv_def)
  have all: "\<forall>d \<in> set P. partition_sorted d" if "pstate v = None" "P \<in> set lookups" for P
  proof -
    have "length P = 1" "partition_sorted (P ! 0)"
      using fin that one my by (auto simp: my_partition_def)
    then show ?thesis by (cases P) auto
  qed
  show ?thesis
    using fin last all sorted_tids_distinct my by (auto simp: partition_sorted_def)
qed

text \<open>
  Claim C4, at a failing input.  A parallel worker (worker 0 of two) on a relation of five
  pages with one index; pages 0 and 4 hold one dead line pointer each, at offset 1, the
  pages between are empty; each partition has the 1455 slots that
  \<^verbatim>\<open>lazy_get_max_dead_tuple\<close> computes.  The shared scan starts at page 4 and wraps around:
  \<^verbatim>\<open>heap_parallelscan_nextpage\<close> hands this worker page 4 and then page 0 (the other worker
  takes the pages between and records nothing).  The worker appends in that order; in its
  reclaim cycle, when \<^verbatim>\<open>lazy_vacuum_index\<close> calls \<^verbatim>\<open>lazy_tid_reaped\<close>, its partition holds
  (4,1) before (0,1): it is not in increasing TID order, and \<^verbatim>\<open>lazy_tid_reaped\<close> answers
  false for the recorded TID (4,1).
\<close>

theorem C4_parallel_store_unsorted:
  "let env = \<lparr>env_old_snapshot_threshold = - 1, env_vm = (\<lambda>b. 0), env_options = 0,
              env_aggressive = False, env_nblocks = 5,
              env_page = (\<lambda>b. if b = 0 \<or> b = 4 then InitPage [LP_DEAD] else InitPage []),
              env_cleanup_lock = (\<lambda>b. True), env_needs_freeze = (\<lambda>b. (False, False)),
              env_avm0 = False, env_cleared = (\<lambda>k. True), env_vac_work_mem = 65536\<rparr>;
       slots = tid 0 0 # tid 0 0 # replicate 1453 (tid 0 0);
       v = (zero_stats 1455 [\<lparr>n_dt = 0, dt_array = slots\<rparr>, \<lparr>n_dt = 0, dt_array = slots\<rparr>]
              (Some \<lparr>nworkers = 2, vacworkers = [\<lparr>state = VACSTATE_STARTUP, round = 0\<rparr>,
                                                  \<lparr>state = VACSTATE_STARTUP, round = 0\<rparr>]\<rparr>))
             \<lparr>nindexes := 1, old_rel_pages := 5\<rparr>;
       run = lazy_scan_heap env 0 (Some [4, 0]) v;
       P = hd (snd run)
   in max_dead_tuples v = lazy_get_max_dead_tuple (env_vac_work_mem env) v \<and>
      length slots = nat (max_dead_tuples v) \<and>
      length (snd run) = 1 \<and>
      dt_entries (P ! 0) = [tid 4 1, tid 0 1] \<and>
      \<not> partition_sorted (P ! 0) \<and>
      tid 4 1 \<in> set (dt_entries (P ! 0)) \<and>
      \<not> lazy_tid_reaped (tid 4 1) ((fst run)\<lparr>dead_tuples := P\<rparr>)"
proof -
  define env where "env = \<lparr>env_old_snapshot_threshold = - 1, env_vm = (\<lambda>b. 0), env_options = 0,
              env_aggressive = False, env_nblocks = 5,
              env_page = (\<lambda>b. if b = 0 \<or> b = 4 then InitPage [LP_DEAD] else InitPage []),
              env_cleanup_lock = (\<lambda>b. True), env_needs_freeze = (\<lambda>b. (False, False)),
              env_avm0 = False, env_cleared = (\<lambda>k :: int. True), env_vac_work_mem = 65536\<rparr>"
  define rest where "rest = replicate 1453 (tid 0 0)"
  define ps where "ps = \<lparr>nworkers = 2, vacworkers = [\<lparr>state = VACSTATE_STARTUP, round = 0\<rparr>,
                                                  \<lparr>state = VACSTATE_STARTUP, round = 0\<rparr>]\<rparr>"
  define v where "v = (zero_stats 1455 [\<lparr>n_dt = 0, dt_array = tid 0 0 # tid 0 0 # rest\<rparr>,
                                        \<lparr>n_dt = 0, dt_array = tid 0 0 # tid 0 0 # rest\<rparr>]
              (Some ps))\<lparr>nindexes := 1, old_rel_pages := 5\<rparr>"
  define run where "run = lazy_scan_heap env 0 (Some [4, 0]) v"
  define P where "P = [\<lparr>n_dt = 2, dt_array = tid 4 1 # tid 0 1 # rest\<rparr>,
                       \<lparr>n_dt = 0, dt_array = tid 0 0 # tid 0 0 # rest\<rparr>]"
  have cap: "max_dead_tuples v = lazy_get_max_dead_tuple (env_vac_work_mem env) v"
    by (simp add: v_def env_def zero_stats_def lazy_get_max_dead_tuple_def Let_def
          sizeof_ItemPointerData_def INT_MAX_def MaxAllocSize_def LAZY_ALLOC_TUPLES_def
          MaxHeapTuplesPerPage_def)
  have len: "length (tid 0 0 # tid 0 0 # rest) = nat (max_dead_tuples v)"
    by (simp add: rest_def v_def zero_stats_def)
  have lk: "snd run = [P]" and ps': "pstate (fst run) = Some ps"
    by (simp_all add: run_def v_def env_def P_def lazy_scan_heap_def lazy_space_alloc_def
          lv_beginscan_def zero_stats_def scan_loop.simps lazy_scan_heap_get_nextpage_def
          nextpage_parallel.simps heap_parallelscan_nextpage_def visibilitymap_get_status_def
          VISIBILITYMAP_ALL_VISIBLE_def VISIBILITYMAP_ALL_FROZEN_def
          InvalidBlockNumber_def VACOPT_DISABLE_PAGE_SKIPPING_def FORCE_CHECK_PAGE_never
          scan_iteration_def scan_page_def reclaim_cycle_def lazy_clear_dead_tuple_def
          clear_all_from.simps
          lazy_record_dead_tuple_def MaxHeapTuplesPerPage_def PageIsNew_def PageIsEmpty_def
          page_items_def ItemIdIsUsed_def FirstOffsetNumber_def ItemPointerSet_def tid_def
          Let_def)
  have ent: "dt_entries (P ! 0) = [tid 4 1, tid 0 1]"
    by (simp add: P_def dt_entries_def)
  have uns: "\<not> partition_sorted (P ! 0)"
    by (simp add: partition_sorted_def ent tid_less_def tid_def)
  have mem: "tid 4 1 \<in> set (dt_entries (P ! 0))"
    by (simp add: ent)
  have miss: "\<not> lazy_tid_reaped (tid 4 1) ((fst run)\<lparr>dead_tuples := P\<rparr>)"
    by (simp add: lazy_tid_reaped_def ps' ps_def P_def tid_reaped_from.simps bsearch_def
          bsearch_loop.simps vac_cmp_itemptr_def ItemPointerGetBlockNumber_def
          ItemPointerGetOffsetNumber_def tid_def Let_def)
  have "max_dead_tuples v = lazy_get_max_dead_tuple (env_vac_work_mem env) v \<and>
      length (tid 0 0 # tid 0 0 # rest) = nat (max_dead_tuples v) \<and>
      length (snd run) = 1 \<and>
      dt_entries (hd (snd run) ! 0) = [tid 4 1, tid 0 1] \<and>
      \<not> partition_sorted (hd (snd run) ! 0) \<and>
      tid 4 1 \<in> set (dt_entries (hd (snd run) ! 0)) \<and>
      \<not> lazy_tid_reaped (tid 4 1) ((fst run)\<lparr>dead_tuples := hd (snd run)\<rparr>)"
    using cap len ent uns mem miss by (simp add: lk)
  then show ?thesis
    unfolding Let_def run_def v_def ps_def rest_def env_def .
qed

end
